(* ===== verification/Prelude.thy ===== *)
theory Prelude
  imports Main "HOL-Library.Word"
begin

text \<open>
  The vocabulary of the development: Rust's machine integers as words, the two build profiles
  that decide what an overflowing \<open>+\<close>, \<open>-\<close> or \<open>*\<close> does, panics as values of a sum, calls into
  the operating system as three-way outcomes, and the arithmetic of the 32-bit circle on which
  the heads of a ring move.
\<close>

unbundle bit_operations_syntax

named_theorems res_simps

subsection \<open>Machine integers\<close>

text \<open>
  The target is a 64-bit Linux: \<open>usize\<close> and raw addresses are \<open>u64\<close>.  A \<open>c_int\<close> is an
  \<open>int\<close>: the code only compares it, negates a constant, and casts it to \<open>u32\<close>.
\<close>

type_synonym u8 = "8 word"
type_synonym u16 = "16 word"
type_synonym u32 = "32 word"
type_synonym u64 = "64 word"
type_synonym c_int = int

lemma unat_u32: "unat (v :: u32) < 4294967296"
  by (rule order.strict_trans2[OF unsigned_less]) simp

lemma unat_u64: "unat (v :: u64) < 18446744073709551616"
  by (rule order.strict_trans2[OF unsigned_less]) simp

lemma unat_ucast_u64 [simp]: "unat (ucast (v :: u32) :: u64) = unat v"
  using unat_u32[of v] by (simp add: unsigned_ucast_eq take_bit_nat_eq_self)

subsection \<open>Build profiles, panics and outcomes\<close>

text \<open>
  \<open>Debug\<close> is a build with overflow checks and debug assertions, \<open>Release\<close> one without either
  (Cargo's two default profiles).  A program that ends itself by \<open>process::exit\<close> counts as a panic, \<open>Exited\<close>.
\<close>

datatype profile = Debug | Release

datatype panic = ArithOverflow | AssertFailed | DivByZero | NotImplemented | OutOfRange | Unwrapped | Exited

type_synonym 'a res = "panic + 'a"

definition rbind :: "'a res \<Rightarrow> ('a \<Rightarrow> 'b res) \<Rightarrow> 'b res" where
  "rbind x f = (case x of Inl e \<Rightarrow> Inl e | Inr a \<Rightarrow> f a)"

lemma rbind_Inl [simp, res_simps]: "rbind (Inl e) f = Inl e"
  by (simp add: rbind_def)

lemma rbind_Inr [simp, res_simps]: "rbind (Inr a) f = f a"
  by (simp add: rbind_def)

lemma rbind_eq_Inr [res_simps]:
  "rbind x f = Inr b \<longleftrightarrow> (\<exists>a. x = Inr a \<and> f a = Inr b)"
  by (cases x) auto

lemma rbind_eq_Inl [res_simps]:
  "rbind x f = Inl e \<longleftrightarrow> x = Inl e \<or> (\<exists>a. x = Inr a \<and> f a = Inl e)"
  by (cases x) auto

text \<open>
  \<open>Errno\<close> is the crate's error type (\<open>src/lib.rs\<close>).  A function that returns
  \<open>Result<T, Errno>\<close> and may also panic has an \<open>outcome\<close>.
\<close>

datatype Errno = Errno (get_raw: c_int)

datatype 'a outcome = Ok 'a | Err Errno | Panic panic

fun of_res :: "'a res \<Rightarrow> 'a outcome" where
  "of_res (Inl e) = Panic e"
| "of_res (Inr a) = Ok a"

lemma of_res_eq_Ok [res_simps]: "of_res x = Ok a \<longleftrightarrow> x = Inr a"
  by (cases x) auto

text \<open>The \<open>?\<close> operator in a function that also carries a state.\<close>

definition obind :: "'a outcome \<times> 's \<Rightarrow> ('a \<Rightarrow> 's \<Rightarrow> 'b outcome \<times> 's) \<Rightarrow> 'b outcome \<times> 's" where
  "obind x f =
     (case x of (Ok a, s) \<Rightarrow> f a s | (Err e, s) \<Rightarrow> (Err e, s) | (Panic e, s) \<Rightarrow> (Panic e, s))"

lemma obind_simps [simp, res_simps]:
  "obind (Ok a, s) f = f a s" "obind (Err e, s) f = (Err e, s)" "obind (Panic p, s) f = (Panic p, s)"
  by (simp_all add: obind_def)

lemma obind_eq_Ok [res_simps]:
  "obind x f = (Ok b, t) \<longleftrightarrow> (\<exists>a s. x = (Ok a, s) \<and> f a s = (Ok b, t))"
  by (cases x; cases "fst x") auto

lemma obind_eq_Err [res_simps]:
  "obind x f = (Err e, t) \<longleftrightarrow> x = (Err e, t) \<or> (\<exists>a s. x = (Ok a, s) \<and> f a s = (Err e, t))"
  by (cases x; cases "fst x") auto

subsection \<open>The overflow behaviour of the operators\<close>

definition add_chk :: "profile \<Rightarrow> 'a::len word \<Rightarrow> 'a word \<Rightarrow> 'a word res" where
  "add_chk pf a b =
     (if pf = Debug \<and> 2 ^ LENGTH('a) \<le> unat a + unat b then Inl ArithOverflow else Inr (a + b))"

definition sub_chk :: "profile \<Rightarrow> 'a::len word \<Rightarrow> 'a word \<Rightarrow> 'a word res" where
  "sub_chk pf a b = (if pf = Debug \<and> a < b then Inl ArithOverflow else Inr (a - b))"

definition mul_chk :: "profile \<Rightarrow> 'a::len word \<Rightarrow> 'a word \<Rightarrow> 'a word res" where
  "mul_chk pf a b =
     (if pf = Debug \<and> 2 ^ LENGTH('a) \<le> unat a * unat b then Inl ArithOverflow else Inr (a * b))"

definition checked_sub :: "'a::len word \<Rightarrow> 'a word \<Rightarrow> 'a word option" where
  "checked_sub a b = (if a < b then None else Some (a - b))"

text \<open>\<open>u32::is_power_of_two\<close>.\<close>

definition is_power_of_two :: "u32 \<Rightarrow> bool" where
  "is_power_of_two w = list_ex (\<lambda>k. w = 2 ^ k) [0..<32]"

lemma add_chk_Release [simp, res_simps]: "add_chk Release a b = Inr (a + b)"
  by (simp add: add_chk_def)

lemma sub_chk_Release [simp, res_simps]: "sub_chk Release a b = Inr (a - b)"
  by (simp add: sub_chk_def)

lemma mul_chk_Release [simp, res_simps]: "mul_chk Release a b = Inr (a * b)"
  by (simp add: mul_chk_def)

lemma add_chk_InrD: "add_chk pf a b = Inr c \<Longrightarrow> c = a + b"
  by (auto simp: add_chk_def split: if_splits)

lemma sub_chk_InrD: "sub_chk pf a b = Inr c \<Longrightarrow> c = a - b"
  by (auto simp: sub_chk_def split: if_splits)

lemma mul_chk_InrD: "mul_chk pf a b = Inr c \<Longrightarrow> c = a * b"
  by (auto simp: mul_chk_def split: if_splits)

lemma add_chk_fits:
  fixes a b :: "'a::len word"
  shows "unat a + unat b < 2 ^ LENGTH('a) \<Longrightarrow> add_chk pf a b = Inr (a + b)"
  by (simp add: add_chk_def)

lemma sub_chk_fits: "b \<le> a \<Longrightarrow> sub_chk pf a b = Inr (a - b)"
  by (simp add: sub_chk_def not_less)

lemma is_power_of_two_iff: "is_power_of_two w \<longleftrightarrow> (\<exists>k<32. w = 2 ^ k)"
  by (auto simp: is_power_of_two_def list_ex_iff)

lemma unat_pow2:
  assumes "k < 32"
  shows "unat (2 ^ k :: u32) = 2 ^ k"
proof -
  have "(2::nat) ^ k < 2 ^ 32"
    using assms by (intro power_strict_increasing) auto
  moreover have "(2 ^ k :: u32) = of_nat (2 ^ k)" by simp
  ultimately show ?thesis
    by (simp only: unat_of_nat) simp
qed

lemma is_power_of_two_unat:
  assumes "is_power_of_two w"
  obtains k where "k < 32" and "unat w = 2 ^ k"
proof -
  from assms obtain k where k: "k < 32" "w = 2 ^ k"
    by (auto simp: is_power_of_two_iff)
  then have "unat w = 2 ^ k"
    by (simp add: unat_pow2)
  with k(1) show thesis by (rule that)
qed

lemma is_power_of_two_bounds:
  assumes "is_power_of_two w"
  shows "0 < unat w" and "unat w \<le> 2 ^ 31"
proof -
  from assms obtain k where k: "k < 32" "unat w = 2 ^ k"
    by (rule is_power_of_two_unat)
  then show "0 < unat w" by simp
  from k have "(2::nat) ^ k \<le> 2 ^ 31"
    by (intro power_increasing) auto
  with k show "unat w \<le> 2 ^ 31" by simp
qed

subsection \<open>Masking by a power of two\<close>

lemma and_mask_mod:
  assumes "is_power_of_two sz"
  shows "unat (x AND (sz - 1)) = unat x mod unat sz"
proof -
  from assms obtain k where k: "k < 32" "sz = 2 ^ k"
    by (auto simp: is_power_of_two_iff)
  have "x AND (sz - 1) = take_bit k x"
    by (simp add: k(2) take_bit_eq_mask mask_eq_exp_minus_1)
  moreover have "unat sz = 2 ^ k"
    using k by (simp add: unat_pow2)
  ultimately show ?thesis
    by (metis unsigned_take_bit_eq take_bit_eq_mod)
qed

lemma and_mask_less:
  assumes "is_power_of_two sz"
  shows "unat (x AND (sz - 1)) < unat sz"
  using is_power_of_two_bounds[OF assms] by (simp add: and_mask_mod[OF assms])

lemma mod_wrap_add:
  assumes "is_power_of_two sz"
  shows "unat ((x::u32) + of_nat i) mod unat sz = (unat x + i) mod unat sz"
proof -
  from assms obtain k where k: "k < 32" "unat sz = 2 ^ k"
    by (rule is_power_of_two_unat)
  then have dvd: "unat sz dvd 2 ^ 32"
    by (metis le_imp_power_dvd less_imp_le)
  have "unat (x + of_nat i) = (unat x + i mod 2 ^ 32) mod 2 ^ 32"
    by (simp add: unat_word_ariths unat_of_nat)
  also have "\<dots> = (unat x + i) mod 2 ^ 32"
    by presburger
  finally show ?thesis
    using dvd by (simp add: mod_mod_cancel)
qed

lemma mod_window_le:
  assumes "i \<le> j" and "j < n" and "(a + i) mod n = (a + j) mod (n::nat)"
  shows "i = j"
proof -
  have "n dvd j - i"
    using assms(1,3) mod_eq_dvd_iff_nat[of "a + i" "a + j" n] by simp
  moreover have "j - i < n" using assms(2) by simp
  ultimately have "j - i = 0" by (auto dest: dvd_imp_le)
  with assms(1) show ?thesis by simp
qed

lemma mod_window_inj:
  assumes "i < n" and "j < n" and "(a + i) mod n = (a + j) mod (n::nat)"
  shows "i = j"
  using mod_window_le[of i j n a] mod_window_le[of j i n a] assms by (cases "i \<le> j") auto

subsection \<open>Forward distance on the 32-bit circle\<close>

text \<open>
  Heads are 32-bit counters that wrap around.  \<open>cdist a b\<close> is how many steps forward lead from
  \<open>a\<close> to \<open>b\<close>; order between heads only makes sense as distance from a common base.
\<close>

definition cdist :: "u32 \<Rightarrow> u32 \<Rightarrow> nat" where
  "cdist a b = unat (b - a)"

lemma cdist_self [simp]: "cdist a a = 0"
  by (simp add: cdist_def)

lemma cdist_bound: "cdist a b < 2 ^ 32"
  unfolding cdist_def using unsigned_less[of "b - a"] by simp

lemma cdist_eq_0 [simp]: "cdist a b = 0 \<longleftrightarrow> a = b"
  by (auto simp: cdist_def unsigned_eq_0_iff)

lemma cdist_diff:
  assumes "cdist b x \<le> cdist b y"
  shows "cdist x y = cdist b y - cdist b x"
proof -
  have "x - b \<le> y - b"
    using assms by (simp add: cdist_def word_le_nat_alt)
  then have "unat ((y - b) - (x - b)) = unat (y - b) - unat (x - b)"
    by (rule unat_sub)
  then show ?thesis by (simp add: cdist_def)
qed

lemma cdist_add:
  assumes "cdist b x + unat k < 2 ^ 32"
  shows "cdist b (x + k) = cdist b x + unat k"
proof -
  have "unat ((x - b) + k) = unat (x - b) + unat k"
    using assms by (simp add: cdist_def unat_add_lem[symmetric])
  moreover have "(x - b) + k = x + k - b" by simp
  ultimately show ?thesis by (simp add: cdist_def)
qed

lemma cdist_sub:
  assumes "unat k \<le> cdist b x"
  shows "cdist b (x - k) = cdist b x - unat k"
proof -
  have "k \<le> x - b"
    using assms by (simp add: cdist_def word_le_nat_alt)
  then have "unat ((x - b) - k) = unat (x - b) - unat k"
    by (rule unat_sub)
  moreover have "(x - b) - k = x - k - b" by simp
  ultimately show ?thesis by (simp add: cdist_def)
qed

lemma cdist_add_left [simp]: "cdist a (a + k) = unat k"
  by (simp add: cdist_def)

lemma cdist_step:
  "cdist b x < 2 ^ 32 - 1 \<Longrightarrow> cdist b (x + 1) = Suc (cdist b x)"
  using cdist_add[of b x 1] by simp

lemma cdist_of_nat: "a + of_nat (cdist a b) = b"
  by (simp add: cdist_def)

lemma min_unat: "unat (min a b) = min (unat a) (unat b)"
  by (simp add: min_def word_le_nat_alt)

end
