(* ===== verification/Memory.thy ===== *)
theory Memory
  imports Prelude
begin

text \<open>
  The memory that user space shares with the kernel: bytes at 64-bit addresses, with the
  little-endian loads and stores of the integers the rings are made of.  Addresses wrap, as
  \<open>pointer::offset\<close> does at machine level; the frame lemmas say which accesses are independent.
\<close>

type_synonym mem = "u64 \<Rightarrow> u8"

named_theorems codec

subsection \<open>Bytes of a value\<close>

fun le_enc :: "nat \<Rightarrow> nat \<Rightarrow> u8 list" where
  "le_enc 0 v = []"
| "le_enc (Suc n) v = word_of_nat (v mod 256) # le_enc n (v div 256)"

fun le_dec :: "u8 list \<Rightarrow> nat" where
  "le_dec [] = 0"
| "le_dec (b # bs) = unat b + 256 * le_dec bs"

lemma length_le_enc [simp, codec]: "length (le_enc n v) = n"
  by (induction n arbitrary: v) auto

lemma le_dec_enc: "le_dec (le_enc n v) = v mod 256 ^ n"
proof (induction n arbitrary: v)
  case 0
  show ?case by simp
next
  case (Suc n)
  have "le_dec (le_enc (Suc n) v) = v mod 256 + 256 * (v div 256 mod 256 ^ n)"
    by (simp add: Suc unat_of_nat)
  also have "\<dots> = v mod (256 * 256 ^ n)"
    by (simp add: mod_mult2_eq)
  finally show ?case by simp
qed

definition enc_u32 :: "u32 \<Rightarrow> u8 list" where
  "enc_u32 v = le_enc 4 (unat v)"

definition dec_u32 :: "u8 list \<Rightarrow> u32" where
  "dec_u32 bs = word_of_nat (le_dec bs)"

definition enc_u64 :: "u64 \<Rightarrow> u8 list" where
  "enc_u64 v = le_enc 8 (unat v)"

definition dec_u64 :: "u8 list \<Rightarrow> u64" where
  "dec_u64 bs = word_of_nat (le_dec bs)"

definition enc_u16 :: "u16 \<Rightarrow> u8 list" where
  "enc_u16 v = le_enc 2 (unat v)"

lemma length_enc_u32 [simp, codec]: "length (enc_u32 v) = 4"
  by (simp add: enc_u32_def)

lemma length_enc_u64 [simp, codec]: "length (enc_u64 v) = 8"
  by (simp add: enc_u64_def)

lemma length_enc_u16 [simp, codec]: "length (enc_u16 v) = 2"
  by (simp add: enc_u16_def)

lemma dec_enc_u32 [simp, codec]: "dec_u32 (enc_u32 v) = v"
  using unat_u32[of v] by (simp add: dec_u32_def enc_u32_def le_dec_enc)

lemma dec_enc_u64 [simp, codec]: "dec_u64 (enc_u64 v) = v"
  using unat_u64[of v] by (simp add: dec_u64_def enc_u64_def le_dec_enc)

subsection \<open>Loads and stores\<close>

definition load_bytes :: "mem \<Rightarrow> u64 \<Rightarrow> nat \<Rightarrow> u8 list" where
  "load_bytes m a n = map (\<lambda>i. m (a + word_of_nat i)) [0..<n]"

definition store_bytes :: "mem \<Rightarrow> u64 \<Rightarrow> u8 list \<Rightarrow> mem" where
  "store_bytes m a bs = (\<lambda>x. let i = unat (x - a) in if i < length bs then bs ! i else m x)"

definition load_u32 :: "mem \<Rightarrow> u64 \<Rightarrow> u32" where
  "load_u32 m a = dec_u32 (load_bytes m a 4)"

definition store_u32 :: "mem \<Rightarrow> u64 \<Rightarrow> u32 \<Rightarrow> mem" where
  "store_u32 m a v = store_bytes m a (enc_u32 v)"

lemma length_load_bytes [simp]: "length (load_bytes m a n) = n"
  by (simp add: load_bytes_def)

lemma load_bytes_cong:
  "(\<And>i. i < n \<Longrightarrow> m (a + word_of_nat i) = m' (a + word_of_nat i)) \<Longrightarrow>
    load_bytes m a n = load_bytes m' a n"
  by (simp add: load_bytes_def)

text \<open>A region is its first address and its length in bytes; it does not run over the end.\<close>

type_synonym region = "u64 \<times> nat"

definition fits :: "region \<Rightarrow> bool" where
  "fits A = (unat (fst A) + snd A \<le> 2 ^ 64)"

definition apart :: "region \<Rightarrow> region \<Rightarrow> bool" where
  "apart A B = (unat (fst A) + snd A \<le> unat (fst B) \<or> unat (fst B) + snd B \<le> unat (fst A))"

definition within :: "region \<Rightarrow> region \<Rightarrow> bool" where
  "within A B = (unat (fst B) \<le> unat (fst A) \<and> unat (fst A) + snd A \<le> unat (fst B) + snd B)"

lemma apart_sym: "apart A B \<Longrightarrow> apart B A"
  by (auto simp: apart_def)

lemma apart_within: "apart A B \<Longrightarrow> within A' A \<Longrightarrow> within B' B \<Longrightarrow> apart A' B'"
  by (auto simp: apart_def within_def)

lemma within_refl [simp]: "within A A"
  by (simp add: within_def)

lemma fits_within: "fits B \<Longrightarrow> within A B \<Longrightarrow> fits A"
  by (auto simp: fits_def within_def)

lemma unat_offset:
  fixes a :: u64
  assumes "unat a + i < 2 ^ 64"
  shows "unat (a + word_of_nat i) = unat a + i"
  using assms by (simp add: unat_word_ariths unat_of_nat)

lemma unat_diff_region:
  fixes a b :: u64
  shows "unat b \<le> unat a \<Longrightarrow> unat (a - b) = unat a - unat b"
    and "unat a < unat b \<Longrightarrow> unat (a - b) = 2 ^ 64 + unat a - unat b"
  by (simp_all add: unat_sub word_le_nat_alt unat_sub_if_size word_size)

text \<open>What a store wrote is what a load reads, and nothing else changes.\<close>

lemma load_store_same [simp]:
  assumes "length bs \<le> 2 ^ 64"
  shows "load_bytes (store_bytes m a bs) a (length bs) = bs"
proof (rule nth_equalityI)
  fix i assume "i < length (load_bytes (store_bytes m a bs) a (length bs))"
  then have i: "i < length bs" by simp
  with assms have "unat (word_of_nat i :: u64) = i"
    by (simp add: unat_of_nat)
  with i show "load_bytes (store_bytes m a bs) a (length bs) ! i = bs ! i"
    by (simp add: load_bytes_def store_bytes_def Let_def)
qed simp

lemma store_bytes_outside:
  assumes "apart (x, 1) (b, length bs)" and "fits (b, length bs)"
  shows "store_bytes m b bs x = m x"
proof -
  have "\<not> unat (x - b) < length bs"
  proof (cases "unat b \<le> unat x")
    case True
    with assms show ?thesis by (auto simp: apart_def unat_diff_region)
  next
    case False
    with assms show ?thesis by (auto simp: apart_def fits_def unat_diff_region)
  qed
  then show ?thesis by (simp add: store_bytes_def Let_def)
qed

lemma load_store_apart:
  assumes "apart (a, n) (b, length bs)" and "fits (a, n)" and "fits (b, length bs)"
  shows "load_bytes (store_bytes m b bs) a n = load_bytes m a n"
proof (rule load_bytes_cong)
  fix i assume i: "i < n"
  with assms(2) have "unat (a + word_of_nat i) = unat a + i"
    by (intro unat_offset) (simp add: fits_def)
  with i assms(1) have "apart (a + word_of_nat i, 1) (b, length bs)"
    by (auto simp: apart_def)
  then show "store_bytes m b bs (a + word_of_nat i) = m (a + word_of_nat i)"
    using assms(3) by (rule store_bytes_outside)
qed

lemma load_store_u32_same [simp]: "load_u32 (store_u32 m a v) a = v"
  using load_store_same[of "enc_u32 v" m a] by (simp add: load_u32_def store_u32_def)

lemma zero_heads: "load_u32 (\<lambda>_. 0) a = 0"
  by (simp add: load_u32_def load_bytes_def dec_u32_def numeral_eq_Suc)

lemma load_u32_store_bytes:
  "apart (a, 4) (b, length bs) \<Longrightarrow> fits (a, 4) \<Longrightarrow> fits (b, length bs) \<Longrightarrow>
    load_u32 (store_bytes m b bs) a = load_u32 m a"
  by (simp add: load_u32_def load_store_apart)

lemma load_u32_store_u32:
  "apart (a, 4) (b, 4) \<Longrightarrow> fits (a, 4) \<Longrightarrow> fits (b, 4) \<Longrightarrow>
    load_u32 (store_u32 m b v) a = load_u32 m a"
  by (simp add: store_u32_def load_u32_store_bytes)

lemma load_bytes_store_u32:
  "apart (a, n) (b, 4) \<Longrightarrow> fits (a, n) \<Longrightarrow> fits (b, 4) \<Longrightarrow>
    load_bytes (store_u32 m b v) a n = load_bytes m a n"
  by (simp add: store_u32_def load_store_apart)

lemma load_bytes_append:
  "load_bytes m a (n + k) = load_bytes m a n @ load_bytes m (a + word_of_nat n) k"
proof (rule nth_equalityI)
  fix i assume "i < length (load_bytes m a (n + k))"
  then have "i < n + k" by simp
  then show "load_bytes m a (n + k) ! i = (load_bytes m a n @ load_bytes m (a + word_of_nat n) k) ! i"
  proof (cases "i < n")
    case False
    then obtain j where "i = n + j" by (metis le_iff_add not_less)
    with \<open>i < n + k\<close> show ?thesis
      by (simp add: load_bytes_def nth_append add.assoc)
  qed (simp add: load_bytes_def nth_append)
qed simp

lemma take_load_bytes: "n \<le> k \<Longrightarrow> take n (load_bytes m a k) = load_bytes m a n"
  by (simp add: load_bytes_def take_map)

subsection \<open>What a ring slot holds\<close>

text \<open>
  A ring stores plain data of one size in its slots: \<open>u64\<close> addresses in a fill or completion
  ring, \<open>XdpDesc\<close> descriptors in a receive or transmit ring.  What the rings need of the data is
  its size in bytes and that reading back what was written gives the value again.
\<close>

locale slot_data =
  fixes sz :: nat
    and enc :: "'a \<Rightarrow> u8 list"
    and dec :: "u8 list \<Rightarrow> 'a"
  assumes sz_pos: "0 < sz"
    and sz_small: "sz \<le> 16"
    and length_enc: "length (enc x) = sz"
    and dec_enc: "dec (enc x) = x"
begin

lemma load_stored: "dec (load_bytes (store_bytes m a (enc x)) a sz) = x"
proof -
  have "load_bytes (store_bytes m a (enc x)) a (length (enc x)) = enc x"
    using sz_small length_enc[of x] by (intro load_store_same) simp
  then show ?thesis by (simp add: length_enc dec_enc)
qed

lemma load_other:
  "apart (a, n) (b, sz) \<Longrightarrow> fits (a, n) \<Longrightarrow> fits (b, sz) \<Longrightarrow>
    load_bytes (store_bytes m b (enc x)) a n = load_bytes m a n"
  by (rule load_store_apart) (simp_all add: length_enc)

lemma load_u32_other:
  "apart (a, 4) (b, sz) \<Longrightarrow> fits (a, 4) \<Longrightarrow> fits (b, sz) \<Longrightarrow>
    load_u32 (store_bytes m b (enc x)) a = load_u32 m a"
  by (simp add: load_u32_def load_other)

end

interpretation u64_slot: slot_data 8 enc_u64 dec_u64
  by unfold_locales (simp_all add: codec)

end
