(* ===== verification/Xdp.thy ===== *)
theory Xdp
  imports Memory
begin

text \<open>
  The structs of the kernel interface (\<open>src/xdp.rs\<close>), with the byte layout that
  \<open>repr(C)\<close> gives them: descriptors, the argument of the UMEM registration, the ring offsets in
  their two versions, the socket address, and the statistics in their two versions.
\<close>

subsection \<open>Layout of a \<open>repr(C)\<close> struct\<close>

text \<open>
  Fields of primitive type are placed in order, each at a multiple of its own size; the whole is
  rounded up to the largest alignment.  \<open>repr_c fs\<close> is the resulting \<open>size_of\<close> for the
  field sizes \<open>fs\<close>.
\<close>

definition align_up :: "nat \<Rightarrow> nat \<Rightarrow> nat" where
  "align_up al off = (off + al - 1) div al * al"

definition repr_c :: "nat list \<Rightarrow> nat" where
  "repr_c fs = align_up (fold max fs 1) (fold (\<lambda>f off. align_up f off + f) fs 0)"

subsection \<open>Structs made of \<open>u64\<close> fields\<close>

definition enc_u64s :: "u64 list \<Rightarrow> u8 list" where
  "enc_u64s xs = concat (map enc_u64 xs)"

definition u64_at :: "u8 list \<Rightarrow> nat \<Rightarrow> u64" where
  "u64_at bs i = dec_u64 (take 8 (drop (8 * i) bs))"

lemma length_enc_u64s [simp, codec]: "length (enc_u64s xs) = 8 * length xs"
  by (induction xs) (simp_all add: enc_u64s_def)

lemma u64_at_enc [simp, codec]: "i < length xs \<Longrightarrow> u64_at (enc_u64s xs @ rest) i = xs ! i"
proof (induction xs arbitrary: i)
  case Nil
  then show ?case by simp
next
  case (Cons x xs)
  show ?case
  proof (cases i)
    case 0
    then show ?thesis by (simp add: enc_u64s_def u64_at_def)
  next
    case (Suc j)
    have "drop (8 * Suc j) (enc_u64s (x # xs) @ rest) = drop (8 * j) (enc_u64s xs @ rest)"
      by (simp add: enc_u64s_def)
    then have "u64_at (enc_u64s (x # xs) @ rest) (Suc j) = u64_at (enc_u64s xs @ rest) j"
      by (simp add: u64_at_def)
    with Suc Cons show ?thesis by simp
  qed
qed

lemmas u64_at_enc0 [simp, codec] = u64_at_enc[where rest = "[]", simplified]

subsection \<open>Descriptors\<close>

record XdpDesc =
  desc_addr :: u64
  desc_len :: u32
  desc_options :: u32

definition enc_desc :: "XdpDesc \<Rightarrow> u8 list" where
  "enc_desc d = enc_u64 (desc_addr d) @ enc_u32 (desc_len d) @ enc_u32 (desc_options d)"

definition dec_desc :: "u8 list \<Rightarrow> XdpDesc" where
  "dec_desc bs = \<lparr>desc_addr = dec_u64 (take 8 bs), desc_len = dec_u32 (take 4 (drop 8 bs)),
     desc_options = dec_u32 (take 4 (drop 12 bs))\<rparr>"

lemma length_enc_desc [simp, codec]: "length (enc_desc d) = 16"
  by (simp add: enc_desc_def)

lemma dec_enc_desc [simp, codec]: "dec_desc (enc_desc d) = d"
  by (simp add: dec_desc_def enc_desc_def)

interpretation desc_slot: slot_data 16 enc_desc dec_desc
  by unfold_locales (simp_all add: codec)

subsection \<open>Argument of \<open>XDP_UMEM_REG\<close>\<close>

record XdpUmemReg =
  reg_addr :: u64
  reg_len :: u64
  reg_chunk_size :: u32
  reg_headroom :: u32
  reg_flags :: u32
  reg_tx_metadata_len :: u32

definition XdpUmemReg_fields :: "nat list" where
  "XdpUmemReg_fields = [8, 8, 4, 4, 4, 4]"

definition no_padding :: bool where
  "no_padding \<longleftrightarrow> repr_c XdpUmemReg_fields = 8 + 8 + 4 + 4 + 4 + 4"

text \<open>The assertion is evaluated at compile time; the code compiles.\<close>

lemma no_padding_holds: "no_padding"
  by (simp add: no_padding_def XdpUmemReg_fields_def repr_c_def align_up_def)

definition enc_umem_reg :: "XdpUmemReg \<Rightarrow> u8 list" where
  "enc_umem_reg r = enc_u64 (reg_addr r) @ enc_u64 (reg_len r) @ enc_u32 (reg_chunk_size r) @
     enc_u32 (reg_headroom r) @ enc_u32 (reg_flags r) @ enc_u32 (reg_tx_metadata_len r)"

definition XdpUmemReg_default :: XdpUmemReg where
  "XdpUmemReg_default = \<lparr>reg_addr = 0, reg_len = 0, reg_chunk_size = 0, reg_headroom = 0,
     reg_flags = 0, reg_tx_metadata_len = 0\<rparr>"

lemma length_enc_umem_reg [simp, codec]: "length (enc_umem_reg r) = 32"
  by (simp add: enc_umem_reg_def)

subsection \<open>Ring offsets\<close>

record XdpRingOffsets =
  off_producer :: u64
  off_consumer :: u64
  off_desc :: u64
  off_flags :: u64

record XdpMmapOffsets =
  mo_rx :: XdpRingOffsets
  mo_tx :: XdpRingOffsets
  mo_fr :: XdpRingOffsets
  mo_cr :: XdpRingOffsets

record XdpRingOffsetsV1 =
  v1_producer :: u64
  v1_consumer :: u64
  v1_desc :: u64

record XdpMmapOffsetsV1 =
  mo1_rx :: XdpRingOffsetsV1
  mo1_tx :: XdpRingOffsetsV1
  mo1_fr :: XdpRingOffsetsV1
  mo1_cr :: XdpRingOffsetsV1

definition XdpRingOffsets_default :: XdpRingOffsets where
  "XdpRingOffsets_default = \<lparr>off_producer = 0, off_consumer = 0, off_desc = 0, off_flags = 0\<rparr>"

definition XdpMmapOffsets_default :: XdpMmapOffsets where
  "XdpMmapOffsets_default = \<lparr>mo_rx = XdpRingOffsets_default, mo_tx = XdpRingOffsets_default,
     mo_fr = XdpRingOffsets_default, mo_cr = XdpRingOffsets_default\<rparr>"

text \<open>The bytes of the two versions, as the kernel writes them and as the union reads them.\<close>

definition words_of_ring :: "XdpRingOffsets \<Rightarrow> u64 list" where
  "words_of_ring o1 = [off_producer o1, off_consumer o1, off_desc o1, off_flags o1]"

definition words_of_ring_v1 :: "XdpRingOffsetsV1 \<Rightarrow> u64 list" where
  "words_of_ring_v1 o1 = [v1_producer o1, v1_consumer o1, v1_desc o1]"

definition enc_offsets :: "XdpMmapOffsets \<Rightarrow> u8 list" where
  "enc_offsets mo = enc_u64s (words_of_ring (mo_rx mo) @ words_of_ring (mo_tx mo) @
     words_of_ring (mo_fr mo) @ words_of_ring (mo_cr mo))"

definition enc_offsets_v1 :: "XdpMmapOffsetsV1 \<Rightarrow> u8 list" where
  "enc_offsets_v1 mo = enc_u64s (words_of_ring_v1 (mo1_rx mo) @ words_of_ring_v1 (mo1_tx mo) @
     words_of_ring_v1 (mo1_fr mo) @ words_of_ring_v1 (mo1_cr mo))"

definition ring_offsets_at :: "u8 list \<Rightarrow> nat \<Rightarrow> XdpRingOffsets" where
  "ring_offsets_at bs i = \<lparr>off_producer = u64_at bs i, off_consumer = u64_at bs (i + 1),
     off_desc = u64_at bs (i + 2), off_flags = u64_at bs (i + 3)\<rparr>"

definition ring_offsets_v1_at :: "u8 list \<Rightarrow> nat \<Rightarrow> XdpRingOffsetsV1" where
  "ring_offsets_v1_at bs i = \<lparr>v1_producer = u64_at bs i, v1_consumer = u64_at bs (i + 1),
     v1_desc = u64_at bs (i + 2)\<rparr>"

definition dec_offsets :: "u8 list \<Rightarrow> XdpMmapOffsets" where
  "dec_offsets bs = \<lparr>mo_rx = ring_offsets_at bs 0, mo_tx = ring_offsets_at bs 4,
     mo_fr = ring_offsets_at bs 8, mo_cr = ring_offsets_at bs 12\<rparr>"

definition dec_offsets_v1 :: "u8 list \<Rightarrow> XdpMmapOffsetsV1" where
  "dec_offsets_v1 bs = \<lparr>mo1_rx = ring_offsets_v1_at bs 0, mo1_tx = ring_offsets_v1_at bs 3,
     mo1_fr = ring_offsets_v1_at bs 6, mo1_cr = ring_offsets_v1_at bs 9\<rparr>"

lemma length_enc_offsets [simp, codec]:
  "length (enc_offsets mo) = 128" "length (enc_offsets_v1 mo1) = 96"
  by (simp_all add: enc_offsets_def enc_offsets_v1_def words_of_ring_def words_of_ring_v1_def)

lemma dec_enc_offsets [simp, codec]: "dec_offsets (enc_offsets mo @ rest) = mo"
  by (simp add: dec_offsets_def enc_offsets_def words_of_ring_def ring_offsets_at_def)

lemma dec_enc_offsets_v1 [simp, codec]: "dec_offsets_v1 (enc_offsets_v1 mo @ rest) = mo"
  by (simp add: dec_offsets_v1_def enc_offsets_v1_def words_of_ring_v1_def ring_offsets_v1_at_def)

subsection \<open>Socket address\<close>

record SockAddrXdp =
  sxdp_family :: u16
  sxdp_flags :: u16
  sxdp_ifindex :: u32
  sxdp_queue_id :: u32
  sxdp_shared_umem_fd :: u32

definition AF_XDP :: c_int where "AF_XDP = 44"

definition SockAddrXdp_default :: SockAddrXdp where
  "SockAddrXdp_default = \<lparr>sxdp_family = word_of_int AF_XDP, sxdp_flags = 0, sxdp_ifindex = 0,
     sxdp_queue_id = 0, sxdp_shared_umem_fd = 0\<rparr>"

definition enc_sockaddr :: "SockAddrXdp \<Rightarrow> u8 list" where
  "enc_sockaddr a = enc_u16 (sxdp_family a) @ enc_u16 (sxdp_flags a) @
     enc_u32 (sxdp_ifindex a) @ enc_u32 (sxdp_queue_id a) @ enc_u32 (sxdp_shared_umem_fd a)"

lemma length_enc_sockaddr [simp, codec]: "length (enc_sockaddr a) = 16"
  by (simp add: enc_sockaddr_def)

subsection \<open>Statistics\<close>

record XdpStatistics =
  st_rx_dropped :: u64
  st_rx_invalid_descs :: u64
  st_tx_invalid_descs :: u64

record XdpStatisticsV2 =
  st2_rx_dropped :: u64
  st2_rx_invalid_descs :: u64
  st2_tx_invalid_descs :: u64
  st2_rx_ring_full :: u64
  st2_rx_fill_ring_empty_descs :: u64
  st2_tx_ring_empty_descs :: u64

definition XdpStatistics_default :: XdpStatistics where
  "XdpStatistics_default =
     \<lparr>st_rx_dropped = 0, st_rx_invalid_descs = 0, st_tx_invalid_descs = 0\<rparr>"

definition XdpStatisticsV2_default :: XdpStatisticsV2 where
  "XdpStatisticsV2_default = \<lparr>st2_rx_dropped = 0, st2_rx_invalid_descs = 0,
     st2_tx_invalid_descs = 0, st2_rx_ring_full = 0, st2_rx_fill_ring_empty_descs = 0,
     st2_tx_ring_empty_descs = 0\<rparr>"

definition enc_stats :: "XdpStatistics \<Rightarrow> u8 list" where
  "enc_stats s = enc_u64s [st_rx_dropped s, st_rx_invalid_descs s, st_tx_invalid_descs s]"

definition dec_stats :: "u8 list \<Rightarrow> XdpStatistics" where
  "dec_stats bs = \<lparr>st_rx_dropped = u64_at bs 0, st_rx_invalid_descs = u64_at bs 1,
     st_tx_invalid_descs = u64_at bs 2\<rparr>"

definition enc_stats2 :: "XdpStatisticsV2 \<Rightarrow> u8 list" where
  "enc_stats2 s = enc_u64s [st2_rx_dropped s, st2_rx_invalid_descs s, st2_tx_invalid_descs s,
     st2_rx_ring_full s, st2_rx_fill_ring_empty_descs s, st2_tx_ring_empty_descs s]"

definition dec_stats2 :: "u8 list \<Rightarrow> XdpStatisticsV2" where
  "dec_stats2 bs = \<lparr>st2_rx_dropped = u64_at bs 0, st2_rx_invalid_descs = u64_at bs 1,
     st2_tx_invalid_descs = u64_at bs 2, st2_rx_ring_full = u64_at bs 3,
     st2_rx_fill_ring_empty_descs = u64_at bs 4, st2_tx_ring_empty_descs = u64_at bs 5\<rparr>"

lemma dec_enc_stats [simp, codec]:
  "dec_stats (enc_stats s) = s" "dec_stats2 (enc_stats2 s2) = s2"
  "length (enc_stats s) = 24" "length (enc_stats2 s2) = 48"
  by (simp_all add: dec_stats_def enc_stats_def dec_stats2_def enc_stats2_def)

end
