(* ===== verification/Sys.thy ===== *)
theory Sys
  imports Memory
begin

text \<open>
  The operating system, as the crate sees it through \<open>libc\<close>.  Its code is not part of the
  repository: the calls are the fields of a record that every definition using them takes as an
  argument, over an arbitrary type \<open>'k\<close> of system states (kernel, \<open>errno\<close> and process memory
  together).  Calls return what C returns, \<open>-1\<close> or a null pointer on failure included: the
  conversion to a \<open>Result\<close> is the crate's own code.
\<close>

record 'k libc =
  sys_errno :: "'k \<Rightarrow> c_int"
  sys_memory :: "'k \<Rightarrow> mem"
  sys_uninit :: "nat \<Rightarrow> 'k \<Rightarrow> u8 list"
  sys_socket :: "c_int \<Rightarrow> c_int \<Rightarrow> c_int \<Rightarrow> 'k \<Rightarrow> c_int \<times> 'k"
  sys_getsockopt :: "c_int \<Rightarrow> c_int \<Rightarrow> c_int \<Rightarrow> u8 list \<Rightarrow> u32 \<Rightarrow> 'k \<Rightarrow> c_int \<times> u8 list \<times> u32 \<times> 'k"
  sys_setsockopt :: "c_int \<Rightarrow> c_int \<Rightarrow> c_int \<Rightarrow> u8 list \<Rightarrow> 'k \<Rightarrow> c_int \<times> 'k"
  sys_bind :: "c_int \<Rightarrow> u8 list \<Rightarrow> 'k \<Rightarrow> c_int \<times> 'k"
  sys_close :: "c_int \<Rightarrow> 'k \<Rightarrow> c_int \<times> 'k"
  sys_mmap :: "u64 \<Rightarrow> u64 \<Rightarrow> c_int \<Rightarrow> c_int \<Rightarrow> c_int \<Rightarrow> u64 \<Rightarrow> 'k \<Rightarrow> u64 \<times> 'k"
  sys_munmap :: "u64 \<Rightarrow> u64 \<Rightarrow> 'k \<Rightarrow> c_int \<times> 'k"
  sys_poll :: "c_int \<Rightarrow> u16 \<Rightarrow> c_int \<Rightarrow> 'k \<Rightarrow> c_int \<times> 'k"
  sys_sendto :: "c_int \<Rightarrow> u8 list \<Rightarrow> c_int \<Rightarrow> 'k \<Rightarrow> int \<times> 'k"
  sys_if_nametoindex :: "u8 list \<Rightarrow> 'k \<Rightarrow> u32 \<times> 'k"
  sys_if_indextoname :: "u32 \<Rightarrow> u8 list \<Rightarrow> 'k \<Rightarrow> u64 \<times> u8 list \<times> 'k"
  sys_sysconf :: "c_int \<Rightarrow> 'k \<Rightarrow> int"

text \<open>The constants of the Linux \<open>libc\<close> bindings that the code uses.\<close>

definition EINVAL :: c_int where "EINVAL = 22"
definition ENOPROTOOPT :: c_int where "ENOPROTOOPT = 92"
definition SOL_SOCKET :: c_int where "SOL_SOCKET = 1"
definition SOCK_RAW :: c_int where "SOCK_RAW = 3"
definition PROT_READ_WRITE :: c_int where "PROT_READ_WRITE = 3"
definition MAP_SHARED_POPULATE :: c_int where "MAP_SHARED_POPULATE = 32769"
definition MAP_FAILED :: u64 where "MAP_FAILED = - 1"
definition MSG_DONTWAIT :: c_int where "MSG_DONTWAIT = 64"
definition SC_PAGESIZE :: c_int where "SC_PAGESIZE = 30"
definition IFNAMSIZ :: nat where "IFNAMSIZ = 16"

text \<open>\<open>SOL_XDP\<close> is defined by the crate itself.\<close>

definition SOL_XDP :: c_int where "SOL_XDP = 283"

text \<open>\<open>Errno::last_os_error\<close>, which is also what \<open>Err(LastErrno)?\<close> converts to.\<close>

definition last_os_error :: "'k libc \<Rightarrow> 'k \<Rightarrow> Errno" where
  "last_os_error S k = Errno (sys_errno S k)"

end
