(* ===== verification/Ring.thy ===== *)
theory Ring
  imports Xdp Sys
begin

text \<open>
  The rings (\<open>src/xsk/ring.rs\<close>, types from \<open>src/xsk.rs\<close>): the user-space view \<open>XskRing\<close> of one
  mapped ring, and the operations of the producer side (fill and transmit rings) and of the
  consumer side (completion and receive rings).

  The producer and consumer heads, the flags and the slots live in shared memory, at the addresses
  the ring holds; operations take that memory as an argument.  Where an operation accesses it more
  than once, the argument \<open>env\<close> is what the other side does to the memory between the two accesses.
  Atomic accesses are sequentially consistent here; \<open>Weak\<close> has them with the orderings passed to them.
\<close>

subsection \<open>State\<close>

record XskRing =
  cached_producer :: u32
  cached_consumer :: u32
  ring_mask :: u32
  ring_size :: u32
  producer :: u64
  consumer :: u64
  ring_ptr :: u64
  flags_ptr :: u64

text \<open>A \<open>NonNull<[u8]>\<close>: address and length.  A \<open>BufIdx\<close> is a transparent \<open>u32\<close>.\<close>

type_synonym slice = "u64 \<times> u64"
type_synonym BufIdx = u32

record RingProd =
  prod_inner :: XskRing
  prod_mmap_addr :: slice

record RingCons =
  cons_inner :: XskRing
  cons_mmap_addr :: slice

record SocketMmapOffsets =
  smo_inner :: XdpMmapOffsets

type_synonym env = "mem \<Rightarrow> mem"

subsection \<open>Construction\<close>

definition XDP_PGOFF_RX_RING :: u64 where "XDP_PGOFF_RX_RING = 0"
definition XDP_PGOFF_TX_RING :: u64 where "XDP_PGOFF_TX_RING = 0x80000000"
definition XDP_UMEM_PGOFF_FILL_RING :: u64 where "XDP_UMEM_PGOFF_FILL_RING = 0x100000000"
definition XDP_UMEM_PGOFF_COMPLETION_RING :: u64 where
  "XDP_UMEM_PGOFF_COMPLETION_RING = 0x180000000"

definition XskRing_new :: "profile \<Rightarrow> mem \<Rightarrow> u64 \<Rightarrow> XdpRingOffsets \<Rightarrow> u32 \<Rightarrow> XskRing res" where
  "XskRing_new pf m tx_map off count =
     (if pf = Debug \<and> \<not> is_power_of_two count then Inl AssertFailed
      else
        let trust_offset = (\<lambda>o1. tx_map + o1);
            p = trust_offset (off_producer off);
            c = trust_offset (off_consumer off)
        in rbind (sub_chk pf count 1) (\<lambda>msk.
          Inr \<lparr>cached_producer = load_u32 m p, cached_consumer = load_u32 m c,
               ring_mask = msk, ring_size = count, producer = p, consumer = c,
               ring_ptr = trust_offset (off_desc off), flags_ptr = trust_offset (off_flags off)\<rparr>))"

definition XskRing_map ::
  "'k libc \<Rightarrow> profile \<Rightarrow> c_int \<Rightarrow> XdpRingOffsets \<Rightarrow> u32 \<Rightarrow> u64 \<Rightarrow> u64 \<Rightarrow> 'k \<Rightarrow>
     (XskRing \<times> slice) outcome \<times> 'k" where
  "XskRing_map S pf fd off count sz offset k =
     (case rbind (mul_chk pf (ucast count) sz) (add_chk pf (off_desc off)) of
        Inl e \<Rightarrow> (Panic e, k)
      | Inr len \<Rightarrow>
          (case sys_mmap S 0 len PROT_READ_WRITE MAP_SHARED_POPULATE fd offset k of (addr, k1) \<Rightarrow>
             if addr = MAP_FAILED then (Err (last_os_error S k1), k1)
             else if addr = 0 then (Panic AssertFailed, k1)
             else (map_outcome (\<lambda>r. (r, (addr, len)))
                     (of_res (XskRing_new pf (sys_memory S k1) addr off count)), k1)))"

definition RingProd_fill ::
  "'k libc \<Rightarrow> profile \<Rightarrow> c_int \<Rightarrow> SocketMmapOffsets \<Rightarrow> u32 \<Rightarrow> 'k \<Rightarrow> RingProd outcome \<times> 'k" where
  "RingProd_fill S pf fd off count k =
     apfst (map_outcome (\<lambda>(inner, addr). \<lparr>prod_inner = inner, prod_mmap_addr = addr\<rparr>))
       (XskRing_map S pf fd (mo_fr (smo_inner off)) count 8 XDP_UMEM_PGOFF_FILL_RING k)"

definition RingProd_tx ::
  "'k libc \<Rightarrow> profile \<Rightarrow> c_int \<Rightarrow> SocketMmapOffsets \<Rightarrow> u32 \<Rightarrow> 'k \<Rightarrow> RingProd outcome \<times> 'k" where
  "RingProd_tx S pf fd off count k =
     apfst (map_outcome (\<lambda>(inner, addr). \<lparr>prod_inner = inner, prod_mmap_addr = addr\<rparr>))
       (XskRing_map S pf fd (mo_tx (smo_inner off)) count 16 XDP_PGOFF_TX_RING k)"

definition RingCons_comp ::
  "'k libc \<Rightarrow> profile \<Rightarrow> c_int \<Rightarrow> SocketMmapOffsets \<Rightarrow> u32 \<Rightarrow> 'k \<Rightarrow> RingCons outcome \<times> 'k" where
  "RingCons_comp S pf fd off count k =
     apfst (map_outcome (\<lambda>(inner, addr). \<lparr>cons_inner = inner, cons_mmap_addr = addr\<rparr>))
       (XskRing_map S pf fd (mo_cr (smo_inner off)) count 8 XDP_UMEM_PGOFF_COMPLETION_RING k)"

definition RingCons_rx ::
  "'k libc \<Rightarrow> profile \<Rightarrow> c_int \<Rightarrow> SocketMmapOffsets \<Rightarrow> u32 \<Rightarrow> 'k \<Rightarrow> RingCons outcome \<times> 'k" where
  "RingCons_rx S pf fd off count k =
     apfst (map_outcome (\<lambda>(inner, addr). \<lparr>cons_inner = inner, cons_mmap_addr = addr\<rparr>))
       (XskRing_map S pf fd (mo_rx (smo_inner off)) count 16 XDP_PGOFF_RX_RING k)"

definition RingProd_drop :: "'k libc \<Rightarrow> RingProd \<Rightarrow> 'k \<Rightarrow> 'k" where
  "RingProd_drop S r k =
     snd (sys_munmap S (fst (prod_mmap_addr r)) (snd (prod_mmap_addr r)) k)"

definition RingCons_drop :: "'k libc \<Rightarrow> RingCons \<Rightarrow> 'k \<Rightarrow> 'k" where
  "RingCons_drop S r k =
     snd (sys_munmap S (fst (cons_mmap_addr r)) (snd (cons_mmap_addr r)) k)"

subsection \<open>Producer side\<close>

definition fill_addr :: "RingProd \<Rightarrow> BufIdx \<Rightarrow> u64" where
  "fill_addr r idx =
     (let offset = ucast (idx AND ring_mask (prod_inner r)) in ring_ptr (prod_inner r) + 8 * offset)"

definition tx_desc :: "RingProd \<Rightarrow> BufIdx \<Rightarrow> u64" where
  "tx_desc r idx =
     (let offset = ucast (idx AND ring_mask (prod_inner r)) in ring_ptr (prod_inner r) + 16 * offset)"

definition count_free :: "profile \<Rightarrow> mem \<Rightarrow> u32 \<Rightarrow> RingProd \<Rightarrow> (u32 \<times> RingProd) res" where
  "count_free pf m mininmum r =
     (let i = prod_inner r; free_entries = cached_consumer i - cached_producer i
      in if mininmum \<le> free_entries then Inr (free_entries, r)
         else rbind (add_chk pf (load_u32 m (consumer i)) (ring_size i)) (\<lambda>cc.
              rbind (sub_chk pf cc (cached_producer i)) (\<lambda>free.
                Inr (free, r\<lparr>prod_inner := i\<lparr>cached_consumer := cc\<rparr>\<rparr>))))"

definition reserve ::
  "profile \<Rightarrow> mem \<Rightarrow> u32 \<times> u32 \<Rightarrow> BufIdx \<Rightarrow> RingProd \<Rightarrow> (u32 \<times> BufIdx \<times> RingProd) res" where
  "reserve pf m nb idx r =
     (case nb of (start, end1) \<Rightarrow>
        rbind (count_free pf m start r) (\<lambda>(free, r1).
          if free < start then Inr (0, idx, r1)
          else
            let free1 = min free end1; i = prod_inner r1
            in rbind (add_chk pf (cached_producer i) free1) (\<lambda>q.
                 Inr (free1, cached_producer i, r1\<lparr>prod_inner := i\<lparr>cached_producer := q\<rparr>\<rparr>))))"

definition RingProd_cancel :: "profile \<Rightarrow> u32 \<Rightarrow> RingProd \<Rightarrow> RingProd res" where
  "RingProd_cancel pf nb r =
     (let i = prod_inner r
      in rbind (sub_chk pf (cached_producer i) nb) (\<lambda>q.
           Inr (r\<lparr>prod_inner := i\<lparr>cached_producer := q\<rparr>\<rparr>)))"

definition submit :: "env \<Rightarrow> mem \<Rightarrow> u32 \<Rightarrow> RingProd \<Rightarrow> mem" where
  "submit env m nb r =
     (let cur = load_u32 m (producer (prod_inner r)); m1 = env m
      in store_u32 m1 (producer (prod_inner r)) (cur + nb))"

definition RingProd_count_pending :: "env \<Rightarrow> mem \<Rightarrow> RingProd \<Rightarrow> u32" where
  "RingProd_count_pending env m r =
     (let comitted = load_u32 m (producer (prod_inner r));
          consumed = load_u32 (env m) (consumer (prod_inner r))
      in comitted - consumed)"

definition RingProd_check_flags :: "mem \<Rightarrow> RingProd \<Rightarrow> u32" where
  "RingProd_check_flags m r = load_u32 m (flags_ptr (prod_inner r))"

subsection \<open>Consumer side\<close>

definition comp_addr :: "RingCons \<Rightarrow> BufIdx \<Rightarrow> u64" where
  "comp_addr r idx =
     (let offset = ucast (idx AND ring_mask (cons_inner r)) in ring_ptr (cons_inner r) + 8 * offset)"

definition rx_desc :: "RingCons \<Rightarrow> BufIdx \<Rightarrow> u64" where
  "rx_desc r idx =
     (let offset = ucast (idx AND ring_mask (cons_inner r)) in ring_ptr (cons_inner r) + 16 * offset)"

text \<open>
  The refresh loads the kernel's head twice; what is returned is computed from the first load,
  what is cached is the second.
\<close>

definition count_available :: "env \<Rightarrow> mem \<Rightarrow> u32 \<Rightarrow> RingCons \<Rightarrow> u32 \<times> RingCons \<times> mem" where
  "count_available env m expected r =
     (let i = cons_inner r; available = cached_producer i - cached_consumer i
      in if available < expected
         then let new_val = load_u32 m (producer i);
                  available = new_val - cached_consumer i;
                  m1 = env m
              in (available,
                  r\<lparr>cons_inner := i\<lparr>cached_producer := load_u32 m1 (producer i)\<rparr>\<rparr>, m1)
         else (available, r, m))"

definition RingCons_count_pending :: "env \<Rightarrow> mem \<Rightarrow> RingCons \<Rightarrow> u32" where
  "RingCons_count_pending env m r =
     (let available = load_u32 m (producer (cons_inner r));
          consumed = load_u32 (env m) (consumer (cons_inner r))
      in available - consumed)"

definition peek ::
  "profile \<Rightarrow> env \<Rightarrow> mem \<Rightarrow> u32 \<times> u32 \<Rightarrow> BufIdx \<Rightarrow> RingCons \<Rightarrow>
     (u32 \<times> BufIdx \<times> RingCons \<times> mem) res" where
  "peek pf env m nb idx r =
     (case nb of (start, end1) \<Rightarrow>
        case count_available env m start r of (count, r1, m1) \<Rightarrow>
          if count < start then Inr (0, idx, r1, m1)
          else
            let count1 = min count end1; i = cons_inner r1
            in rbind (add_chk pf (cached_consumer i) count1) (\<lambda>q.
                 Inr (count1, cached_consumer i, r1\<lparr>cons_inner := i\<lparr>cached_consumer := q\<rparr>\<rparr>, m1)))"

definition RingCons_cancel :: "profile \<Rightarrow> u32 \<Rightarrow> RingCons \<Rightarrow> RingCons res" where
  "RingCons_cancel pf nb r =
     (let i = cons_inner r
      in rbind (sub_chk pf (cached_consumer i) nb) (\<lambda>q.
           Inr (r\<lparr>cons_inner := i\<lparr>cached_consumer := q\<rparr>\<rparr>)))"

definition release :: "env \<Rightarrow> mem \<Rightarrow> u32 \<Rightarrow> RingCons \<Rightarrow> mem" where
  "release env m nb r =
     (let cur = load_u32 m (consumer (cons_inner r)); m1 = env m
      in store_u32 m1 (consumer (cons_inner r)) (cur + nb))"

definition RingCons_check_flags :: "mem \<Rightarrow> RingCons \<Rightarrow> u32" where
  "RingCons_check_flags m r = load_u32 m (flags_ptr (cons_inner r))"

end
