(* ===== verification/Xsk.thy ===== *)
theory Xsk
  imports Ring
begin

text \<open>
  The data types of \<open>src/xsk.rs\<close>: interfaces, sockets, the UMEM, the queue handles and their
  configurations.  File descriptors are shared by reference counting (\<open>Arc<SocketFd>\<close>) and the
  set of claimed device queues is shared between a \<open>Umem\<close> and its \<open>DeviceQueue\<close>s
  (\<open>DeviceControl\<close>): handles hold indices into two stores that the process state carries.
\<close>

subsection \<open>Interfaces\<close>

text \<open>\<open>IfCtx\<close> derives its order: lexicographic in the order of the fields.\<close>

datatype IfCtx = IfCtx (ifindex: u32) (queue_id: u32) (netnscookie: u64)

instantiation IfCtx :: linorder
begin

definition less_eq_IfCtx :: "IfCtx \<Rightarrow> IfCtx \<Rightarrow> bool" where
  "less_eq_IfCtx a b \<longleftrightarrow>
     ifindex a < ifindex b \<or> ifindex a = ifindex b \<and>
       (queue_id a < queue_id b \<or> queue_id a = queue_id b \<and> netnscookie a \<le> netnscookie b)"

definition less_IfCtx :: "IfCtx \<Rightarrow> IfCtx \<Rightarrow> bool" where
  "less_IfCtx a b \<longleftrightarrow>
     ifindex a < ifindex b \<or> ifindex a = ifindex b \<and>
       (queue_id a < queue_id b \<or> queue_id a = queue_id b \<and> netnscookie a < netnscookie b)"

instance
  by standard (auto simp: less_eq_IfCtx_def less_IfCtx_def intro: IfCtx.expand)

end

record IfInfo =
  if_ctx :: IfCtx
  if_name :: "u8 list"

subsection \<open>Shared handles\<close>

type_synonym ArcFd = nat
type_synonym DeviceControl = nat

text \<open>
  The process state: the operating system, the heap of \<open>Arc<SocketFd>\<close> cells (descriptor and
  strong count), and the heap of control sets.
\<close>

record 'k proc =
  os :: 'k
  fds :: "(c_int \<times> nat) list"
  ctls :: "IfCtx list list"

record Socket =
  sock_info :: IfInfo
  sock_fd :: ArcFd

subsection \<open>Configurations\<close>

record UmemConfig =
  fill_size :: u32
  complete_size :: u32
  frame_size :: u32
  headroom :: u32
  umem_flags :: u32

definition UmemConfig_default :: UmemConfig where
  "UmemConfig_default = \<lparr>fill_size = push_bit 11 1, complete_size = push_bit 11 1,
     frame_size = push_bit 12 1, headroom = 0, umem_flags = 0\<rparr>"

text \<open>A size is an \<open>Option<NonZeroU32>\<close>: one that is given is not zero, by its type.\<close>

record SocketConfig =
  rx_size :: "u32 option"
  tx_size :: "u32 option"
  bind_flags :: u16

subsection \<open>Handles\<close>

record Umem =
  umem_area :: slice
  umem_config :: UmemConfig
  umem_fd :: ArcFd
  umem_devices :: DeviceControl

record UmemChunk =
  chunk_addr :: slice
  chunk_offset :: u64

record DeviceRings =
  fcq_prod :: RingProd
  fcq_cons :: RingCons
  fcq_map :: SocketMmapOffsets

record DeviceQueue =
  dq_fcq :: DeviceRings
  dq_socket :: Socket
  dq_devices :: DeviceControl

record User =
  user_socket :: Socket
  user_config :: SocketConfig
  user_map :: SocketMmapOffsets

record RingRx =
  rx_ring :: RingCons
  rx_fd :: ArcFd

record RingTx =
  tx_ring :: RingProd
  tx_fd :: ArcFd

subsection \<open>Reference-counted descriptors\<close>

text \<open>
  \<open>Arc::new\<close>, \<open>Arc::clone\<close>, reading through the \<open>Arc\<close>, and dropping one: the last owner runs
  \<open>SocketFd\<close>'s destructor, which closes the descriptor.
\<close>

definition arc_new :: "c_int \<Rightarrow> 'k proc \<Rightarrow> ArcFd \<times> 'k proc" where
  "arc_new fd p = (length (fds p), p\<lparr>fds := fds p @ [(fd, 1)]\<rparr>)"

definition arc_get :: "'k proc \<Rightarrow> ArcFd \<Rightarrow> c_int" where
  "arc_get p a = fst (fds p ! a)"

definition arc_clone :: "ArcFd \<Rightarrow> 'k proc \<Rightarrow> 'k proc" where
  "arc_clone a p = p\<lparr>fds := (fds p)[a := (fst (fds p ! a), snd (fds p ! a) + 1)]\<rparr>"

definition SocketFd_drop :: "'k libc \<Rightarrow> c_int \<Rightarrow> 'k \<Rightarrow> 'k" where
  "SocketFd_drop S fd k = snd (sys_close S fd k)"

definition arc_drop :: "'k libc \<Rightarrow> ArcFd \<Rightarrow> 'k proc \<Rightarrow> 'k proc" where
  "arc_drop S a p =
     (let fd = fst (fds p ! a); n = snd (fds p ! a) - 1;
          p1 = p\<lparr>fds := (fds p)[a := (fd, n)]\<rparr>
      in if n = 0 then p1\<lparr>os := SocketFd_drop S fd (os p1)\<rparr> else p1)"

text \<open>Raw descriptors, as handed to the caller.\<close>

definition Socket_as_raw_fd :: "'k proc \<Rightarrow> Socket \<Rightarrow> c_int" where
  "Socket_as_raw_fd p s = arc_get p (sock_fd s)"

definition User_as_raw_fd :: "'k proc \<Rightarrow> User \<Rightarrow> c_int" where
  "User_as_raw_fd p u = Socket_as_raw_fd p (user_socket u)"

end
