(* ===== verification/ControlSet.thy ===== *)
theory ControlSet
  imports Xsk
begin

text \<open>
  Which device queues of a UMEM are claimed (\<open>src/xsk/umem.rs\<close>, \<open>src/xsk.rs\<close>).  The trait
  \<open>ControlSet\<close> is an interface: \<open>Umem::fq_cq\<close> claims a queue by inserting its context, and a
  failed set-up or a dropped \<open>DeviceQueue\<close> gives it back.  The locale states what the trait promises
  and derives what its client needs; \<open>SpinLockedControlSet\<close>, an ordered set behind a lock,
  interprets it.
\<close>

subsection \<open>The interface\<close>

locale control_set =
  fixes ok :: "'s \<Rightarrow> bool"
    and ins :: "IfCtx \<Rightarrow> 's \<Rightarrow> bool \<times> 's"
    and con :: "IfCtx \<Rightarrow> 's \<Rightarrow> bool"
    and rem :: "IfCtx \<Rightarrow> 's \<Rightarrow> 's"
  assumes ok_ins: "ok s \<Longrightarrow> ok (snd (ins c s))"
    and ok_rem: "ok s \<Longrightarrow> ok (rem c s)"
    and ins_fresh: "ok s \<Longrightarrow> fst (ins c s) \<longleftrightarrow> \<not> con c s"
    and con_ins: "ok s \<Longrightarrow> con d (snd (ins c s)) \<longleftrightarrow> d = c \<or> con d s"
    and con_rem: "ok s \<Longrightarrow> con d (rem c s) \<longleftrightarrow> d \<noteq> c \<and> con d s"
    and ext: "ok s \<Longrightarrow> ok t \<Longrightarrow> (\<And>c. con c s \<longleftrightarrow> con c t) \<Longrightarrow> s = t"
begin

lemma claim_once: "ok s \<Longrightarrow> \<not> fst (ins c (snd (ins c s)))"
  by (simp add: ok_ins ins_fresh con_ins)

lemma claim_other: "ok s \<Longrightarrow> d \<noteq> c \<Longrightarrow> fst (ins d (snd (ins c s))) = fst (ins d s)"
  by (simp add: ok_ins ins_fresh con_ins)

lemma refused_unchanged: "ok s \<Longrightarrow> \<not> fst (ins c s) \<Longrightarrow> snd (ins c s) = s"
  by (rule ext) (auto simp: ok_ins ins_fresh con_ins)

lemma roll_back: "ok s \<Longrightarrow> fst (ins c s) \<Longrightarrow> rem c (snd (ins c s)) = s"
  by (rule ext) (auto simp: ok_ins ok_rem ins_fresh con_ins con_rem)

lemma claim_again: "ok s \<Longrightarrow> fst (ins c (rem c s))"
  by (simp add: ok_rem ins_fresh con_rem)

lemma commute: "ok s \<Longrightarrow> d \<noteq> c \<Longrightarrow> rem d (snd (ins c s)) = snd (ins c (rem d s))"
  by (rule ext) (auto simp: ok_ins ok_rem con_ins con_rem)

end

subsection \<open>\<open>SpinLockedControlSet\<close>\<close>

text \<open>
  A \<open>BTreeSet\<close> is its ascending list of elements.  Each method holds the lock for one set
  operation, so a call is one step.
\<close>

definition SpinLockedControlSet_insert :: "IfCtx \<Rightarrow> IfCtx list \<Rightarrow> bool \<times> IfCtx list" where
  "SpinLockedControlSet_insert c s = (if List.member s c then (False, s) else (True, insort c s))"

definition SpinLockedControlSet_contains :: "IfCtx \<Rightarrow> IfCtx list \<Rightarrow> bool" where
  "SpinLockedControlSet_contains c s \<longleftrightarrow> List.member s c"

definition SpinLockedControlSet_remove :: "IfCtx \<Rightarrow> IfCtx list \<Rightarrow> IfCtx list" where
  "SpinLockedControlSet_remove c s = remove1 c s"

definition btree :: "IfCtx list \<Rightarrow> bool" where
  "btree s \<longleftrightarrow> sorted_wrt (<) s"

lemma btree_iff: "btree s \<longleftrightarrow> sorted s \<and> distinct s"
  by (simp add: btree_def strict_sorted_iff)

interpretation spin_locked: control_set btree SpinLockedControlSet_insert
  SpinLockedControlSet_contains SpinLockedControlSet_remove
proof (unfold_locales, goal_cases)
  case (1 s c)
  then show ?case
    by (auto simp: btree_iff SpinLockedControlSet_insert_def sorted_insort distinct_insort)
next
  case (2 s c)
  then show ?case by (auto simp: btree_iff SpinLockedControlSet_remove_def sorted_remove1)
next
  case (3 s c)
  then show ?case by (simp add: SpinLockedControlSet_insert_def SpinLockedControlSet_contains_def)
next
  case (4 s d c)
  then show ?case
    by (auto simp: SpinLockedControlSet_insert_def SpinLockedControlSet_contains_def set_insort_key)
next
  case (5 s d c)
  then show ?case
    by (auto simp: btree_iff SpinLockedControlSet_remove_def SpinLockedControlSet_contains_def)
next
  case (6 s t)
  then have "set s = set t" by (auto simp: SpinLockedControlSet_contains_def)
  with 6 show ?case by (simp add: btree_iff sorted_distinct_set_unique)
qed

subsection \<open>Through the shared handle\<close>

definition DeviceControl_insert :: "IfCtx \<Rightarrow> DeviceControl \<Rightarrow> 'k proc \<Rightarrow> bool \<times> 'k proc" where
  "DeviceControl_insert c d p =
     (case SpinLockedControlSet_insert c (ctls p ! d) of (b, s) \<Rightarrow> (b, p\<lparr>ctls := (ctls p)[d := s]\<rparr>))"

definition DeviceControl_contains :: "IfCtx \<Rightarrow> DeviceControl \<Rightarrow> 'k proc \<Rightarrow> bool" where
  "DeviceControl_contains c d p = SpinLockedControlSet_contains c (ctls p ! d)"

definition DeviceControl_remove :: "IfCtx \<Rightarrow> DeviceControl \<Rightarrow> 'k proc \<Rightarrow> 'k proc" where
  "DeviceControl_remove c d p =
     p\<lparr>ctls := (ctls p)[d := SpinLockedControlSet_remove c (ctls p ! d)]\<rparr>"

definition DeviceControl_new :: "'k proc \<Rightarrow> DeviceControl \<times> 'k proc" where
  "DeviceControl_new p = (length (ctls p), p\<lparr>ctls := ctls p @ [[]]\<rparr>)"

definition ctl_ok :: "DeviceControl \<Rightarrow> 'k proc \<Rightarrow> bool" where
  "ctl_ok d p \<longleftrightarrow> d < length (ctls p) \<and> btree (ctls p ! d)"

lemma DeviceControl_insert_cases:
  assumes "ctl_ok d p"
  obtains (refused) "DeviceControl_contains c d p" and "DeviceControl_insert c d p = (False, p)"
  | (claimed) p1 where "\<not> DeviceControl_contains c d p" and "DeviceControl_insert c d p = (True, p1)"
    and "ctl_ok d p1" and "DeviceControl_contains c d p1" and "DeviceControl_remove c d p1 = p"
    and "os p1 = os p" and "fds p1 = fds p"
proof -
  have d: "d < length (ctls p)" and ok: "btree (ctls p ! d)" using assms by (simp_all add: ctl_ok_def)
  obtain b s where ins: "SpinLockedControlSet_insert c (ctls p ! d) = (b, s)" by (metis surj_pair)
  show thesis
  proof (cases "DeviceControl_contains c d p")
    case True
    then have "\<not> fst (SpinLockedControlSet_insert c (ctls p ! d))"
      using spin_locked.ins_fresh[OF ok] by (simp add: DeviceControl_contains_def)
    with spin_locked.refused_unchanged[OF ok this] ins have "\<not> b \<and> s = ctls p ! d" by simp
    then show thesis using True ins by (intro refused) (simp_all add: DeviceControl_insert_def)
  next
    case False
    then have b: "b" and undo: "SpinLockedControlSet_remove c s = ctls p ! d"
      and "btree s" and "SpinLockedControlSet_contains c s"
      using spin_locked.ins_fresh[OF ok, of c] spin_locked.roll_back[OF ok, of c]
        spin_locked.ok_ins[OF ok, of c] spin_locked.con_ins[OF ok, of c c] ins
      by (simp_all add: DeviceControl_contains_def)
    then show thesis
      using False d ins
      by (intro claimed[of "p\<lparr>ctls := (ctls p)[d := s]\<rparr>"])
        (simp_all add: DeviceControl_insert_def DeviceControl_remove_def DeviceControl_contains_def ctl_ok_def)
  qed
qed

end
