(* ===== verification/Iface.thy ===== *)
theory Iface
  imports Xsk
begin

text \<open>
  Interfaces and what is asked of a socket (\<open>src/xsk/iface.rs\<close>): filling in an \<open>IfInfo\<close>, reading
  the ring offsets in either version the kernel speaks, and reading the statistics.
\<close>

subsection \<open>\<open>IfInfo\<close>\<close>

definition IfInfo_invalid :: IfInfo where
  "IfInfo_invalid = \<lparr>if_ctx = IfCtx 0 0 0, if_name = replicate IFNAMSIZ 0\<rparr>"

text \<open>A \<open>CStr\<close> is given by its bytes before the terminating nul.\<close>

definition to_bytes_with_nul :: "u8 list \<Rightarrow> u8 list" where
  "to_bytes_with_nul st = st @ [0]"

definition IfInfo_from_name :: "'k libc \<Rightarrow> u8 list \<Rightarrow> IfInfo \<Rightarrow> 'k \<Rightarrow> unit outcome \<times> IfInfo \<times> 'k" where
  "IfInfo_from_name S st info k =
     (let bytes = to_bytes_with_nul st
      in if length (if_name info) < length bytes then (Err (Errno EINVAL), info, k)
         else case sys_if_nametoindex S bytes k of (index, k1) \<Rightarrow>
           if index = 0 then (Err (last_os_error S k1), info, k1)
           else (Ok (), \<lparr>if_ctx = IfCtx index 0 0,
                   if_name = bytes @ drop (length bytes) (if_name info)\<rparr>, k1))"

definition IfInfo_from_ifindex :: "'k libc \<Rightarrow> u32 \<Rightarrow> IfInfo \<Rightarrow> 'k \<Rightarrow> unit outcome \<times> IfInfo \<times> 'k" where
  "IfInfo_from_ifindex S index info k =
     (case sys_if_indextoname S index (if_name info) k of (err, buf, k1) \<Rightarrow>
        let info1 = info\<lparr>if_name := buf\<rparr>
        in if err = 0 then (Err (last_os_error S k1), info1, k1) else (Ok (), info1, k1))"

definition IfInfo_set_queue :: "u32 \<Rightarrow> IfInfo \<Rightarrow> IfInfo" where
  "IfInfo_set_queue q info =
     info\<lparr>if_ctx := IfCtx (ifindex (if_ctx info)) q (netnscookie (if_ctx info))\<rparr>"

definition IfInfo_ifindex :: "IfInfo \<Rightarrow> u32" where
  "IfInfo_ifindex info = ifindex (if_ctx info)"

definition IfInfo_queue_id :: "IfInfo \<Rightarrow> u32" where
  "IfInfo_queue_id info = queue_id (if_ctx info)"

subsection \<open>Socket options\<close>

definition XDP_MMAP_OFFSETS :: c_int where "XDP_MMAP_OFFSETS = 1"
definition XDP_RX_RING :: c_int where "XDP_RX_RING = 2"
definition XDP_TX_RING :: c_int where "XDP_TX_RING = 3"
definition XDP_UMEM_REG :: c_int where "XDP_UMEM_REG = 4"
definition XDP_UMEM_FILL_RING :: c_int where "XDP_UMEM_FILL_RING = 5"
definition XDP_UMEM_COMPLETION_RING :: c_int where "XDP_UMEM_COMPLETION_RING = 6"
definition XDP_STATISTICS :: c_int where "XDP_STATISTICS = 7"

subsection \<open>\<open>SocketMmapOffsets\<close>\<close>

definition OPT_V1 :: u32 where
  "OPT_V1 = of_nat (repr_c [8, 8, 8, 8, 8, 8, 8, 8, 8, 8, 8, 8])"

definition OPT_LATEST :: u32 where
  "OPT_LATEST = of_nat (repr_c [8, 8, 8, 8, 8, 8, 8, 8, 8, 8, 8, 8, 8, 8, 8, 8])"

definition fixup_v1 :: "profile \<Rightarrow> XdpRingOffsetsV1 \<Rightarrow> XdpRingOffsets res" where
  "fixup_v1 pf v1 =
     rbind (add_chk pf (v1_consumer v1) 4) (\<lambda>flags.
       Inr \<lparr>off_producer = v1_producer v1, off_consumer = v1_consumer v1,
            off_desc = v1_desc v1, off_flags = flags\<rparr>)"

definition fixup_all :: "profile \<Rightarrow> XdpMmapOffsetsV1 \<Rightarrow> XdpMmapOffsets res" where
  "fixup_all pf v1 =
     rbind (fixup_v1 pf (mo1_rx v1)) (\<lambda>rx. rbind (fixup_v1 pf (mo1_tx v1)) (\<lambda>tx.
     rbind (fixup_v1 pf (mo1_fr v1)) (\<lambda>fr. rbind (fixup_v1 pf (mo1_cr v1)) (\<lambda>cr.
       Inr \<lparr>mo_rx = rx, mo_tx = tx, mo_fr = fr, mo_cr = cr\<rparr>))))"

text \<open>
  The union starts uninitialised; the kernel fills as many bytes as the version it speaks has, and
  says so in \<open>optlen\<close>, which decides how the bytes are read.
\<close>

definition SocketMmapOffsets_set_from_fd ::
  "'k libc \<Rightarrow> profile \<Rightarrow> c_int \<Rightarrow> SocketMmapOffsets \<Rightarrow> 'k \<Rightarrow> unit outcome \<times> SocketMmapOffsets \<times> 'k"
where
  "SocketMmapOffsets_set_from_fd S pf fd this k =
     (let off = sys_uninit S (unat OPT_LATEST) k
      in case sys_getsockopt S fd SOL_XDP XDP_MMAP_OFFSETS off OPT_LATEST k of (err, off1, optlen, k1) \<Rightarrow>
         if err \<noteq> 0 then (Err (last_os_error S k1), this, k1)
         else if optlen = OPT_V1 then
           (case fixup_all pf (dec_offsets_v1 off1) of
              Inl e \<Rightarrow> (Panic e, this, k1)
            | Inr inner \<Rightarrow> (Ok (), \<lparr>smo_inner = inner\<rparr>, k1))
         else if optlen = OPT_LATEST then (Ok (), \<lparr>smo_inner = dec_offsets off1\<rparr>, k1)
         else (Err (Errno (- EINVAL)), this, k1))"

definition SocketMmapOffsets_new ::
  "'k libc \<Rightarrow> profile \<Rightarrow> c_int \<Rightarrow> 'k \<Rightarrow> SocketMmapOffsets outcome \<times> 'k" where
  "SocketMmapOffsets_new S pf fd k =
     (case SocketMmapOffsets_set_from_fd S pf fd \<lparr>smo_inner = XdpMmapOffsets_default\<rparr> k of
        (r, this, k1) \<Rightarrow> obind (r, k1) (\<lambda>_ k2. (Ok this, k2)))"

subsection \<open>Statistics\<close>

text \<open>The struct itself is the buffer: whatever the kernel wrote is in it, also on an error.\<close>

definition XdpStatistics_set_from_fd ::
  "'k libc \<Rightarrow> c_int \<Rightarrow> XdpStatistics \<Rightarrow> 'k \<Rightarrow> unit outcome \<times> XdpStatistics \<times> 'k" where
  "XdpStatistics_set_from_fd S fd this k =
     (case sys_getsockopt S fd SOL_XDP XDP_STATISTICS (enc_stats this) 24 k of (err, bs, optlen, k1) \<Rightarrow>
        if err \<noteq> 0 then (Err (last_os_error S k1), dec_stats bs, k1) else (Ok (), dec_stats bs, k1))"

definition XdpStatistics_new :: "'k libc \<Rightarrow> c_int \<Rightarrow> 'k \<Rightarrow> XdpStatistics outcome \<times> 'k" where
  "XdpStatistics_new S fd k =
     (case XdpStatistics_set_from_fd S fd XdpStatistics_default k of
        (r, this, k1) \<Rightarrow> obind (r, k1) (\<lambda>_ k2. (Ok this, k2)))"

definition XdpStatisticsV2_set_from_fd ::
  "'k libc \<Rightarrow> c_int \<Rightarrow> XdpStatisticsV2 \<Rightarrow> 'k \<Rightarrow> unit outcome \<times> XdpStatisticsV2 \<times> 'k" where
  "XdpStatisticsV2_set_from_fd S fd this k =
     (case sys_getsockopt S fd SOL_XDP XDP_STATISTICS (enc_stats2 this) 48 k of (err, bs, optlen, k1) \<Rightarrow>
        if err \<noteq> 0 then (Err (last_os_error S k1), dec_stats2 bs, k1) else (Ok (), dec_stats2 bs, k1))"

definition XdpStatisticsV2_new :: "'k libc \<Rightarrow> c_int \<Rightarrow> 'k \<Rightarrow> XdpStatisticsV2 outcome \<times> 'k" where
  "XdpStatisticsV2_new S fd k =
     (case XdpStatisticsV2_set_from_fd S fd XdpStatisticsV2_default k of
        (r, this, k1) \<Rightarrow> obind (r, k1) (\<lambda>_ k2. (Ok this, k2)))"

lemma opt_sizes [simp]: "OPT_V1 = 96" "OPT_LATEST = 128"
  by (simp_all add: OPT_V1_def OPT_LATEST_def repr_c_def align_up_def)

end
