(* ===== verification/Sockets.thy ===== *)
theory Sockets
  imports Iface
begin

text \<open>
  Sockets (\<open>src/xsk/socket.rs\<close>): creating one, or sharing the one of a UMEM, and looking up the
  cookie of its network namespace.  A failed construction drops the \<open>Arc\<close> it was given, which
  closes a descriptor that nothing else owns.
\<close>

subsection \<open>System calls on the process state\<close>

definition on_os :: "('k \<Rightarrow> 'a \<times> 'k) \<Rightarrow> 'k proc \<Rightarrow> 'a \<times> 'k proc" where
  "on_os f p = (case f (os p) of (a, k) \<Rightarrow> (a, p\<lparr>os := k\<rparr>))"

lemma on_os_eq: "f (os p) = (a, k) \<Longrightarrow> on_os f p = (a, p\<lparr>os := k\<rparr>)"
  by (simp add: on_os_def)

lemma on_os_frame [simp]: "fds (snd (on_os f p)) = fds p" "ctls (snd (on_os f p)) = ctls p"
  by (simp_all add: on_os_def split: prod.splits)

subsection \<open>Operations\<close>

definition SO_NETNS_COOKIE :: c_int where "SO_NETNS_COOKIE = 71"
definition INIT_NS :: u64 where "INIT_NS = 1"

definition SocketFd_new :: "'k libc \<Rightarrow> 'k \<Rightarrow> c_int outcome \<times> 'k" where
  "SocketFd_new S k =
     (case sys_socket S AF_XDP SOCK_RAW 0 k of (fd, k1) \<Rightarrow>
        if fd < 0 then (Err (last_os_error S k1), k1) else (Ok fd, k1))"

definition Socket_with_xdp_socket ::
  "'k libc \<Rightarrow> IfInfo \<Rightarrow> ArcFd \<Rightarrow> 'k proc \<Rightarrow> Socket outcome \<times> 'k proc" where
  "Socket_with_xdp_socket S info fd p =
     (case sys_getsockopt S (arc_get p fd) SOL_SOCKET SO_NETNS_COOKIE (enc_u64 0) 8 (os p) of
        (err, bs, optlen, k1) \<Rightarrow>
        let p1 = p\<lparr>os := k1\<rparr>;
            done1 = (\<lambda>cookie. (Ok \<lparr>sock_info =
                info\<lparr>if_ctx := IfCtx (ifindex (if_ctx info)) (queue_id (if_ctx info)) cookie\<rparr>,
              sock_fd = fd\<rparr>, p1))
        in if err = 0 then done1 (dec_u64 bs)
           else if err = ENOPROTOOPT then done1 INIT_NS
           else (Err (last_os_error S k1), arc_drop S fd p1))"

definition Socket_new :: "'k libc \<Rightarrow> IfInfo \<Rightarrow> 'k proc \<Rightarrow> Socket outcome \<times> 'k proc" where
  "Socket_new S info p =
     obind (on_os (SocketFd_new S) p) (\<lambda>raw p1.
       case arc_new raw p1 of (fd, p2) \<Rightarrow> Socket_with_xdp_socket S info fd p2)"

definition Socket_with_shared :: "'k libc \<Rightarrow> IfInfo \<Rightarrow> Umem \<Rightarrow> 'k proc \<Rightarrow> Socket outcome \<times> 'k proc" where
  "Socket_with_shared S info u p =
     Socket_with_xdp_socket S info (umem_fd u) (arc_clone (umem_fd u) p)"

text \<open>Dropping a \<open>Socket\<close> drops its share of the descriptor.\<close>

definition Socket_drop :: "'k libc \<Rightarrow> Socket \<Rightarrow> 'k proc \<Rightarrow> 'k proc" where
  "Socket_drop S s p = arc_drop S (sock_fd s) p"

subsection \<open>Reference counting\<close>

text \<open>How many owners a cell has.\<close>

definition arc_count :: "ArcFd \<Rightarrow> 'k proc \<Rightarrow> nat" where
  "arc_count a p = (if a < length (fds p) then snd (fds p ! a) else 0)"

lemma arc_cong:
  assumes "fds p = fds q"
  shows "arc_count a p = arc_count a q" and "arc_get p a = arc_get q a"
  using assms by (simp_all add: arc_count_def arc_get_def)

lemma arc_clone_count:
  "0 < arc_count a p \<Longrightarrow> arc_count a (arc_clone a p) = Suc (arc_count a p)"
  "b \<noteq> a \<Longrightarrow> arc_count b (arc_clone a p) = arc_count b p"
  "0 < arc_count a p \<Longrightarrow> arc_get (arc_clone a p) b = arc_get p b"
  by (auto simp: arc_count_def arc_clone_def arc_get_def nth_list_update split: if_splits)

lemma arc_clone_frame [simp]: "os (arc_clone a p) = os p" "ctls (arc_clone a p) = ctls p"
  by (simp_all add: arc_clone_def)

lemma arc_drop_shared:
  assumes "1 < arc_count a p"
  shows "arc_drop S a p = p\<lparr>fds := (fds p)[a := (arc_get p a, arc_count a p - 1)]\<rparr>"
  using assms by (simp add: arc_drop_def arc_count_def arc_get_def Let_def split: if_splits)

lemma arc_drop_last:
  assumes "arc_count a p = 1"
  shows "arc_drop S a p = p\<lparr>fds := (fds p)[a := (arc_get p a, 0)],
    os := snd (sys_close S (arc_get p a) (os p))\<rparr>"
  using assms
  by (simp add: arc_drop_def arc_count_def arc_get_def Let_def SocketFd_drop_def split: if_splits)

lemma arc_drop_clone:
  assumes "0 < arc_count a p"
  shows "arc_drop S a (arc_clone a p) = p"
  using assms
  by (cases p) (auto simp: arc_drop_def arc_clone_def Let_def arc_count_def list_update_same_conv split: if_splits)

end
