(* ===== verification/Umem.thy ===== *)
theory Umem
  imports ControlSet Sockets
begin

text \<open>
  The UMEM and the set-up of queues on it (\<open>src/xsk/umem.rs\<close>): registering the area, addressing
  its frames, creating fill/completion and receive/transmit rings on a socket, binding, and what
  dropping the handles releases.  A local value with a destructor is a clean-up that runs when the
  rest of the function fails, by an error or by a panic.
\<close>

definition on_fail :: "('s \<Rightarrow> 's) \<Rightarrow> 'a outcome \<times> 's \<Rightarrow> 'a outcome \<times> 's" where
  "on_fail f x = (case x of (Ok a, s) \<Rightarrow> (Ok a, s) | (Err e, s) \<Rightarrow> (Err e, f s)
     | (Panic e, s) \<Rightarrow> (Panic e, f s))"

lemma on_fail_simps [simp]:
  "on_fail f (Ok a, s) = (Ok a, s)" "on_fail f (Err e, s) = (Err e, f s)"
  "on_fail f (Panic q, s) = (Panic q, f s)"
  by (simp_all add: on_fail_def)

lemma on_fail_eq_Ok [simp]: "on_fail f x = (Ok a, s) \<longleftrightarrow> x = (Ok a, s)"
  by (cases x; cases "fst x") auto

lemma on_fail_eq_Err: "on_fail f x = (Err e, t) \<longleftrightarrow> (\<exists>s. x = (Err e, s) \<and> t = f s)"
  by (cases x; cases "fst x") auto

subsection \<open>The area and its frames\<close>

text \<open>\<open>setsockopt\<close> returns non-zero on failure.\<close>

definition setsockopt_or :: "'k libc \<Rightarrow> c_int \<Rightarrow> c_int \<Rightarrow> u8 list \<Rightarrow> 'k \<Rightarrow> unit outcome \<times> 'k" where
  "setsockopt_or S fd opt bs k =
     (case sys_setsockopt S fd SOL_XDP opt bs k of (err, k1) \<Rightarrow>
        if err \<noteq> 0 then (Err (last_os_error S k1), k1) else (Ok (), k1))"

definition Umem_configure :: "'k libc \<Rightarrow> c_int \<Rightarrow> Umem \<Rightarrow> 'k \<Rightarrow> unit outcome \<times> 'k" where
  "Umem_configure S fd u k =
     setsockopt_or S fd XDP_UMEM_REG (enc_umem_reg (XdpUmemReg_default\<lparr>
       reg_addr := fst (umem_area u), reg_len := snd (umem_area u),
       reg_chunk_size := frame_size (umem_config u), reg_headroom := headroom (umem_config u),
       reg_flags := umem_flags (umem_config u)\<rparr>)) k"

definition is_page_aligned :: "'k libc \<Rightarrow> profile \<Rightarrow> slice \<Rightarrow> 'k \<Rightarrow> bool res" where
  "is_page_aligned S pf area k =
     rbind (sub_chk pf (word_of_int (sys_sysconf S SC_PAGESIZE k)) 1) (\<lambda>msk.
       Inr (fst area AND msk = 0))"

definition Umem_new :: "'k libc \<Rightarrow> profile \<Rightarrow> UmemConfig \<Rightarrow> slice \<Rightarrow> 'k proc \<Rightarrow> Umem outcome \<times> 'k proc" where
  "Umem_new S pf config area p =
     (if frame_size config = 0 then (Panic AssertFailed, p)
      else case is_page_aligned S pf area (os p) of
        Inl e \<Rightarrow> (Panic e, p)
      | Inr False \<Rightarrow> (Panic AssertFailed, p)
      | Inr True \<Rightarrow>
          (case DeviceControl_new p of (devices, p1) \<Rightarrow>
             obind (on_os (SocketFd_new S) p1) (\<lambda>raw p2.
               case arc_new raw p2 of (fd, p3) \<Rightarrow>
                 let umem = \<lparr>umem_area = area, umem_config = config, umem_fd = fd,
                       umem_devices = devices\<rparr>
                 in on_fail (arc_drop S fd)
                      (obind (on_os (Umem_configure S (arc_get p3 fd) umem) p3) (\<lambda>_ p4. (Ok umem, p4))))))"

definition Umem_frame :: "profile \<Rightarrow> Umem \<Rightarrow> BufIdx \<Rightarrow> UmemChunk option res" where
  "Umem_frame pf u idx =
     (let pitch = ucast (frame_size (umem_config u)) :: u64; area_size = snd (umem_area u)
      in rbind (mul_chk pf pitch (ucast idx)) (\<lambda>offset.
           if (case checked_sub area_size pitch of None \<Rightarrow> True | Some last1 \<Rightarrow> last1 < offset)
           then Inr None
           else
             let base = fst (umem_area u) + offset
             in if pf = Debug \<and> base = 0 then Inl AssertFailed
                else Inr (Some \<lparr>chunk_addr = (base, pitch), chunk_offset = offset\<rparr>)))"

definition Umem_len_frames :: "Umem \<Rightarrow> u32 res" where
  "Umem_len_frames u =
     (let area_size = snd (umem_area u); fs = ucast (frame_size (umem_config u)) :: u64
      in if fs = 0 then Inl DivByZero
         else let count = area_size div fs
              in Inr (if count \<le> 4294967295 then ucast count else 4294967295))"

definition UmemChunk_as_xdp_with_len :: "profile \<Rightarrow> UmemChunk \<Rightarrow> u32 \<Rightarrow> XdpDesc res" where
  "UmemChunk_as_xdp_with_len pf c len =
     (if pf = Debug \<and> \<not> len \<le> ucast (snd (chunk_addr c)) then Inl AssertFailed
      else Inr \<lparr>desc_addr = chunk_offset c, desc_len = len, desc_options = 0\<rparr>)"

definition UmemChunk_as_xdp :: "profile \<Rightarrow> UmemChunk \<Rightarrow> XdpDesc res" where
  "UmemChunk_as_xdp pf c =
     (let len = ucast (snd (chunk_addr c)) in UmemChunk_as_xdp_with_len pf c len)"

subsection \<open>Rings on a socket\<close>

definition Umem_configure_cq :: "'k libc \<Rightarrow> c_int \<Rightarrow> UmemConfig \<Rightarrow> 'k \<Rightarrow> unit outcome \<times> 'k" where
  "Umem_configure_cq S fd config k =
     obind (setsockopt_or S fd XDP_UMEM_COMPLETION_RING (enc_u32 (complete_size config)) k) (\<lambda>_ k1.
       setsockopt_or S fd XDP_UMEM_FILL_RING (enc_u32 (fill_size config)) k1)"

definition Umem_configure_rt :: "'k libc \<Rightarrow> c_int \<Rightarrow> SocketConfig \<Rightarrow> 'k \<Rightarrow> unit outcome \<times> 'k" where
  "Umem_configure_rt S fd config k =
     obind (case rx_size config of None \<Rightarrow> (Ok (), k)
            | Some num \<Rightarrow> setsockopt_or S fd XDP_RX_RING (enc_u32 num) k) (\<lambda>_ k1.
       case tx_size config of None \<Rightarrow> (Ok (), k1)
       | Some num \<Rightarrow> setsockopt_or S fd XDP_TX_RING (enc_u32 num) k1)"

text \<open>
  \<open>fq_cq\<close> claims the queue first.  \<open>fq_cq_rings\<close> is the rest of it, which runs under the guard
  \<open>_tmp_device\<close>: a failure there gives the claim back, and unmaps the fill ring if the completion
  ring is what failed.
\<close>

definition fq_cq_rings ::
  "'k libc \<Rightarrow> profile \<Rightarrow> Umem \<Rightarrow> Socket \<Rightarrow> 'k proc \<Rightarrow> DeviceQueue outcome \<times> 'k proc" where
  "fq_cq_rings S pf u interface p1 =
     (let sock = arc_get p1 (sock_fd interface)
      in obind (on_os (Umem_configure_cq S sock (umem_config u)) p1) (\<lambda>_ p2.
         obind (on_os (SocketMmapOffsets_new S pf sock) p2) (\<lambda>map1 p3.
         obind (on_os (RingProd_fill S pf sock map1 (fill_size (umem_config u))) p3) (\<lambda>prod p4.
         on_fail (\<lambda>q. q\<lparr>os := RingProd_drop S prod (os q)\<rparr>)
           (obind (on_os (RingCons_comp S pf sock map1 (complete_size (umem_config u))) p4) (\<lambda>cons p5.
              (Ok \<lparr>dq_fcq = \<lparr>fcq_prod = prod, fcq_cons = cons, fcq_map = map1\<rparr>,
                   dq_socket = \<lparr>sock_info = sock_info interface, sock_fd = sock_fd interface\<rparr>,
                   dq_devices = umem_devices u\<rparr>,
               arc_clone (sock_fd interface) p5)))))))"

definition Umem_fq_cq ::
  "'k libc \<Rightarrow> profile \<Rightarrow> Umem \<Rightarrow> Socket \<Rightarrow> 'k proc \<Rightarrow> DeviceQueue outcome \<times> 'k proc" where
  "Umem_fq_cq S pf u interface p =
     (let ctx = if_ctx (sock_info interface)
      in case DeviceControl_insert ctx (umem_devices u) p of (claimed, p1) \<Rightarrow>
        if \<not> claimed then (Err (Errno EINVAL), p1)
        else on_fail (DeviceControl_remove ctx (umem_devices u)) (fq_cq_rings S pf u interface p1))"

definition Umem_rx_tx ::
  "'k libc \<Rightarrow> profile \<Rightarrow> Socket \<Rightarrow> SocketConfig \<Rightarrow> 'k proc \<Rightarrow> User outcome \<times> 'k proc" where
  "Umem_rx_tx S pf interface config p =
     (let sock = arc_get p (sock_fd interface)
      in obind (on_os (Umem_configure_rt S sock config) p) (\<lambda>_ p1.
         obind (on_os (SocketMmapOffsets_new S pf sock) p1) (\<lambda>map1 p2.
           (Ok \<lparr>user_socket = \<lparr>sock_info = sock_info interface, sock_fd = sock_fd interface\<rparr>,
                user_config = config, user_map = map1\<rparr>,
            arc_clone (sock_fd interface) p2))))"

subsection \<open>Binding\<close>

definition XDP_BIND_SHARED_UMEM :: u16 where "XDP_BIND_SHARED_UMEM = push_bit 0 1"
definition XDP_BIND_COPY :: u16 where "XDP_BIND_COPY = push_bit 1 1"
definition XDP_BIND_ZEROCOPY :: u16 where "XDP_BIND_ZEROCOPY = push_bit 2 1"
definition XDP_BIND_NEED_WAKEUP :: u16 where "XDP_BIND_NEED_WAKEUP = push_bit 3 1"

definition bind_addr :: "'k proc \<Rightarrow> User \<Rightarrow> ArcFd \<Rightarrow> SockAddrXdp" where
  "bind_addr p interface umem_sock =
     (let ctx = if_ctx (sock_info (user_socket interface));
          sxdp = SockAddrXdp_default\<lparr>sxdp_ifindex := ifindex ctx, sxdp_queue_id := queue_id ctx,
            sxdp_flags := bind_flags (user_config interface)\<rparr>
      in if arc_get p (sock_fd (user_socket interface)) \<noteq> arc_get p umem_sock
         then sxdp\<lparr>sxdp_flags := sxdp_flags sxdp OR XDP_BIND_SHARED_UMEM,
                sxdp_shared_umem_fd := word_of_int (arc_get p umem_sock)\<rparr>
         else sxdp)"

definition Umem_bind_at :: "'k libc \<Rightarrow> User \<Rightarrow> ArcFd \<Rightarrow> 'k proc \<Rightarrow> unit outcome \<times> 'k proc" where
  "Umem_bind_at S interface umem_sock p =
     on_os (\<lambda>k. case sys_bind S (arc_get p (sock_fd (user_socket interface)))
                   (enc_sockaddr (bind_addr p interface umem_sock)) k of
                (r, k1) \<Rightarrow> if r \<noteq> 0 then (Err (last_os_error S k1), k1) else (Ok (), k1)) p"

definition Umem_bind :: "'k libc \<Rightarrow> Umem \<Rightarrow> User \<Rightarrow> 'k proc \<Rightarrow> unit outcome \<times> 'k proc" where
  "Umem_bind S u interface p = Umem_bind_at S interface (umem_fd u) p"

definition DeviceQueue_bind :: "'k libc \<Rightarrow> DeviceQueue \<Rightarrow> User \<Rightarrow> 'k proc \<Rightarrow> unit outcome \<times> 'k proc" where
  "DeviceQueue_bind S dq interface p = Umem_bind_at S interface (sock_fd (dq_socket dq)) p"

subsection \<open>Statistics, and what is not implemented\<close>

definition DeviceQueue_statistics :: "'k libc \<Rightarrow> DeviceQueue \<Rightarrow> 'k proc \<Rightarrow> XdpStatistics outcome \<times> 'k proc" where
  "DeviceQueue_statistics S dq p = on_os (XdpStatistics_new S (arc_get p (sock_fd (dq_socket dq)))) p"

definition DeviceQueue_statistics_v2 ::
  "'k libc \<Rightarrow> DeviceQueue \<Rightarrow> 'k proc \<Rightarrow> XdpStatisticsV2 outcome \<times> 'k proc" where
  "DeviceQueue_statistics_v2 S dq p = on_os (XdpStatisticsV2_new S (arc_get p (sock_fd (dq_socket dq)))) p"

definition DeviceQueue_setup_xdp_prog :: "DeviceQueue \<Rightarrow> unit outcome" where
  "DeviceQueue_setup_xdp_prog dq = Panic NotImplemented"

definition User_statistics :: "'k libc \<Rightarrow> User \<Rightarrow> 'k proc \<Rightarrow> XdpStatistics outcome \<times> 'k proc" where
  "User_statistics S us p = on_os (XdpStatistics_new S (arc_get p (sock_fd (user_socket us)))) p"

definition User_statistics_v2 :: "'k libc \<Rightarrow> User \<Rightarrow> 'k proc \<Rightarrow> XdpStatisticsV2 outcome \<times> 'k proc" where
  "User_statistics_v2 S us p = on_os (XdpStatisticsV2_new S (arc_get p (sock_fd (user_socket us)))) p"

subsection \<open>Mapping the packet rings\<close>

definition User_map_rx :: "'k libc \<Rightarrow> profile \<Rightarrow> User \<Rightarrow> 'k proc \<Rightarrow> RingRx outcome \<times> 'k proc" where
  "User_map_rx S pf us p =
     (case rx_size (user_config us) of
        None \<Rightarrow> (Err (Errno (- EINVAL)), p)
      | Some n \<Rightarrow>
          obind (on_os (RingCons_rx S pf (arc_get p (sock_fd (user_socket us))) (user_map us) n) p)
            (\<lambda>ring p1. (Ok \<lparr>rx_ring = ring, rx_fd = sock_fd (user_socket us)\<rparr>,
                         arc_clone (sock_fd (user_socket us)) p1)))"

definition User_map_tx :: "'k libc \<Rightarrow> profile \<Rightarrow> User \<Rightarrow> 'k proc \<Rightarrow> RingTx outcome \<times> 'k proc" where
  "User_map_tx S pf us p =
     (case tx_size (user_config us) of
        None \<Rightarrow> (Err (Errno (- EINVAL)), p)
      | Some n \<Rightarrow>
          obind (on_os (RingProd_tx S pf (arc_get p (sock_fd (user_socket us))) (user_map us) n) p)
            (\<lambda>ring p1. (Ok \<lparr>tx_ring = ring, tx_fd = sock_fd (user_socket us)\<rparr>,
                         arc_clone (sock_fd (user_socket us)) p1)))"

subsection \<open>Dropping the handles\<close>

definition Umem_drop :: "'k libc \<Rightarrow> Umem \<Rightarrow> 'k proc \<Rightarrow> 'k proc" where
  "Umem_drop S u p = arc_drop S (umem_fd u) p"

definition User_drop :: "'k libc \<Rightarrow> User \<Rightarrow> 'k proc \<Rightarrow> 'k proc" where
  "User_drop S us p = Socket_drop S (user_socket us) p"

definition RingRx_drop :: "'k libc \<Rightarrow> RingRx \<Rightarrow> 'k proc \<Rightarrow> 'k proc" where
  "RingRx_drop S rx p = arc_drop S (rx_fd rx) (p\<lparr>os := RingCons_drop S (rx_ring rx) (os p)\<rparr>)"

definition RingTx_drop :: "'k libc \<Rightarrow> RingTx \<Rightarrow> 'k proc \<Rightarrow> 'k proc" where
  "RingTx_drop S tx p = arc_drop S (tx_fd tx) (p\<lparr>os := RingProd_drop S (tx_ring tx) (os p)\<rparr>)"

text \<open>The destructor's own body first, then the fields in order: rings, socket.\<close>

definition DeviceQueue_drop :: "'k libc \<Rightarrow> DeviceQueue \<Rightarrow> 'k proc \<Rightarrow> 'k proc" where
  "DeviceQueue_drop S dq p =
     (let p1 = DeviceControl_remove (if_ctx (sock_info (dq_socket dq))) (dq_devices dq) p;
          p2 = p1\<lparr>os := RingCons_drop S (fcq_cons (dq_fcq dq))
                 (RingProd_drop S (fcq_prod (dq_fcq dq)) (os p1))\<rparr>
      in Socket_drop S (dq_socket dq) p2)"

end
