(* ===== verification/Demo.thy ===== *)
theory Demo
  imports Iface "HOL-Library.Multiset"
begin

text \<open>
  A small concrete operating system for the witnesses.  It hands out descriptors counting up, maps
  every ring at a page of its own over zeroed memory, answers the offset query with what its state
  says, and fails the calls its state lists.
\<close>

record demo =
  d_errno :: c_int
  d_mem :: mem
  d_maps :: "slice multiset"
  d_opens :: "c_int multiset"
  d_next :: c_int
  d_answer :: "u8 list \<times> u32"
  d_fail :: "c_int list"
  d_binds :: "(c_int \<times> u8 list \<times> c_int) list"

text \<open>
  \<open>d_fail\<close> lists socket options whose \<open>setsockopt\<close> or \<open>getsockopt\<close> fails, and the number 100
  for a completion ring that cannot be mapped.  \<open>d_binds\<close> records the calls of \<open>bind\<close> and their results.
\<close>

definition demo_libc :: "demo libc" where
  "demo_libc = \<lparr>
     sys_errno = d_errno,
     sys_memory = d_mem,
     sys_uninit = (\<lambda>n k. replicate n 170),
     sys_socket = (\<lambda>d t pr k. (d_next k, k\<lparr>d_next := d_next k + 1,
        d_opens := (if d_next k < 0 then d_opens k else add_mset (d_next k) (d_opens k))\<rparr>)),
     sys_getsockopt = (\<lambda>fd lv opt bs n k.
        if List.member (d_fail k) opt then (- 1, bs, n, k)
        else if lv = SOL_XDP \<and> opt = XDP_MMAP_OFFSETS then (0, fst (d_answer k), snd (d_answer k), k)
        else (0, bs, n, k)),
     sys_setsockopt = (\<lambda>fd lv opt bs k. (if List.member (d_fail k) opt then - 1 else 0, k)),
     sys_bind = (\<lambda>fd bs k. (0, k\<lparr>d_binds := d_binds k @ [(fd, bs, 0)]\<rparr>)),
     sys_close = (\<lambda>fd k. (0, k\<lparr>d_opens := d_opens k - {#fd#}\<rparr>)),
     sys_mmap = (\<lambda>a len pr fl fd off k.
        let addr = 4096 + off
        in if List.member (d_fail k) 100 \<and> off = XDP_UMEM_PGOFF_COMPLETION_RING \<or> addr = MAP_FAILED \<or> addr = 0
           then (MAP_FAILED, k)
           else (addr, k\<lparr>d_maps := add_mset (addr, len) (d_maps k)\<rparr>)),
     sys_munmap = (\<lambda>a len k. (0, k\<lparr>d_maps := d_maps k - {#(a, len)#}\<rparr>)),
     sys_poll = (\<lambda>fd ev t k. (0, k)),
     sys_sendto = (\<lambda>fd bs fl k. (0, k)),
     sys_if_nametoindex = (\<lambda>bs k. (if hd bs = 0 then 0 else 7, k)),
     sys_if_indextoname = (\<lambda>i buf k. (if i = 0 then 0 else 4096, 108 # 111 # 0 # drop 3 buf, k)),
     sys_sysconf = (\<lambda>n k. 4096)\<rparr>"

definition demo_state :: "u8 list \<times> u32 \<Rightarrow> c_int list \<Rightarrow> demo" where
  "demo_state answer fails = \<lparr>d_errno = 92, d_mem = (\<lambda>_. 0), d_maps = {#}, d_opens = {#}, d_next = 3,
     d_answer = answer, d_fail = fails, d_binds = []\<rparr>"

text \<open>The offsets of a kernel of each version.\<close>

definition demo_ring :: XdpRingOffsets where
  "demo_ring = \<lparr>off_producer = 0, off_consumer = 64, off_desc = 192, off_flags = 128\<rparr>"

definition demo_offsets :: XdpMmapOffsets where
  "demo_offsets = \<lparr>mo_rx = demo_ring, mo_tx = demo_ring, mo_fr = demo_ring, mo_cr = demo_ring\<rparr>"

definition demo_ring_v1 :: XdpRingOffsetsV1 where
  "demo_ring_v1 = \<lparr>v1_producer = 0, v1_consumer = 64, v1_desc = 128\<rparr>"

definition demo_offsets_v1 :: XdpMmapOffsetsV1 where
  "demo_offsets_v1 = \<lparr>mo1_rx = demo_ring_v1, mo1_tx = demo_ring_v1, mo1_fr = demo_ring_v1,
     mo1_cr = demo_ring_v1\<rparr>"

definition demo_kernel :: "c_int list \<Rightarrow> demo" where
  "demo_kernel fails = demo_state (enc_offsets demo_offsets, 128) fails"

end
