(* ===== verification/Queries.thy ===== *)
theory Queries
  imports Demo
begin

text \<open>
  What filling in an \<open>IfInfo\<close> and querying the ring offsets achieve (\<open>src/xsk/iface.rs\<close>).
\<close>

subsection \<open>Properties\<close>

text \<open>
  Looking up an interface by name refuses a name that does not fit with its terminator, without
  asking the system; on success the index is set, the queue reset and the name stored terminated;
  on any error the \<open>IfInfo\<close> is unchanged.
\<close>

theorem from_name_spec:
  assumes "length (if_name info) = IFNAMSIZ" and "IfInfo_from_name S st info k = (r, info', k')"
  shows "(IFNAMSIZ \<le> length st \<longrightarrow> r = Err (Errno EINVAL) \<and> k' = k) \<and>
    (r = Ok () \<longrightarrow> length st < IFNAMSIZ \<and> IfInfo_ifindex info' \<noteq> 0 \<and> IfInfo_queue_id info' = 0 \<and>
       take (length st) (if_name info') = st \<and> if_name info' ! length st = 0 \<and>
       length (if_name info') = IFNAMSIZ) \<and>
    (r = Ok () \<or> info' = info)"
  using assms
  by (auto simp: IfInfo_from_name_def to_bytes_with_nul_def Let_def IfInfo_ifindex_def IfInfo_queue_id_def
      nth_append split: if_splits prod.splits)

theorem from_name_spec_witness:
  "\<exists>info' k'. IfInfo_from_name demo_libc [108, 111] IfInfo_invalid (demo_kernel []) = (Ok (), info', k') \<and>
    take 2 (if_name info') = [108, 111] \<and> IfInfo_ifindex info' \<noteq> 0"
proof -
  have len: "length (if_name IfInfo_invalid) = IFNAMSIZ" by (simp add: IfInfo_invalid_def)
  obtain info' k' where
    res: "IfInfo_from_name demo_libc [108, 111] IfInfo_invalid (demo_kernel []) = (Ok (), info', k')"
    by (simp add: IfInfo_from_name_def to_bytes_with_nul_def IfInfo_invalid_def IFNAMSIZ_def demo_libc_def)
  from from_name_spec[OF len res] res show ?thesis by (auto simp: numeral_2_eq_2)
qed

text \<open>
  Querying the ring offsets is atomic: whenever it does not return \<open>Ok\<close> (the call fails, the
  kernel answers with an unknown size, or the fix-up panics) the previous offsets are retained.
\<close>

theorem set_from_fd_atomic:
  assumes "SocketMmapOffsets_set_from_fd S pf fd this k = (r, this', k')" and "r \<noteq> Ok ()"
  shows "this' = this"
  using assms
  by (auto simp: SocketMmapOffsets_set_from_fd_def Let_def split: if_splits prod.splits sum.splits)

theorem set_from_fd_atomic_witness:
  "\<exists>r this' k'. SocketMmapOffsets_set_from_fd demo_libc Release 3 \<lparr>smo_inner = demo_offsets\<rparr>
      (demo_state ([], 64) []) = (r, this', k') \<and> r = Err (Errno (- 22)) \<and> smo_inner this' = demo_offsets"
proof -
  obtain this' k' where res: "SocketMmapOffsets_set_from_fd demo_libc Release 3 \<lparr>smo_inner = demo_offsets\<rparr>
      (demo_state ([], 64) []) = (Err (Errno (- 22)), this', k')"
    by (simp add: SocketMmapOffsets_set_from_fd_def Let_def demo_libc_def demo_state_def EINVAL_def)
  from set_from_fd_atomic[OF this] res show ?thesis by simp
qed

lemma fixup_v1_ok:
  "unat (v1_consumer v) + 4 < 2 ^ 64 \<Longrightarrow> fixup_v1 pf v = Inr \<lparr>off_producer = v1_producer v,
     off_consumer = v1_consumer v, off_desc = v1_desc v, off_flags = v1_consumer v + 4\<rparr>"
  by (simp add: fixup_v1_def add_chk_fits)

text \<open>
  Against a kernel that speaks the first version of the offsets, the query succeeds and every
  ring has the offsets the kernel gave, with the flags placed right behind the consumer head; what
  the buffer held behind the kernel's answer does not matter.
\<close>

theorem offsets_v1_fixed_up:
  assumes "sys_getsockopt S fd SOL_XDP XDP_MMAP_OFFSETS (sys_uninit S 128 k) 128 k =
      (0, enc_offsets_v1 v1 @ rest, 96, k1)"
    and "\<forall>v \<in> {mo1_rx v1, mo1_tx v1, mo1_fr v1, mo1_cr v1}. unat (v1_consumer v) + 4 < 2 ^ 64"
  shows "\<exists>mo. SocketMmapOffsets_set_from_fd S pf fd this k = (Ok (), \<lparr>smo_inner = mo\<rparr>, k1) \<and>
    words_of_ring (mo_rx mo) = words_of_ring_v1 (mo1_rx v1) @ [v1_consumer (mo1_rx v1) + 4] \<and>
    words_of_ring (mo_tx mo) = words_of_ring_v1 (mo1_tx v1) @ [v1_consumer (mo1_tx v1) + 4] \<and>
    words_of_ring (mo_fr mo) = words_of_ring_v1 (mo1_fr v1) @ [v1_consumer (mo1_fr v1) + 4] \<and>
    words_of_ring (mo_cr mo) = words_of_ring_v1 (mo1_cr v1) @ [v1_consumer (mo1_cr v1) + 4]"
  using assms
  by (simp add: SocketMmapOffsets_set_from_fd_def Let_def codec fixup_all_def fixup_v1_ok
      words_of_ring_def words_of_ring_v1_def)

theorem offsets_v1_fixed_up_witness:
  "\<exists>mo k1. SocketMmapOffsets_set_from_fd demo_libc Debug 3 \<lparr>smo_inner = XdpMmapOffsets_default\<rparr>
      (demo_state (enc_offsets_v1 demo_offsets_v1 @ replicate 32 170, 96) []) = (Ok (), \<lparr>smo_inner = mo\<rparr>, k1) \<and>
    words_of_ring (mo_rx mo) = [0, 64, 128, 68]"
proof -
  let ?k = "demo_state (enc_offsets_v1 demo_offsets_v1 @ replicate 32 170, 96) []"
  have "sys_getsockopt demo_libc 3 SOL_XDP XDP_MMAP_OFFSETS (sys_uninit demo_libc 128 ?k) 128 ?k =
      (0, enc_offsets_v1 demo_offsets_v1 @ replicate 32 170, 96, ?k)"
    by (simp add: demo_libc_def demo_state_def)
  from offsets_v1_fixed_up[OF this, of Debug "\<lparr>smo_inner = XdpMmapOffsets_default\<rparr>"]
  show ?thesis by (auto simp: demo_offsets_v1_def demo_ring_v1_def words_of_ring_v1_def)
qed

text \<open>
  Against a current kernel the query returns exactly the offsets the kernel encoded.
\<close>

theorem offsets_latest_decoded:
  assumes "sys_getsockopt S fd SOL_XDP XDP_MMAP_OFFSETS (sys_uninit S 128 k) 128 k =
      (0, enc_offsets mo, 128, k1)"
  shows "SocketMmapOffsets_new S pf fd k = (Ok \<lparr>smo_inner = mo\<rparr>, k1)"
  using assms dec_enc_offsets[of mo "[]"]
  by (simp add: SocketMmapOffsets_new_def SocketMmapOffsets_set_from_fd_def Let_def)

theorem offsets_latest_decoded_witness:
  "SocketMmapOffsets_new demo_libc Release 3 (demo_kernel []) =
    (Ok \<lparr>smo_inner = demo_offsets\<rparr>, demo_kernel [])"
  by (rule offsets_latest_decoded) (simp add: demo_libc_def demo_kernel_def demo_state_def)


end
