(* ===== verification/Setup.thy ===== *)
theory Setup
  imports Umem Queries
begin

text \<open>
  What setting up and tearing down leaves behind: claims on device queues, open descriptors and
  mappings.  The operating system is only assumed to account for mappings and descriptors as its
  documentation says; how it fails is left open.
\<close>

subsection \<open>What the operating system accounts for\<close>

text \<open>
  \<open>maps\<close> is what is mapped and \<open>opens\<close> what is open: \<open>mmap\<close> and \<open>socket\<close> add on success,
  \<open>munmap\<close> and \<open>close\<close> take away, the other calls leave both alone.
\<close>

definition accounts :: "'k libc \<Rightarrow> ('k \<Rightarrow> slice multiset) \<Rightarrow> ('k \<Rightarrow> c_int multiset) \<Rightarrow> bool" where
  "accounts S maps opens \<longleftrightarrow>
     (\<forall>a len pr fl fd off k r k1. sys_mmap S a len pr fl fd off k = (r, k1) \<longrightarrow>
        maps k1 = (if r = MAP_FAILED then maps k else add_mset (r, len) (maps k)) \<and> opens k1 = opens k) \<and>
     (\<forall>a len k r k1. sys_munmap S a len k = (r, k1) \<longrightarrow>
        maps k1 = maps k - {#(a, len)#} \<and> opens k1 = opens k) \<and>
     (\<forall>d t pr k fd k1. sys_socket S d t pr k = (fd, k1) \<longrightarrow>
        opens k1 = (if fd < 0 then opens k else add_mset fd (opens k)) \<and> maps k1 = maps k) \<and>
     (\<forall>fd k r k1. sys_close S fd k = (r, k1) \<longrightarrow> opens k1 = opens k - {#fd#} \<and> maps k1 = maps k) \<and>
     (\<forall>fd lv opt bs n k r bs1 n1 k1. sys_getsockopt S fd lv opt bs n k = (r, bs1, n1, k1) \<longrightarrow>
        maps k1 = maps k \<and> opens k1 = opens k) \<and>
     (\<forall>fd lv opt bs k r k1. sys_setsockopt S fd lv opt bs k = (r, k1) \<longrightarrow>
        maps k1 = maps k \<and> opens k1 = opens k)"

lemma accountsD:
  assumes "accounts S maps opens"
  shows "sys_mmap S a len pr fl fd off k = (r, k1) \<Longrightarrow>
      maps k1 = (if r = MAP_FAILED then maps k else add_mset (r, len) (maps k)) \<and> opens k1 = opens k"
    and "sys_munmap S a len k = (r1, k1) \<Longrightarrow> maps k1 = maps k - {#(a, len)#} \<and> opens k1 = opens k"
    and "sys_socket S d t pr k = (fd, k1) \<Longrightarrow>
      opens k1 = (if fd < 0 then opens k else add_mset fd (opens k)) \<and> maps k1 = maps k"
    and "sys_close S fd k = (r1, k1) \<Longrightarrow> opens k1 = opens k - {#fd#} \<and> maps k1 = maps k"
    and "sys_getsockopt S fd lv opt bs n k = (r1, bs1, n1, k1) \<Longrightarrow> maps k1 = maps k \<and> opens k1 = opens k"
    and "sys_setsockopt S fd lv opt bs k = (r1, k1) \<Longrightarrow> maps k1 = maps k \<and> opens k1 = opens k"
proof -
  note a = assms[unfolded accounts_def]
  note b = conjunct2[OF a] note c = conjunct2[OF b] note d = conjunct2[OF c] note e = conjunct2[OF d]
  show "sys_mmap S a len pr fl fd off k = (r, k1) \<Longrightarrow>
      maps k1 = (if r = MAP_FAILED then maps k else add_mset (r, len) (maps k)) \<and> opens k1 = opens k"
    by (rule conjunct1[OF a, rule_format])
  show "sys_munmap S a len k = (r1, k1) \<Longrightarrow> maps k1 = maps k - {#(a, len)#} \<and> opens k1 = opens k"
    by (rule conjunct1[OF b, rule_format])
  show "sys_socket S d t pr k = (fd, k1) \<Longrightarrow>
      opens k1 = (if fd < 0 then opens k else add_mset fd (opens k)) \<and> maps k1 = maps k"
    by (rule conjunct1[OF c, rule_format])
  show "sys_close S fd k = (r1, k1) \<Longrightarrow> opens k1 = opens k - {#fd#} \<and> maps k1 = maps k"
    by (rule conjunct1[OF d, rule_format])
  show "sys_getsockopt S fd lv opt bs n k = (r1, bs1, n1, k1) \<Longrightarrow> maps k1 = maps k \<and> opens k1 = opens k"
    by (rule conjunct1[OF e, rule_format])
  show "sys_setsockopt S fd lv opt bs k = (r1, k1) \<Longrightarrow> maps k1 = maps k \<and> opens k1 = opens k"
    by (rule conjunct2[OF e, rule_format])
qed

text \<open>Each of the crate's own calls accounts for what it maps and opens.\<close>

lemma setsockopt_or_accounts:
  assumes "accounts S maps opens" and "setsockopt_or S fd opt bs k = (r, k1)"
  shows "maps k1 = maps k \<and> opens k1 = opens k"
  using assms(2) accountsD(6)[OF assms(1)]
  by (auto simp: setsockopt_or_def split: prod.splits if_splits)

lemma configure_cq_accounts:
  assumes "accounts S maps opens" and "Umem_configure_cq S fd c k = (r, k1)"
  shows "maps k1 = maps k \<and> opens k1 = opens k"
proof -
  obtain r' k' where 1: "setsockopt_or S fd XDP_UMEM_COMPLETION_RING (enc_u32 (complete_size c)) k = (r', k')"
    by (metis surj_pair)
  note a = setsockopt_or_accounts[OF assms(1)]
  show ?thesis using assms(2) 1 a[OF 1] a by (cases r') (auto simp: Umem_configure_cq_def)
qed

lemma offsets_new_accounts:
  assumes "accounts S maps opens" and "SocketMmapOffsets_new S pf fd k = (r, k1)"
  shows "maps k1 = maps k \<and> opens k1 = opens k"
proof -
  obtain e bs n k' where get: "sys_getsockopt S fd SOL_XDP XDP_MMAP_OFFSETS
      (sys_uninit S (unat OPT_LATEST) k) OPT_LATEST k = (e, bs, n, k')" by (metis surj_pair)
  with assms(2) have "k1 = k'"
    by (auto simp: SocketMmapOffsets_new_def SocketMmapOffsets_set_from_fd_def Let_def
        split: if_splits sum.splits prod.splits)
  with accountsD(5)[OF assms(1) get] show ?thesis by simp
qed

text \<open>
  A ring is mapped before it is checked.  A panic between the two leaves the mapping behind: a null
  address from \<open>mmap\<close>, which no hint asks for, or, in a debug build, a size that is no power of two.
\<close>

definition maps_nonnull :: "'k libc \<Rightarrow> bool" where
  "maps_nonnull S \<longleftrightarrow>
     (\<forall>len fd offset k. fst (sys_mmap S 0 len PROT_READ_WRITE MAP_SHARED_POPULATE fd offset k) \<noteq> 0)"

definition map_safe :: "'k libc \<Rightarrow> profile \<Rightarrow> u32 \<Rightarrow> bool" where
  "map_safe S pf n \<longleftrightarrow> (pf = Debug \<longrightarrow> is_power_of_two n) \<and> maps_nonnull S"

lemma XskRing_new_safe: "map_safe S pf n \<Longrightarrow> XskRing_new pf m a off n \<noteq> Inl e"
  by (auto simp: map_safe_def XskRing_new_def Let_def sub_chk_def res_simps is_power_of_two_iff)

lemma map_accounts:
  assumes "accounts S maps opens" and "XskRing_map S pf fd off n sz offset k = (r, k1)"
  shows "opens k1 = opens k" and "r = Err e \<Longrightarrow> maps k1 = maps k"
    and "r = Ok (i, addr) \<Longrightarrow> maps k1 = add_mset addr (maps k)"
    and "r = Panic q \<Longrightarrow> map_safe S pf n \<Longrightarrow> maps k1 = maps k"
proof -
  have "opens k1 = opens k \<and> (\<forall>e. r = Err e \<longrightarrow> maps k1 = maps k) \<and>
    (\<forall>i addr. r = Ok (i, addr) \<longrightarrow> maps k1 = add_mset addr (maps k)) \<and>
    (\<forall>q. r = Panic q \<longrightarrow> map_safe S pf n \<longrightarrow> maps k1 = maps k)"
  proof (cases "rbind (mul_chk pf (ucast n) sz) (add_chk pf (off_desc off))")
    case (Inl e)
    with assms(2) show ?thesis by (auto simp: XskRing_map_def)
  next
    case (Inr len)
    obtain a k2 where mm: "sys_mmap S 0 len PROT_READ_WRITE MAP_SHARED_POPULATE fd offset k = (a, k2)"
      by (metis surj_pair)
    have safe: "a \<noteq> 0" if "map_safe S pf n"
      using that mm unfolding map_safe_def maps_nonnull_def by (metis fst_conv)
    show ?thesis
      using assms(2) accountsD(1)[OF assms(1) mm] safe XskRing_new_safe[of S pf n "sys_memory S k2" a off]
      by (cases "XskRing_new pf (sys_memory S k2) a off n") (auto simp: XskRing_map_def Inr mm split: if_splits)
  qed
  then show "opens k1 = opens k" and "r = Err e \<Longrightarrow> maps k1 = maps k"
    and "r = Ok (i, addr) \<Longrightarrow> maps k1 = add_mset addr (maps k)"
    and "r = Panic q \<Longrightarrow> map_safe S pf n \<Longrightarrow> maps k1 = maps k" by blast+
qed

lemma prod_map_accounts:
  assumes "accounts S maps opens"
    and "f = RingProd_fill S pf fd off n \<or> f = RingProd_tx S pf fd off n" and "f k = (r, k1)"
  shows "opens k1 = opens k" and "r = Err e \<Longrightarrow> maps k1 = maps k"
    and "r = Ok q \<Longrightarrow> maps k1 = add_mset (prod_mmap_addr q) (maps k)"
    and "r = Panic pn \<Longrightarrow> map_safe S pf n \<Longrightarrow> maps k1 = maps k"
proof -
  obtain o1 sz1 off1 x where m: "XskRing_map S pf fd o1 n sz1 off1 k = (x, k1)"
    and r: "r = map_outcome (\<lambda>(inner, addr). \<lparr>prod_inner = inner, prod_mmap_addr = addr\<rparr>) x"
    using assms(2,3) by (auto simp: RingProd_fill_def RingProd_tx_def apfst_def map_prod_def split: prod.splits)
  note acc = map_accounts[OF assms(1) m]
  show "opens k1 = opens k" by (rule acc(1))
  show "r = Err e \<Longrightarrow> maps k1 = maps k" using acc(2) r by (cases x) auto
  show "r = Ok q \<Longrightarrow> maps k1 = add_mset (prod_mmap_addr q) (maps k)" using acc(3) r by (cases x) auto
  show "r = Panic pn \<Longrightarrow> map_safe S pf n \<Longrightarrow> maps k1 = maps k" using acc(4) r by (cases x) auto
qed

lemma cons_map_accounts:
  assumes "accounts S maps opens"
    and "f = RingCons_comp S pf fd off n \<or> f = RingCons_rx S pf fd off n" and "f k = (r, k1)"
  shows "opens k1 = opens k" and "r = Err e \<Longrightarrow> maps k1 = maps k"
    and "r = Ok q \<Longrightarrow> maps k1 = add_mset (cons_mmap_addr q) (maps k)"
    and "r = Panic pn \<Longrightarrow> map_safe S pf n \<Longrightarrow> maps k1 = maps k"
proof -
  obtain o1 sz1 off1 x where m: "XskRing_map S pf fd o1 n sz1 off1 k = (x, k1)"
    and r: "r = map_outcome (\<lambda>(inner, addr). \<lparr>cons_inner = inner, cons_mmap_addr = addr\<rparr>) x"
    using assms(2,3) by (auto simp: RingCons_comp_def RingCons_rx_def apfst_def map_prod_def split: prod.splits)
  note acc = map_accounts[OF assms(1) m]
  show "opens k1 = opens k" by (rule acc(1))
  show "r = Err e \<Longrightarrow> maps k1 = maps k" using acc(2) r by (cases x) auto
  show "r = Ok q \<Longrightarrow> maps k1 = add_mset (cons_mmap_addr q) (maps k)" using acc(3) r by (cases x) auto
  show "r = Panic pn \<Longrightarrow> map_safe S pf n \<Longrightarrow> maps k1 = maps k" using acc(4) r by (cases x) auto
qed

lemma unmap_accounts:
  assumes "accounts S maps opens"
  shows "maps (RingProd_drop S q k) = maps k - {#prod_mmap_addr q#}"
    and "opens (RingProd_drop S q k) = opens k"
    and "maps (RingCons_drop S c k) = maps k - {#cons_mmap_addr c#}"
    and "opens (RingCons_drop S c k) = opens k"
proof -
  have "maps (snd (sys_munmap S a len k)) = maps k - {#(a, len)#} \<and>
      opens (snd (sys_munmap S a len k)) = opens k" for a len
    by (rule accountsD(2)[OF assms]) (rule prod.collapse[symmetric])
  then show "maps (RingProd_drop S q k) = maps k - {#prod_mmap_addr q#}"
    and "opens (RingProd_drop S q k) = opens k"
    and "maps (RingCons_drop S c k) = maps k - {#cons_mmap_addr c#}"
    and "opens (RingCons_drop S c k) = opens k"
    by (simp_all add: RingProd_drop_def RingCons_drop_def)
qed

subsection \<open>Setting up a device queue\<close>

lemma remove_ctls: "ctls q = ctls p \<Longrightarrow> ctls (DeviceControl_remove c d q) = ctls (DeviceControl_remove c d p)"
  by (simp add: DeviceControl_remove_def)

lemma remove_frame [simp]:
  "os (DeviceControl_remove c d q) = os q" "fds (DeviceControl_remove c d q) = fds q"
  by (simp_all add: DeviceControl_remove_def)

lemma on_os_cases:
  obtains a k where "f (os p) = (a, k)" and "on_os f p = (a, p\<lparr>os := k\<rparr>)"
  by (metis surj_pair on_os_eq)

lemma fq_cq_rings_accounts:
  assumes "accounts S maps opens" and "fq_cq_rings S pf u s p = (r, p')"
  shows "ctls p' = ctls p" and "opens (os p') = opens (os p)"
    and "r = Err e \<Longrightarrow> maps (os p') = maps (os p) \<and> fds p' = fds p"
    and "r = Ok dq \<Longrightarrow> maps (os p') = maps (os p) + {#prod_mmap_addr (fcq_prod (dq_fcq dq)),
        cons_mmap_addr (fcq_cons (dq_fcq dq))#} \<and> fds p' = fds (arc_clone (sock_fd s) p) \<and>
      dq_socket dq = s \<and> dq_devices dq = umem_devices u"
    and "r = Panic q \<Longrightarrow> map_safe S pf (fill_size (umem_config u)) \<Longrightarrow>
      map_safe S pf (complete_size (umem_config u)) \<Longrightarrow> maps (os p') = maps (os p) \<and> fds p' = fds p"
proof -
  have "ctls p' = ctls p \<and> opens (os p') = opens (os p) \<and>
    (\<forall>e. r = Err e \<longrightarrow> maps (os p') = maps (os p) \<and> fds p' = fds p) \<and>
    (\<forall>dq. r = Ok dq \<longrightarrow> maps (os p') = maps (os p) + {#prod_mmap_addr (fcq_prod (dq_fcq dq)),
        cons_mmap_addr (fcq_cons (dq_fcq dq))#} \<and> fds p' = fds (arc_clone (sock_fd s) p) \<and>
      dq_socket dq = s \<and> dq_devices dq = umem_devices u) \<and>
    (\<forall>q. r = Panic q \<longrightarrow> map_safe S pf (fill_size (umem_config u)) \<longrightarrow>
      map_safe S pf (complete_size (umem_config u)) \<longrightarrow> maps (os p') = maps (os p) \<and> fds p' = fds p)"
  proof -
    let ?sock = "arc_get p (sock_fd s)"
    obtain r1 k1 where 1: "Umem_configure_cq S ?sock (umem_config u) (os p) = (r1, k1)" by (metis surj_pair)
    note a1 = configure_cq_accounts[OF assms(1) 1]
    show ?thesis
    proof (cases r1)
      case (Ok x1)
      obtain r2 k2 where 2: "SocketMmapOffsets_new S pf ?sock k1 = (r2, k2)" by (metis surj_pair)
      note a2 = offsets_new_accounts[OF assms(1) 2]
      show ?thesis
      proof (cases r2)
        case (Ok map1)
        obtain r3 k3 where 3: "RingProd_fill S pf ?sock map1 (fill_size (umem_config u)) k2 = (r3, k3)"
          by (metis surj_pair)
        note a3 = prod_map_accounts[OF assms(1) disjI1[OF refl] 3]
        show ?thesis
        proof (cases r3)
          case (Ok prod)
          obtain r4 k4 where 4: "RingCons_comp S pf ?sock map1 (complete_size (umem_config u)) k3 = (r4, k4)"
            by (metis surj_pair)
          note a4 = cons_map_accounts[OF assms(1) disjI1[OF refl] 4]
          show ?thesis
            using assms(2) 1 2 3 4 \<open>r1 = Ok x1\<close> \<open>r2 = Ok map1\<close> Ok a1 a2 a3 a4 unmap_accounts[OF assms(1)]
            by (cases r4) (auto simp: fq_cq_rings_def Let_def on_os_def arc_clone_def)
        qed (use assms(2) 1 2 3 \<open>r1 = Ok x1\<close> Ok a1 a2 a3 in
            \<open>auto simp: fq_cq_rings_def Let_def on_os_def\<close>)
      qed (use assms(2) 1 2 Ok a1 a2 in \<open>auto simp: fq_cq_rings_def Let_def on_os_def\<close>)
    qed (use assms(2) 1 a1 in \<open>auto simp: fq_cq_rings_def Let_def on_os_def\<close>)
  qed
  then show "ctls p' = ctls p" and "opens (os p') = opens (os p)"
    and "r = Err e \<Longrightarrow> maps (os p') = maps (os p) \<and> fds p' = fds p"
    and "r = Ok dq \<Longrightarrow> maps (os p') = maps (os p) + {#prod_mmap_addr (fcq_prod (dq_fcq dq)),
        cons_mmap_addr (fcq_cons (dq_fcq dq))#} \<and> fds p' = fds (arc_clone (sock_fd s) p) \<and>
      dq_socket dq = s \<and> dq_devices dq = umem_devices u"
    and "r = Panic q \<Longrightarrow> map_safe S pf (fill_size (umem_config u)) \<Longrightarrow>
      map_safe S pf (complete_size (umem_config u)) \<Longrightarrow> maps (os p') = maps (os p) \<and> fds p' = fds p" by blast+
qed

subsection \<open>Properties\<close>

text \<open>The demonstration system keeps the accounts; a process with one socket on it.\<close>

lemma demo_accounts: "accounts demo_libc d_maps d_opens"
  by (auto simp: accounts_def demo_libc_def Let_def split: if_splits)

definition demo_proc :: "c_int list \<Rightarrow> demo proc" where
  "demo_proc fails = \<lparr>os = (demo_kernel fails)\<lparr>d_opens := {#3#}\<rparr>, fds = [(3, 1)], ctls = [[]]\<rparr>"

definition demo_umem :: Umem where
  "demo_umem = \<lparr>umem_area = (65536, 16384), umem_config = UmemConfig_default, umem_fd = 0, umem_devices = 0\<rparr>"

definition demo_socket :: Socket where
  "demo_socket = \<lparr>sock_info = \<lparr>if_ctx = IfCtx 7 0 1, if_name = replicate 16 0\<rparr>, sock_fd = 0\<rparr>"

lemma demo_ctl_ok: "ctl_ok (umem_devices demo_umem) (demo_proc fails)"
  by (simp add: ctl_ok_def demo_umem_def demo_proc_def btree_def)

lemmas demo_run = Umem_fq_cq_def fq_cq_rings_def Let_def on_os_def demo_libc_def demo_kernel_def demo_state_def
  demo_proc_def demo_umem_def demo_socket_def DeviceControl_insert_def SpinLockedControlSet_insert_def
  Umem_configure_cq_def setsockopt_or_def XDP_UMEM_COMPLETION_RING_def XDP_UMEM_FILL_RING_def
  SocketMmapOffsets_new_def SocketMmapOffsets_set_from_fd_def XDP_MMAP_OFFSETS_def
  RingProd_fill_def RingCons_comp_def XskRing_map_def XskRing_new_def MAP_FAILED_def
  XDP_UMEM_PGOFF_FILL_RING_def XDP_UMEM_PGOFF_COMPLETION_RING_def UmemConfig_default_def
  is_power_of_two_def

lemma demo_fq_cq: "\<exists>dq p'. Umem_fq_cq demo_libc Release demo_umem demo_socket (demo_proc []) = (Ok dq, p')"
  by (simp add: demo_run)

lemma demo_fq_cq_fails:
  "\<exists>p'. Umem_fq_cq demo_libc Release demo_umem demo_socket (demo_proc [100]) = (Err (Errno 92), p')"
  by (simp add: demo_run last_os_error_def)

text \<open>
  A failed \<open>fq_cq\<close> leaves nothing behind: whichever step fails (the queue is claimed, a socket
  option, the offsets, either mapping), the claims, the descriptors and their owners, and the
  mappings are what they were.
\<close>

theorem fq_cq_rolls_back:
  assumes "accounts S maps opens" and "ctl_ok (umem_devices u) p"
    and "Umem_fq_cq S pf u s p = (Err e, p')"
  shows "ctls p' = ctls p \<and> fds p' = fds p \<and> maps (os p') = maps (os p) \<and> opens (os p') = opens (os p)"
  using assms(2)
proof (cases rule: DeviceControl_insert_cases[where c = "if_ctx (sock_info s)"])
  case refused
  with assms(3) show ?thesis by (simp add: Umem_fq_cq_def Let_def)
next
  case (claimed p1)
  with assms(3) obtain p2 where run: "fq_cq_rings S pf u s p1 = (Err e, p2)"
    and p': "p' = DeviceControl_remove (if_ctx (sock_info s)) (umem_devices u) p2"
    by (auto simp: Umem_fq_cq_def Let_def on_fail_eq_Err)
  note acc = fq_cq_rings_accounts[OF assms(1) run]
  have "ctls p' = ctls p" using remove_ctls[OF acc(1)] claimed p' by simp
  with acc claimed p' show ?thesis by simp
qed

theorem fq_cq_rolls_back_witness:
  "\<exists>p'. Umem_fq_cq demo_libc Release demo_umem demo_socket (demo_proc [100]) = (Err (Errno 92), p') \<and>
    ctls p' = [[]] \<and> fds p' = [(3, 1)] \<and> d_maps (os p') = {#} \<and> d_opens (os p') = {#3#}"
proof -
  obtain p' where run: "Umem_fq_cq demo_libc Release demo_umem demo_socket (demo_proc [100]) = (Err (Errno 92), p')"
    using demo_fq_cq_fails by auto
  from fq_cq_rolls_back[OF demo_accounts demo_ctl_ok run] run show ?thesis
    by (simp add: demo_proc_def demo_kernel_def demo_state_def)
qed

text \<open>
  A device queue is claimed exclusively: \<open>fq_cq\<close> succeeds only for a queue not claimed before,
  and once it has, every further \<open>fq_cq\<close> on the same UMEM for the same queue is refused with
  \<open>EINVAL\<close> before any system call, whatever socket it comes from; other queues are not affected.
\<close>

theorem fq_cq_exclusive:
  assumes "accounts S maps opens" and "ctl_ok (umem_devices u) p"
    and "Umem_fq_cq S pf u s p = (Ok dq, p')"
    and "if_ctx (sock_info s2) = if_ctx (sock_info s)" and "d \<noteq> if_ctx (sock_info s)"
  shows "\<not> DeviceControl_contains (if_ctx (sock_info s)) (umem_devices u) p \<and>
    Umem_fq_cq S2 pf2 u s2 p' = (Err (Errno EINVAL), p') \<and>
    DeviceControl_contains d (umem_devices u) p' = DeviceControl_contains d (umem_devices u) p"
  using assms(2)
proof (cases rule: DeviceControl_insert_cases[where c = "if_ctx (sock_info s)"])
  case refused
  with assms(3) show ?thesis by (simp add: Umem_fq_cq_def Let_def)
next
  case (claimed p1)
  with assms(3) have run: "fq_cq_rings S pf u s p1 = (Ok dq, p')"
    by (simp add: Umem_fq_cq_def Let_def)
  note acc = fq_cq_rings_accounts[OF assms(1) run]
  have has: "DeviceControl_contains (if_ctx (sock_info s2)) (umem_devices u) p'"
    and ok: "ctl_ok (umem_devices u) p'"
    using claimed acc(1) assms(4) by (simp_all add: DeviceControl_contains_def ctl_ok_def)
  have "Umem_fq_cq S2 pf2 u s2 p' = (Err (Errno EINVAL), p')"
    using ok
    by (cases rule: DeviceControl_insert_cases[where c = "if_ctx (sock_info s2)"])
      (use has in \<open>simp_all add: Umem_fq_cq_def Let_def\<close>)
  moreover have "DeviceControl_contains d (umem_devices u) p' =
      DeviceControl_contains d (umem_devices u) p"
  proof -
    have "DeviceControl_contains d (umem_devices u) p = DeviceControl_contains d (umem_devices u)
        (DeviceControl_remove (if_ctx (sock_info s)) (umem_devices u) p1)" using claimed by simp
    also have "\<dots> = DeviceControl_contains d (umem_devices u) p1"
      using claimed(3) assms(5) spin_locked.con_rem[of "ctls p1 ! umem_devices u" d]
      by (simp add: DeviceControl_contains_def DeviceControl_remove_def ctl_ok_def)
    also have "\<dots> = DeviceControl_contains d (umem_devices u) p'"
      using acc(1) by (simp add: DeviceControl_contains_def)
    finally show ?thesis by simp
  qed
  ultimately show ?thesis using claimed by simp
qed

theorem fq_cq_exclusive_witness:
  "\<exists>dq p'. Umem_fq_cq demo_libc Release demo_umem demo_socket (demo_proc []) = (Ok dq, p') \<and>
    Umem_fq_cq demo_libc Release demo_umem demo_socket p' = (Err (Errno EINVAL), p') \<and>
    \<not> DeviceControl_contains (IfCtx 7 1 1) 0 p'"
proof -
  obtain dq p' where run: "Umem_fq_cq demo_libc Release demo_umem demo_socket (demo_proc []) = (Ok dq, p')"
    using demo_fq_cq by auto
  have "IfCtx 7 1 1 \<noteq> if_ctx (sock_info demo_socket)" by (simp add: demo_socket_def)
  from fq_cq_exclusive[OF demo_accounts demo_ctl_ok run refl this, of demo_libc Release] run show ?thesis
    by (auto simp: demo_umem_def DeviceControl_contains_def demo_proc_def SpinLockedControlSet_contains_def)
qed

text \<open>
  Dropping a \<open>DeviceQueue\<close> undoes its set-up exactly: the claim is given up, both rings are
  unmapped, and the socket is as before, its descriptor still open for its other owners.
\<close>

theorem device_queue_lifecycle:
  assumes "accounts S maps opens" and "ctl_ok (umem_devices u) p"
    and "Umem_fq_cq S pf u s p = (Ok dq, p')" and "0 < arc_count (sock_fd s) p"
  defines "q \<equiv> DeviceQueue_drop S dq p'"
  shows "maps (os p') = maps (os p) + {#prod_mmap_addr (fcq_prod (dq_fcq dq)),
        cons_mmap_addr (fcq_cons (dq_fcq dq))#} \<and>
    arc_count (sock_fd s) p' = Suc (arc_count (sock_fd s) p) \<and>
    ctls q = ctls p \<and> fds q = fds p \<and> maps (os q) = maps (os p) \<and> opens (os q) = opens (os p)"
  using assms(2)
proof (cases rule: DeviceControl_insert_cases[where c = "if_ctx (sock_info s)"])
  case refused
  with assms(3) show ?thesis by (simp add: Umem_fq_cq_def Let_def)
next
  case (claimed p1)
  with assms(3) have run: "fq_cq_rings S pf u s p1 = (Ok dq, p')"
    by (simp add: Umem_fq_cq_def Let_def)
  note acc = fq_cq_rings_accounts[OF assms(1) run] and un = unmap_accounts[OF assms(1)]
  have ok: "maps (os p') = maps (os p) + {#prod_mmap_addr (fcq_prod (dq_fcq dq)),
        cons_mmap_addr (fcq_cons (dq_fcq dq))#}"
    and f: "fds p' = fds (arc_clone (sock_fd s) p1)" and dq: "dq_socket dq = s" "dq_devices dq = umem_devices u"
    using acc(4) claimed by simp_all
  let ?a = "sock_fd s" and ?p1 = "DeviceControl_remove (if_ctx (sock_info s)) (umem_devices u) p'"
  let ?p2 = "?p1\<lparr>os := RingCons_drop S (fcq_cons (dq_fcq dq)) (RingProd_drop S (fcq_prod (dq_fcq dq)) (os ?p1))\<rparr>"
  have live: "0 < arc_count ?a p1" using assms(4) arc_cong(1)[OF claimed(7)] by simp
  have count: "arc_count ?a p' = Suc (arc_count ?a p1)"
    using arc_clone_count(1)[OF live] arc_cong(1)[OF f] by simp
  have p2: "fds ?p2 = fds p'" by simp
  have shared: "1 < arc_count ?a ?p2" using live count arc_cong(1)[OF p2] by simp
  have q: "q = ?p2\<lparr>fds := (fds ?p2)[?a := (arc_get ?p2 ?a, arc_count ?a ?p2 - 1)]\<rparr>"
    unfolding q_def DeviceQueue_drop_def Let_def Socket_drop_def dq by (rule arc_drop_shared[OF shared])
  have "(fds p')[?a := (arc_get p' ?a, arc_count ?a p' - 1)] = fds p1"
    using live f by (auto simp: arc_clone_def arc_get_def arc_count_def split: if_splits)
  then have "fds q = fds p" using q claimed arc_cong[OF p2] by simp
  moreover have "ctls q = ctls p" using q remove_ctls[OF acc(1)] claimed by simp
  moreover have "maps (os q) = maps (os p)" "opens (os q) = opens (os p)"
    using q ok un acc(2) claimed by simp_all
  ultimately show ?thesis using ok count arc_cong(1)[OF claimed(7)] by simp
qed

theorem device_queue_lifecycle_witness:
  "\<exists>dq p'. Umem_fq_cq demo_libc Release demo_umem demo_socket (demo_proc []) = (Ok dq, p') \<and>
    size (d_maps (os p')) = 2 \<and> d_maps (os (DeviceQueue_drop demo_libc dq p')) = {#} \<and>
    ctls (DeviceQueue_drop demo_libc dq p') = [[]] \<and> d_opens (os (DeviceQueue_drop demo_libc dq p')) = {#3#}"
proof -
  obtain dq p' where run: "Umem_fq_cq demo_libc Release demo_umem demo_socket (demo_proc []) = (Ok dq, p')"
    using demo_fq_cq by auto
  have "0 < arc_count (sock_fd demo_socket) (demo_proc [])"
    by (simp add: arc_count_def demo_socket_def demo_proc_def)
  from device_queue_lifecycle[OF demo_accounts demo_ctl_ok run this] run show ?thesis
    by (simp add: demo_proc_def demo_kernel_def demo_state_def)
qed

text \<open>
  A failed \<open>Socket::new\<close> leaks no descriptor: if the descriptor was opened and the namespace
  query then fails, it is closed again.  A successful one owns a fresh descriptor alone, keeps the
  interface, and closes the descriptor when dropped.
\<close>

theorem socket_new_accounts:
  assumes "accounts S maps opens" and "Socket_new S info p = (r, p')"
  shows "case r of
      Ok s \<Rightarrow> opens (os p') = add_mset (arc_get p' (sock_fd s)) (opens (os p)) \<and>
        arc_count (sock_fd s) p' = 1 \<and> opens (os (Socket_drop S s p')) = opens (os p) \<and>
        ifindex (if_ctx (sock_info s)) = ifindex (if_ctx info) \<and> queue_id (if_ctx (sock_info s)) = queue_id (if_ctx info)
    | _ \<Rightarrow> opens (os p') = opens (os p)"
proof -
  obtain fd k1 where so: "sys_socket S AF_XDP SOCK_RAW 0 (os p) = (fd, k1)" by (metis surj_pair)
  note aso = accountsD(3)[OF assms(1) so]
  show ?thesis
  proof (cases "fd < 0")
    case True
    with assms(2) so aso show ?thesis by (auto simp: Socket_new_def on_os_def SocketFd_new_def)
  next
    case False
    let ?p2 = "p\<lparr>os := k1, fds := fds p @ [(fd, 1)]\<rparr>" and ?a = "length (fds p)"
    have get: "arc_get ?p2 ?a = fd" and one: "arc_count ?a ?p2 = 1" by (simp_all add: arc_get_def arc_count_def)
    obtain e bs n k2 where so2: "sys_getsockopt S fd SOL_SOCKET SO_NETNS_COOKIE (enc_u64 0) 8 k1 = (e, bs, n, k2)"
      by (metis surj_pair)
    note aso2 = accountsD(5)[OF assms(1) so2]
    have cl: "opens (snd (sys_close S fd k)) = opens k - {#fd#}" for k
      using accountsD(4)[OF assms(1), of fd k] by (metis prod.collapse)
    have with1: "Socket_with_xdp_socket S info ?a ?p2 = (r, p')"
      using assms(2) so False by (simp add: Socket_new_def on_os_def SocketFd_new_def arc_new_def)
    have one2: "arc_count ?a (?p2\<lparr>os := k2\<rparr>) = 1" "arc_get (?p2\<lparr>os := k2\<rparr>) ?a = fd"
      by (simp_all add: arc_get_def arc_count_def)
    show ?thesis
    proof (cases "e = 0 \<or> e = ENOPROTOOPT")
      case True
      then obtain s where "r = Ok s" and "sock_fd s = ?a" and "p' = ?p2\<lparr>os := k2\<rparr>"
        and "ifindex (if_ctx (sock_info s)) = ifindex (if_ctx info)"
        and "queue_id (if_ctx (sock_info s)) = queue_id (if_ctx info)"
        using with1 so2 by (auto simp: Socket_with_xdp_socket_def get[simplified] Let_def split: if_splits)
      then show ?thesis
        using aso aso2 False one2 cl by (simp add: Socket_drop_def arc_drop_last)
    next
      case False
      then have "r = Err (last_os_error S k2)" and "p' = arc_drop S ?a (?p2\<lparr>os := k2\<rparr>)"
        using with1 so2 by (auto simp: Socket_with_xdp_socket_def get[simplified] Let_def)
      then show ?thesis
        using aso aso2 \<open>\<not> fd < 0\<close> one2 cl by (simp add: arc_drop_last)
    qed
  qed
qed

theorem socket_new_accounts_witness:
  "\<exists>p'. Socket_new demo_libc IfInfo_invalid \<lparr>os = demo_kernel [71], fds = [], ctls = []\<rparr> = (Err (Errno 92), p') \<and>
    d_opens (os p') = {#}"
proof -
  obtain p' where run: "Socket_new demo_libc IfInfo_invalid \<lparr>os = demo_kernel [71], fds = [], ctls = []\<rparr> =
      (Err (Errno 92), p')"
    by (simp add: Socket_new_def on_os_def SocketFd_new_def arc_new_def Socket_with_xdp_socket_def
        SO_NETNS_COOKIE_def ENOPROTOOPT_def demo_libc_def demo_kernel_def demo_state_def last_os_error_def)
  from socket_new_accounts[OF demo_accounts run] run show ?thesis
    by (simp add: demo_kernel_def demo_state_def)
qed

text \<open>
  C33. On a kernel without namespace cookies, where \<open>getsockopt\<close> returns \<open>-1\<close> and sets \<open>errno\<close> to
  \<open>ENOPROTOOPT\<close>, creating a socket fails with that error: the code compares the return value with
  \<open>ENOPROTOOPT\<close>, so its fallback to the initial namespace is never taken.
\<close>

theorem netns_fallback_dead:
  assumes "sys_getsockopt S (arc_get p fd) SOL_SOCKET SO_NETNS_COOKIE (enc_u64 0) 8 (os p) = (- 1, bs, n, k1)"
    and "sys_errno S k1 = ENOPROTOOPT"
  shows "fst (Socket_with_xdp_socket S info fd p) = Err (Errno ENOPROTOOPT)"
  using assms
  by (simp add: Socket_with_xdp_socket_def Let_def last_os_error_def ENOPROTOOPT_def)

theorem netns_fallback_dead_witness:
  "fst (Socket_with_xdp_socket demo_libc IfInfo_invalid 0 (demo_proc [71])) = Err (Errno ENOPROTOOPT)"
  by (rule netns_fallback_dead[where bs = "enc_u64 0" and n = 8 and ?k1.0 = "os (demo_proc [71])"])
    (simp_all add: demo_libc_def demo_proc_def demo_kernel_def demo_state_def SO_NETNS_COOKIE_def ENOPROTOOPT_def)

text \<open>
  \<open>Umem::new\<close> either returns a UMEM over the area given, page aligned and with a frame size,
  that alone owns its descriptor and claims no queue, or leaves no descriptor open.
\<close>

theorem umem_new_accounts:
  assumes "accounts S maps opens" and "Umem_new S pf config area p = (r, p')"
  shows "case r of
      Ok u \<Rightarrow> umem_area u = area \<and> umem_config u = config \<and> frame_size config \<noteq> 0 \<and>
        is_page_aligned S pf area (os p) = Inr True \<and> ctl_ok (umem_devices u) p' \<and>
        \<not> DeviceControl_contains c (umem_devices u) p' \<and> arc_count (umem_fd u) p' = 1 \<and>
        opens (os p') = add_mset (arc_get p' (umem_fd u)) (opens (os p))
    | _ \<Rightarrow> opens (os p') = opens (os p)"
proof (cases "frame_size config = 0 \<or> is_page_aligned S pf area (os p) \<noteq> Inr True")
  case True
  with assms(2) show ?thesis
    by (auto simp: Umem_new_def split: if_splits sum.splits bool.splits)
next
  case False
  obtain fd k1 where so: "sys_socket S AF_XDP SOCK_RAW 0 (os p) = (fd, k1)" by (metis surj_pair)
  note aso = accountsD(3)[OF assms(1) so]
  let ?d = "length (ctls p)" and ?a = "length (fds p)"
  let ?u = "\<lparr>umem_area = area, umem_config = config, umem_fd = ?a, umem_devices = ?d\<rparr>"
  obtain x k2 where cf: "Umem_configure S fd ?u k1 = (x, k2)" by (metis surj_pair)
  have acf: "opens k2 = opens k1"
    using setsockopt_or_accounts[OF assms(1)] cf by (auto simp: Umem_configure_def)
  let ?p = "p\<lparr>ctls := ctls p @ [[]], os := k1, fds := fds p @ [(fd, 1)]\<rparr>"
  have arc: "arc_get (?p\<lparr>os := k2\<rparr>) ?a = fd" "arc_count ?a (?p\<lparr>os := k2\<rparr>) = 1" "arc_get ?p ?a = fd"
    by (simp_all add: arc_get_def arc_count_def)
  have cl: "opens (snd (sys_close S fd k)) = opens k - {#fd#}" for k
    using accountsD(4)[OF assms(1), of fd k] by (metis prod.collapse)
  show ?thesis
  proof (cases "fd < 0")
    case True
    with assms(2) False so aso show ?thesis
      by (auto simp: Umem_new_def DeviceControl_new_def on_os_def SocketFd_new_def)
  next
    case pos: False
    have run: "(r, p') = on_fail (arc_drop S ?a) (obind (x, ?p\<lparr>os := k2\<rparr>) (\<lambda>_ p4. (Ok ?u, p4)))"
      using assms(2) False pos so cf arc(3)
      by (simp add: Umem_new_def DeviceControl_new_def on_os_def SocketFd_new_def arc_new_def Let_def)
    show ?thesis
      using run False pos aso acf arc cl
      by (cases x) (simp_all add: ctl_ok_def btree_def DeviceControl_contains_def
          SpinLockedControlSet_contains_def arc_drop_last arc_count_def arc_get_def)
  qed
qed

theorem umem_new_accounts_witness:
  "\<exists>u p'. Umem_new demo_libc Release UmemConfig_default (65536, 16384) \<lparr>os = demo_kernel [], fds = [], ctls = []\<rparr> =
      (Ok u, p') \<and> arc_count (umem_fd u) p' = 1 \<and> d_opens (os p') = {#arc_get p' (umem_fd u)#}"
proof -
  obtain u p' where run: "Umem_new demo_libc Release UmemConfig_default (65536, 16384)
      \<lparr>os = demo_kernel [], fds = [], ctls = []\<rparr> = (Ok u, p')"
    by (simp add: Umem_new_def is_page_aligned_def DeviceControl_new_def on_os_def SocketFd_new_def arc_new_def
        Umem_configure_def setsockopt_or_def Let_def UmemConfig_default_def demo_libc_def demo_kernel_def
        demo_state_def)
  from umem_new_accounts[OF demo_accounts run] run show ?thesis
    by (simp add: demo_kernel_def demo_state_def)
qed

end
