(* ===== verification/Slots.thy ===== *)
theory Slots
  imports Ring
begin

text \<open>
  Where the slots of a ring are and what they hold: masked indices stay inside the mapping, indices
  less than one ring apart have disjoint slots, and a write through an index is read back through
  it.  \<open>ring_layout\<close> is what the kernel's offsets promise: heads, flags and slots do not overlap.
\<close>

subsection \<open>Well-formed rings and their layout\<close>

definition ring_wf :: "XskRing \<Rightarrow> bool" where
  "ring_wf i \<longleftrightarrow> is_power_of_two (ring_size i) \<and> ring_mask i = ring_size i - 1"

abbreviation nslots :: "XskRing \<Rightarrow> nat" where
  "nslots i \<equiv> unat (ring_size i)"

abbreviation kprod :: "mem \<Rightarrow> XskRing \<Rightarrow> u32" where
  "kprod m i \<equiv> load_u32 m (producer i)"

abbreviation kcons :: "mem \<Rightarrow> XskRing \<Rightarrow> u32" where
  "kcons m i \<equiv> load_u32 m (consumer i)"

definition slot_addr :: "nat \<Rightarrow> XskRing \<Rightarrow> u32 \<Rightarrow> u64" where
  "slot_addr sz i idx = ring_ptr i + of_nat sz * ucast (idx AND ring_mask i)"

definition slots_region :: "nat \<Rightarrow> XskRing \<Rightarrow> region" where
  "slots_region sz i = (ring_ptr i, sz * nslots i)"

definition ring_layout :: "nat \<Rightarrow> XskRing \<Rightarrow> bool" where
  "ring_layout sz i \<longleftrightarrow>
     fits (producer i, 4) \<and> fits (consumer i, 4) \<and> fits (flags_ptr i, 4) \<and>
     fits (slots_region sz i) \<and>
     apart (producer i, 4) (consumer i, 4) \<and> apart (producer i, 4) (flags_ptr i, 4) \<and>
     apart (consumer i, 4) (flags_ptr i, 4) \<and>
     apart (producer i, 4) (slots_region sz i) \<and> apart (consumer i, 4) (slots_region sz i) \<and>
     apart (flags_ptr i, 4) (slots_region sz i)"

lemma fill_addr_eq: "fill_addr r idx = slot_addr 8 (prod_inner r) idx"
  by (simp add: fill_addr_def slot_addr_def)

lemma tx_desc_eq: "tx_desc r idx = slot_addr 16 (prod_inner r) idx"
  by (simp add: tx_desc_def slot_addr_def)

lemma comp_addr_eq: "comp_addr r idx = slot_addr 8 (cons_inner r) idx"
  by (simp add: comp_addr_def slot_addr_def)

lemma rx_desc_eq: "rx_desc r idx = slot_addr 16 (cons_inner r) idx"
  by (simp add: rx_desc_def slot_addr_def)

lemmas slot_addr_eqs = fill_addr_eq tx_desc_eq comp_addr_eq rx_desc_eq

lemma nslots_bounds:
  assumes "ring_wf i"
  shows "0 < nslots i" and "nslots i \<le> 2 ^ 31"
  using assms is_power_of_two_bounds by (auto simp: ring_wf_def)

lemma masked_index: "ring_wf i \<Longrightarrow> unat (idx AND ring_mask i) = unat idx mod nslots i"
  by (simp add: ring_wf_def and_mask_mod)

lemma index_window:
  assumes "ring_wf i" and "a < nslots i" and "b < nslots i" and "a \<noteq> b"
  shows "unat (q + of_nat a) mod nslots i \<noteq> unat ((q::u32) + of_nat b) mod nslots i"
proof -
  have "is_power_of_two (ring_size i)" using assms(1) by (simp add: ring_wf_def)
  then show ?thesis
    using mod_window_inj[of a "nslots i" b "unat q"] assms by (auto simp: mod_wrap_add)
qed

lemma slot_addr_mod_cong:
  assumes "ring_wf i" and "unat x mod nslots i = unat y mod nslots i"
  shows "slot_addr sz i x = slot_addr sz i y"
proof -
  have "unat (x AND ring_mask i) = unat (y AND ring_mask i)"
    using assms by (simp add: masked_index)
  then have "x AND ring_mask i = y AND ring_mask i" by (rule unsigned_word_eqI)
  then show ?thesis by (simp only: slot_addr_def)
qed

lemma unat_slot_addr:
  assumes "ring_wf i" and "fits (slots_region sz i)"
  shows "unat (slot_addr sz i idx) = unat (ring_ptr i) + sz * (unat idx mod nslots i)"
    and "unat (ring_ptr i) + sz * (unat idx mod nslots i) + sz \<le> unat (ring_ptr i) + sz * nslots i"
proof -
  let ?n = "unat idx mod nslots i"
  have "?n < nslots i" using nslots_bounds[OF assms(1)] by simp
  then have "sz * ?n + sz \<le> sz * nslots i"
    by (metis Suc_leI mult_Suc_right mult_le_mono2 add.commute)
  then show le: "unat (ring_ptr i) + sz * ?n + sz \<le> unat (ring_ptr i) + sz * nslots i" by simp
  show "unat (slot_addr sz i idx) = unat (ring_ptr i) + sz * ?n"
  proof (cases "sz = 0")
    case True
    then show ?thesis by (simp add: slot_addr_def)
  next
    case False
    have "unat (ucast (idx AND ring_mask i) :: u64) = ?n"
      using masked_index[OF assms(1), of idx] by simp
    then have "(ucast (idx AND ring_mask i) :: u64) = word_of_nat ?n"
      by (metis of_nat_unat ucast_id)
    then have "slot_addr sz i idx = ring_ptr i + word_of_nat (sz * ?n)"
      by (simp add: slot_addr_def)
    moreover have "unat (ring_ptr i) + sz * ?n < 2 ^ 64"
      using le False assms(2) by (simp add: fits_def slots_region_def)
    ultimately show ?thesis by (simp only: unat_offset)
  qed
qed

lemma slot_within:
  assumes "ring_wf i" and "fits (slots_region sz i)"
  shows "within (slot_addr sz i idx, sz) (slots_region sz i)"
  using unat_slot_addr[OF assms, of idx] by (simp add: within_def slots_region_def)

lemma slot_fits:
  "ring_wf i \<Longrightarrow> fits (slots_region sz i) \<Longrightarrow> fits (slot_addr sz i idx, sz)"
  using fits_within slot_within by blast

lemma slots_apart:
  assumes "ring_wf i" and "fits (slots_region sz i)"
    and "unat x mod nslots i \<noteq> unat y mod nslots i"
  shows "apart (slot_addr sz i x, sz) (slot_addr sz i y, sz)"
proof -
  have *: "sz * a + sz \<le> sz * b" if "a < b" for a b :: nat
    using that by (metis Suc_leI mult_Suc_right mult_le_mono2 add.commute)
  show ?thesis
  proof (cases "unat x mod nslots i < unat y mod nslots i")
    case True
    with *[OF True] show ?thesis by (simp add: apart_def unat_slot_addr[OF assms(1,2)])
  next
    case False
    with assms(3) have "unat y mod nslots i < unat x mod nslots i" by simp
    with *[OF this] show ?thesis by (simp add: apart_def unat_slot_addr[OF assms(1,2)])
  qed
qed

lemma ring_layoutD:
  assumes "ring_layout sz i"
  shows "fits (producer i, 4)" "fits (consumer i, 4)" "fits (flags_ptr i, 4)"
    "fits (slots_region sz i)"
    "apart (producer i, 4) (consumer i, 4)" "apart (consumer i, 4) (producer i, 4)"
    "apart (producer i, 4) (slots_region sz i)" "apart (consumer i, 4) (slots_region sz i)"
    "apart (slots_region sz i) (producer i, 4)" "apart (slots_region sz i) (consumer i, 4)"
    "apart (flags_ptr i, 4) (producer i, 4)" "apart (flags_ptr i, 4) (consumer i, 4)"
    "apart (producer i, 4) (flags_ptr i, 4)" "apart (consumer i, 4) (flags_ptr i, 4)"
    "apart (slots_region sz i) (flags_ptr i, 4)"
  using assms by (auto simp: ring_layout_def intro: apart_sym)

lemma heads_apart_slot:
  assumes "ring_wf i" and "ring_layout sz i"
  shows "apart (producer i, 4) (slot_addr sz i x, sz)"
    and "apart (consumer i, 4) (slot_addr sz i x, sz)"
    and "apart (slot_addr sz i x, sz) (producer i, 4)"
    and "apart (slot_addr sz i x, sz) (consumer i, 4)"
    and "apart (slot_addr sz i x, sz) (flags_ptr i, 4)"
  using ring_layoutD[OF assms(2)] slot_within[OF assms(1) ring_layoutD(4)[OF assms(2)], of x]
  by (blast intro: apart_within within_refl)+

subsection \<open>The contents of a run of slots\<close>

definition slot_at :: "(u8 list \<Rightarrow> 'a) \<Rightarrow> nat \<Rightarrow> mem \<Rightarrow> XskRing \<Rightarrow> u32 \<Rightarrow> 'a" where
  "slot_at dec sz m i idx = dec (load_bytes m (slot_addr sz i idx) sz)"

definition items :: "(u8 list \<Rightarrow> 'a) \<Rightarrow> nat \<Rightarrow> mem \<Rightarrow> XskRing \<Rightarrow> u32 \<Rightarrow> nat \<Rightarrow> 'a list" where
  "items dec sz m i start n = map (\<lambda>j. slot_at dec sz m i (start + of_nat j)) [0..<n]"

lemma length_items [simp]: "length (items dec sz m i start n) = n"
  by (simp add: items_def)

lemma items_0 [simp]: "items dec sz m i start 0 = []"
  by (simp add: items_def)

lemma items_Suc_front:
  "items dec sz m i start (Suc n) = slot_at dec sz m i start # items dec sz m i (start + 1) n"
proof -
  have "[0..<Suc n] = 0 # map Suc [0..<n]" by (simp add: upt_conv_Cons map_Suc_upt del: upt_Suc)
  then show ?thesis by (simp add: items_def add.assoc del: upt_Suc)
qed

lemma items_Suc_back:
  "items dec sz m i start (Suc n) = items dec sz m i start n @ [slot_at dec sz m i (start + of_nat n)]"
  by (simp add: items_def)

lemma items_append:
  "items dec sz m i start (n + k) = items dec sz m i start n @ items dec sz m i (start + of_nat n) k"
  by (induction k) (simp_all add: items_Suc_back add.assoc)

lemma items_cong:
  "(\<And>j. j < n \<Longrightarrow> slot_at dec sz m i (start + of_nat j) = slot_at dec sz m' i (start + of_nat j)) \<Longrightarrow>
    items dec sz m i start n = items dec sz m' i start n"
  by (simp add: items_def)

text \<open>Heads and flags can change without touching a slot.\<close>

lemma slot_at_store_head:
  assumes "ring_wf i" and "ring_layout sz i" and "a = producer i \<or> a = consumer i \<or> a = flags_ptr i"
  shows "slot_at dec sz (store_u32 m a v) i x = slot_at dec sz m i x"
proof -
  have "fits (slot_addr sz i x, sz)"
    using assms(1) ring_layoutD(4)[OF assms(2)] by (rule slot_fits)
  moreover have "apart (slot_addr sz i x, sz) (a, 4)" and "fits (a, 4)"
    using heads_apart_slot[OF assms(1,2)] ring_layoutD[OF assms(2)] assms(3) by auto
  ultimately show ?thesis by (simp add: slot_at_def load_bytes_store_u32)
qed

lemma items_store_head:
  assumes "ring_wf i" and "ring_layout sz i" and "a = producer i \<or> a = consumer i \<or> a = flags_ptr i"
  shows "items dec sz (store_u32 m a v) i start n = items dec sz m i start n"
  by (rule items_cong) (rule slot_at_store_head[OF assms])

text \<open>A write through an index: read back there, invisible elsewhere within one ring length.\<close>

context slot_data begin

lemma slot_at_write: "slot_at dec sz (store_bytes m (slot_addr sz i x) (enc v)) i x = v"
  by (simp add: slot_at_def load_stored)

lemma slot_at_write_other:
  assumes "ring_wf i" and "ring_layout sz i" and "unat x mod nslots i \<noteq> unat y mod nslots i"
  shows "slot_at dec sz (store_bytes m (slot_addr sz i x) (enc v)) i y = slot_at dec sz m i y"
proof -
  note f = ring_layoutD(4)[OF assms(2)]
  have "apart (slot_addr sz i y, sz) (slot_addr sz i x, sz)"
    using assms f by (intro slots_apart) auto
  then show ?thesis
    using slot_fits[OF assms(1) f] by (simp add: slot_at_def load_other)
qed

lemma head_write:
  assumes "ring_wf i" and "ring_layout sz i"
  shows "load_u32 (store_bytes m (slot_addr sz i x) (enc v)) (producer i) = load_u32 m (producer i)"
    and "load_u32 (store_bytes m (slot_addr sz i x) (enc v)) (consumer i) = load_u32 m (consumer i)"
  using heads_apart_slot[OF assms] ring_layoutD[OF assms(2)]
    slot_fits[OF assms(1) ring_layoutD(4)[OF assms(2)]]
  by (auto intro!: load_u32_other)

lemma items_write_behind:
  assumes "ring_wf i" and "ring_layout sz i" and "n \<le> k" and "k < nslots i"
  shows "items dec sz (store_bytes m (slot_addr sz i (start + of_nat k)) (enc v)) i start n =
    items dec sz m i start n"
proof (rule items_cong)
  fix j assume "j < n"
  with assms have "unat (start + of_nat k) mod nslots i \<noteq> unat (start + of_nat j) mod nslots i"
    by (intro index_window) auto
  then show "slot_at dec sz (store_bytes m (slot_addr sz i (start + of_nat k)) (enc v)) i
      (start + of_nat j) = slot_at dec sz m i (start + of_nat j)"
    using assms(1,2) by (intro slot_at_write_other)
qed

lemma items_write_next:
  assumes "ring_wf i" and "ring_layout sz i" and "n < nslots i"
  shows "items dec sz (store_bytes m (slot_addr sz i (start + of_nat n)) (enc v)) i start (Suc n) =
    items dec sz m i start n @ [v]"
  using items_write_behind[OF assms(1,2) order.refl assms(3)]
  by (simp add: items_Suc_back slot_at_write)

end

subsection \<open>A concrete ring\<close>

text \<open>
  Four slots in a page at 4096, used by the witnesses: its heads can be put anywhere on the circle.
\<close>

definition sample_ring :: "u32 \<Rightarrow> u32 \<Rightarrow> XskRing" where
  "sample_ring p c = \<lparr>cached_producer = p, cached_consumer = c, ring_mask = 3, ring_size = 4,
     producer = 4096, consumer = 4160, ring_ptr = 4288, flags_ptr = 4224\<rparr>"

definition sample_mem :: "u32 \<Rightarrow> u32 \<Rightarrow> mem" where
  "sample_mem p c = store_u32 (store_u32 (\<lambda>_. 0) 4096 p) 4160 c"

definition sample_offsets :: XdpRingOffsets where
  "sample_offsets = \<lparr>off_producer = 0, off_consumer = 64, off_desc = 192, off_flags = 128\<rparr>"

lemma sample_ring_sel [simp]:
  "cached_producer (sample_ring p c) = p" "cached_consumer (sample_ring p c) = c"
  "ring_size (sample_ring p c) = 4" "ring_mask (sample_ring p c) = 3"
  "producer (sample_ring p c) = 4096" "consumer (sample_ring p c) = 4160"
  by (simp_all add: sample_ring_def)

lemma pow2_4 [simp]: "is_power_of_two 4"
  unfolding is_power_of_two_iff by (rule exI[of _ 2]) simp

lemma sample_ring_wf [simp]: "ring_wf (sample_ring p c)"
  by (simp add: ring_wf_def)

lemma sample_layout [simp]:
  "ring_layout 8 (sample_ring p c)" "ring_layout 16 (sample_ring p c)"
  by (simp_all add: ring_layout_def sample_ring_def fits_def apart_def slots_region_def)

lemma sample_mem_heads [simp]:
  "load_u32 (sample_mem p c) 4096 = p" "load_u32 (sample_mem p c) 4160 = c"
  by (simp_all add: sample_mem_def load_u32_store_u32 apart_def fits_def)

lemma sample_new: "XskRing_new pf (sample_mem p c) 4096 sample_offsets 4 = Inr (sample_ring p c)"
  by (simp add: XskRing_new_def Let_def sample_offsets_def sample_ring_def sub_chk_fits)

end
