(* ===== verification/Producer.thy ===== *)
theory Producer
  imports Slots
begin

text \<open>
  The producer side (fill and transmit rings): its invariant, what each operation does to it in
  both build profiles, and the ring as a queue.  Going round the circle from the (lagging) view of
  the kernel's consumer one finds, within one ring length: the kernel's consumer, the committed
  producer, the reserved producer.
\<close>

definition prod_inv :: "mem \<Rightarrow> XskRing \<Rightarrow> bool" where
  "prod_inv m i \<longleftrightarrow> ring_wf i \<and>
     (let b = cached_consumer i - ring_size i in
        cdist b (kcons m i) \<le> cdist b (kprod m i) \<and>
        cdist b (kprod m i) \<le> cdist b (cached_producer i) \<and>
        cdist b (cached_producer i) \<le> nslots i)"

text \<open>Committed and not yet consumed, reserved and not yet committed, and truly free slots.\<close>

definition in_flight :: "mem \<Rightarrow> XskRing \<Rightarrow> nat" where
  "in_flight m i = cdist (kcons m i) (kprod m i)"

definition staged :: "mem \<Rightarrow> XskRing \<Rightarrow> nat" where
  "staged m i = cdist (kprod m i) (cached_producer i)"

definition free_slots :: "mem \<Rightarrow> XskRing \<Rightarrow> nat" where
  "free_slots m i = nslots i - cdist (kcons m i) (cached_producer i)"

text \<open>
  What the kernel may do to a producer ring at any moment: consume some of what was committed.  It
  neither moves the producer head nor writes to a slot.
\<close>

definition prod_rely :: "nat \<Rightarrow> XskRing \<Rightarrow> mem \<Rightarrow> mem \<Rightarrow> bool" where
  "prod_rely sz i m m' \<longleftrightarrow>
     kprod m' i = kprod m i \<and> cdist (kcons m i) (kcons m' i) \<le> in_flight m i \<and>
     (\<forall>x. load_bytes m' (slot_addr sz i x) sz = load_bytes m (slot_addr sz i x) sz)"

lemma prod_invD:
  assumes "prod_inv m i"
  defines "b \<equiv> cached_consumer i - ring_size i"
  shows "ring_wf i" and "cdist b (kcons m i) \<le> cdist b (kprod m i)"
    and "cdist b (kprod m i) \<le> cdist b (cached_producer i)"
    and "cdist b (cached_producer i) \<le> nslots i"
  using assms by (auto simp: prod_inv_def Let_def)

lemma prod_inv_split:
  assumes "prod_inv m i"
  shows "cdist (kcons m i) (cached_producer i) = in_flight m i + staged m i"
    and "in_flight m i + staged m i \<le> nslots i"
    and "free_slots m i + in_flight m i + staged m i = nslots i"
proof -
  note inv = prod_invD[OF assms]
  have "in_flight m i + staged m i = cdist (kcons m i) (cached_producer i)"
    using inv by (simp add: in_flight_def staged_def cdist_diff[OF inv(2)] cdist_diff[OF inv(3)]
        cdist_diff[OF order.trans[OF inv(2) inv(3)]])
  moreover have "cdist (kcons m i) (cached_producer i) \<le> nslots i"
    using inv by (simp add: cdist_diff[OF order.trans[OF inv(2) inv(3)]])
  ultimately show "cdist (kcons m i) (cached_producer i) = in_flight m i + staged m i"
    and "in_flight m i + staged m i \<le> nslots i"
    and "free_slots m i + in_flight m i + staged m i = nslots i"
    by (auto simp: free_slots_def)
qed

text \<open>With an exact view of the consumer, the invariant only speaks about the heads.\<close>

lemma prod_inv_fresh_view:
  assumes "ring_wf i" and "in_flight m i + staged m i \<le> nslots i"
    and "cached_consumer i = kcons m i + ring_size i"
  shows "prod_inv m i"
proof -
  let ?c = "kcons m i"
  have "staged m i = unat (cached_producer i - kprod m i)" by (simp add: staged_def cdist_def)
  then have "cdist ?c (cached_producer i) = in_flight m i + staged m i"
    using cdist_add[of ?c "kprod m i" "cached_producer i - kprod m i"] assms(2)
      nslots_bounds[OF assms(1)] by (simp add: in_flight_def)
  with assms show ?thesis by (simp add: prod_inv_def Let_def in_flight_def)
qed

lemma prod_inv_rely:
  assumes "prod_inv m i" and "prod_rely sz i m m'"
  shows "prod_inv m' i"
proof -
  let ?b = "cached_consumer i - ring_size i"
  note inv = prod_invD[OF assms(1)]
  have "unat (kcons m' i - kcons m i) \<le> cdist ?b (kprod m i) - cdist ?b (kcons m i)"
    using assms(2) by (simp add: prod_rely_def in_flight_def cdist_diff[OF inv(2)] flip: cdist_def)
  moreover have "cdist ?b (kprod m i) < 2 ^ 32" by (rule cdist_bound)
  ultimately have "cdist ?b (kcons m' i) = cdist ?b (kcons m i) + unat (kcons m' i - kcons m i)"
    using cdist_add[of ?b "kcons m i" "kcons m' i - kcons m i"] inv(2) by simp
  then have "cdist ?b (kcons m' i) \<le> cdist ?b (kprod m i)"
    using \<open>unat (kcons m' i - kcons m i) \<le> _\<close> inv(2) by linarith
  with inv assms(2) show ?thesis by (simp add: prod_inv_def Let_def prod_rely_def)
qed

subsection \<open>Counting and reserving\<close>

lemma view_distance:
  assumes "prod_inv m i"
  shows "unat (cached_consumer i - cached_producer i) =
      nslots i - cdist (cached_consumer i - ring_size i) (cached_producer i)"
    and "unat (cached_consumer i - cached_producer i) \<le> free_slots m i"
proof -
  let ?b = "cached_consumer i - ring_size i"
  note inv = prod_invD[OF assms]
  have size: "cdist ?b (cached_consumer i) = nslots i" by (simp add: cdist_def)
  with inv(4) have le: "cdist ?b (cached_producer i) \<le> cdist ?b (cached_consumer i)" by simp
  show *: "unat (cached_consumer i - cached_producer i) = nslots i - cdist ?b (cached_producer i)"
    using cdist_diff[OF le] size by (simp add: cdist_def)
  show "unat (cached_consumer i - cached_producer i) \<le> free_slots m i"
    using inv unfolding * free_slots_def
    by (simp add: cdist_diff[OF order.trans[OF inv(2) inv(3)]])
qed

definition refreshed :: "mem \<Rightarrow> XskRing \<Rightarrow> XskRing" where
  "refreshed m i = i\<lparr>cached_consumer := kcons m i + ring_size i\<rparr>"

lemma prod_inv_refreshed:
  assumes "prod_inv m i"
  shows "prod_inv m (refreshed m i)"
    and "unat (kcons m i + ring_size i - cached_producer i) = free_slots m i"
proof -
  note inv = prod_invD[OF assms]
  have same: "in_flight m (refreshed m i) = in_flight m i" "staged m (refreshed m i) = staged m i"
    "free_slots m (refreshed m i) = free_slots m i"
    by (simp_all add: in_flight_def staged_def free_slots_def refreshed_def)
  show fresh: "prod_inv m (refreshed m i)"
    using inv(1) prod_inv_split(2)[OF assms] same
    by (intro prod_inv_fresh_view) (simp_all add: refreshed_def ring_wf_def)
  show "unat (kcons m i + ring_size i - cached_producer i) = free_slots m i"
    using view_distance(1)[OF fresh] by (simp add: refreshed_def free_slots_def)
qed

text \<open>
  In a release build \<open>count_free\<close> never over-reports, and under-reports only when its answer
  satisfies the caller; it changes nothing but the view of the consumer.
\<close>

lemma count_free_Release:
  fixes r :: RingProd
  defines "i \<equiv> prod_inner r"
  assumes "prod_inv m i"
  obtains n cc where
    "count_free Release m mininmum r = Inr (n, r\<lparr>prod_inner := i\<lparr>cached_consumer := cc\<rparr>\<rparr>)"
    and "n = cc - cached_producer i"
    and "unat n \<le> free_slots m i" and "n < mininmum \<longrightarrow> unat n = free_slots m i"
    and "prod_inv m (i\<lparr>cached_consumer := cc\<rparr>)"
proof (cases "mininmum \<le> cached_consumer i - cached_producer i")
  case True
  show thesis
    by (rule that[of "cached_consumer i - cached_producer i" "cached_consumer i"])
      (use True assms view_distance(2)[OF assms(2)] in \<open>auto simp: count_free_def Let_def\<close>)
next
  case False
  show thesis
    by (rule that[of "kcons m i + ring_size i - cached_producer i" "kcons m i + ring_size i"])
      (use False prod_inv_refreshed[OF assms(2)] in
        \<open>auto simp: count_free_def Let_def refreshed_def i_def\<close>)
qed

text \<open>A debug build computes the same whenever it does not panic.\<close>

lemma count_free_Debug_agrees:
  "count_free Debug m mininmum r = Inr x \<Longrightarrow> count_free Release m mininmum r = Inr x"
  by (auto simp: count_free_def Let_def res_simps dest!: add_chk_InrD sub_chk_InrD
      split: if_splits)

lemma reserve_Debug_agrees:
  "reserve Debug m nb idx r = Inr x \<Longrightarrow> reserve Release m nb idx r = Inr x"
  by (fastforce simp: reserve_def Let_def res_simps dest: count_free_Debug_agrees add_chk_InrD
      split: prod.splits if_splits)

text \<open>
  Moving the reserved head forward into free slots, committing some of the reserved slots, and
  giving some back.
\<close>

lemma prod_inv_advance:
  assumes "prod_inv m i"
    and "unat n \<le> unat (cached_consumer i - cached_producer i)"
  shows "prod_inv m (i\<lparr>cached_producer := cached_producer i + n\<rparr>)"
    and "staged m (i\<lparr>cached_producer := cached_producer i + n\<rparr>) = staged m i + unat n"
proof -
  let ?b = "cached_consumer i - ring_size i"
  note inv = prod_invD[OF assms(1)]
  note size = nslots_bounds[OF inv(1)]
  have le: "cdist ?b (cached_producer i) + unat n \<le> nslots i"
    using assms(2) inv(4) view_distance(1)[OF assms(1)] by simp
  then have "cdist ?b (cached_producer i + n) = cdist ?b (cached_producer i) + unat n"
    using size by (intro cdist_add) simp
  with le inv show "prod_inv m (i\<lparr>cached_producer := cached_producer i + n\<rparr>)"
    by (simp add: prod_inv_def Let_def ring_wf_def)
  have "staged m i + unat n < 2 ^ 32"
    using le inv size by (simp add: staged_def cdist_diff[OF inv(3)])
  then show "staged m (i\<lparr>cached_producer := cached_producer i + n\<rparr>) = staged m i + unat n"
    by (simp add: staged_def cdist_add)
qed

lemma prod_inv_retreat:
  assumes "prod_inv m i" and "unat n \<le> staged m i"
  shows "prod_inv m (i\<lparr>cached_producer := cached_producer i - n\<rparr>)"
    and "staged m (i\<lparr>cached_producer := cached_producer i - n\<rparr>) = staged m i - unat n"
proof -
  let ?b = "cached_consumer i - ring_size i"
  note inv = prod_invD[OF assms(1)]
  have le: "unat n \<le> cdist ?b (cached_producer i) - cdist ?b (kprod m i)"
    using assms(2) by (simp add: staged_def cdist_diff[OF inv(3)])
  then have "cdist ?b (cached_producer i - n) = cdist ?b (cached_producer i) - unat n"
    by (intro cdist_sub) simp
  with le inv show "prod_inv m (i\<lparr>cached_producer := cached_producer i - n\<rparr>)"
    by (auto simp: prod_inv_def Let_def ring_wf_def)
  show "staged m (i\<lparr>cached_producer := cached_producer i - n\<rparr>) = staged m i - unat n"
    using assms(2) by (simp add: staged_def cdist_sub)
qed

lemma prod_inv_commit:
  assumes "prod_inv m i" and "unat n \<le> staged m i" and "ring_layout sz i"
  defines "m' \<equiv> store_u32 m (producer i) (kprod m i + n)"
  shows "prod_inv m' i" and "staged m' i = staged m i - unat n"
    and "in_flight m' i = in_flight m i + unat n" and "kcons m' i = kcons m i"
proof -
  let ?b = "cached_consumer i - ring_size i"
  note inv = prod_invD[OF assms(1)] and lay = ring_layoutD[OF assms(3)]
  have p: "kprod m' i = kprod m i + n" by (simp add: m'_def)
  show c: "kcons m' i = kcons m i" using lay by (simp add: m'_def load_u32_store_u32)
  have le: "cdist ?b (kprod m i) + unat n \<le> cdist ?b (cached_producer i)"
    using assms(2) inv(3) by (simp add: staged_def cdist_diff[OF inv(3)])
  moreover have "cdist ?b (cached_producer i) < 2 ^ 32" by (rule cdist_bound)
  ultimately have add: "cdist ?b (kprod m i + n) = cdist ?b (kprod m i) + unat n"
    by (intro cdist_add) simp
  with le inv p c show "prod_inv m' i" by (simp add: prod_inv_def Let_def)
  from add le have "cdist ?b (kprod m i + n) \<le> cdist ?b (cached_producer i)" by simp
  from cdist_diff[OF this] show "staged m' i = staged m i - unat n"
    by (simp add: staged_def p add cdist_diff[OF inv(3)])
  have "cdist ?b (kcons m i) \<le> cdist ?b (kprod m i + n)" using inv(2) add by simp
  from cdist_diff[OF this] show "in_flight m' i = in_flight m i + unat n"
    using inv(2) by (simp add: in_flight_def p c add cdist_diff[OF inv(2)])
qed

subsection \<open>Reserving and giving back\<close>

lemma reserve_Release:
  fixes r :: RingProd
  defines "i \<equiv> prod_inner r"
  assumes "prod_inv m i"
  obtains n idx' cc where
    "reserve Release m (start, end1) idx r = Inr (n, idx',
       r\<lparr>prod_inner := i\<lparr>cached_consumer := cc, cached_producer := cached_producer i + n\<rparr>\<rparr>)"
    and "prod_inv m (i\<lparr>cached_consumer := cc, cached_producer := cached_producer i + n\<rparr>)"
    and "staged m (i\<lparr>cached_consumer := cc, cached_producer := cached_producer i + n\<rparr>) =
      staged m i + unat n"
    and "unat n \<le> free_slots m i" and "n \<le> end1"
    and "n \<noteq> 0 \<longrightarrow> min start end1 \<le> n \<and> idx' = cached_producer i"
    and "unat start \<le> free_slots m i \<longrightarrow> min start end1 \<le> n"
proof -
  let ?mk = "\<lambda>n cc. i\<lparr>cached_consumer := cc, cached_producer := cached_producer i + n\<rparr>"
  from assms obtain f cc where
    cf: "count_free Release m start r = Inr (f, r\<lparr>prod_inner := i\<lparr>cached_consumer := cc\<rparr>\<rparr>)"
    and f: "f = cc - cached_producer i"
    and bound: "unat f \<le> free_slots m i" and exact: "f < start \<longrightarrow> unat f = free_slots m i"
    and inv: "prod_inv m (i\<lparr>cached_consumer := cc\<rparr>)"
    using count_free_Release[of m r start] by metis
  have adv: "prod_inv m (?mk n cc)" "staged m (?mk n cc) = staged m i + unat n" if "n \<le> f" for n
    using prod_inv_advance[OF inv, of n] that f by (simp_all add: word_le_nat_alt staged_def)
  show thesis
  proof (cases "f < start")
    case True
    then have "reserve Release m (start, end1) idx r =
        Inr (0, idx, r\<lparr>prod_inner := ?mk 0 cc\<rparr>)"
      using cf by (simp add: reserve_def i_def)
    then show thesis
      using True exact adv[of 0] by (intro that[of 0 idx cc]) (auto simp: word_less_nat_alt)
  next
    case False
    then have "reserve Release m (start, end1) idx r =
        Inr (min f end1, cached_producer i, r\<lparr>prod_inner := ?mk (min f end1) cc\<rparr>)"
      using cf by (simp add: reserve_def Let_def i_def)
    moreover have "unat (min f end1) \<le> free_slots m i"
      using bound by (simp add: min_unat)
    ultimately show thesis
      using False adv[of "min f end1"]
      by (intro that[of "min f end1" "cached_producer i" cc]) (auto simp: min_def)
  qed
qed

lemma RingProd_cancel_Release [simp]:
  "RingProd_cancel Release n r =
     Inr (r\<lparr>prod_inner := (prod_inner r)\<lparr>cached_producer := cached_producer (prod_inner r) - n\<rparr>\<rparr>)"
  by (simp add: RingProd_cancel_def Let_def)

subsection \<open>The ring as a queue\<close>

text \<open>
  What the kernel has still to consume, oldest first, and what user space has written into reserved
  slots but not committed.
\<close>

definition queue :: "(u8 list \<Rightarrow> 'a) \<Rightarrow> nat \<Rightarrow> mem \<Rightarrow> XskRing \<Rightarrow> 'a list" where
  "queue dec sz m i = items dec sz m i (kcons m i) (in_flight m i)"

definition pre_queue :: "(u8 list \<Rightarrow> 'a) \<Rightarrow> nat \<Rightarrow> mem \<Rightarrow> XskRing \<Rightarrow> nat \<Rightarrow> 'a list" where
  "pre_queue dec sz m i n = items dec sz m i (kprod m i) n"

lemma kcons_in_flight: "kcons m i + of_nat (in_flight m i) = kprod m i"
  by (simp add: in_flight_def cdist_of_nat)

lemma kprod_staged: "kprod m i + of_nat (staged m i) = cached_producer i"
  by (simp add: staged_def cdist_of_nat)

lemma submit_rely:
  fixes r :: RingProd
  defines "i \<equiv> prod_inner r"
  assumes "prod_inv m i" and "ring_layout sz i" and "prod_rely sz i m (env m)"
    and "unat n \<le> staged m i"
  shows "prod_inv (submit env m n r) i"
    and "staged (submit env m n r) i = staged m i - unat n"
    and "queue dec sz (submit env m n r) i = queue dec sz (env m) i @ pre_queue dec sz m i (unat n)"
proof -
  have p: "kprod (env m) i = kprod m i" using assms(4) by (simp add: prod_rely_def)
  have inv: "prod_inv (env m) i" using assms(2,4) by (rule prod_inv_rely)
  have st: "staged (env m) i = staged m i" by (simp add: staged_def p)
  have eq: "submit env m n r = store_u32 (env m) (producer i) (kprod (env m) i + n)"
    by (simp add: submit_def Let_def p i_def[symmetric])
  have "unat n \<le> staged (env m) i" using assms(5) st by simp
  note com = prod_inv_commit[OF inv this assms(3), folded eq, unfolded st]
  show "prod_inv (submit env m n r) i" by (rule com)
  show "staged (submit env m n r) i = staged m i - unat n" by (rule com)
  have "ring_wf i" using assms(2) by (rule prod_invD)
  then have slots: "items dec sz (submit env m n r) i s k = items dec sz (env m) i s k" for s k
    unfolding eq by (rule items_store_head[OF _ assms(3)]) simp
  have "items dec sz (env m) i s k = items dec sz m i s k" for s k
    using assms(4) by (intro items_cong) (simp add: slot_at_def prod_rely_def)
  then show "queue dec sz (submit env m n r) i =
      queue dec sz (env m) i @ pre_queue dec sz m i (unat n)"
    by (simp add: queue_def pre_queue_def com(3,4) slots items_append kcons_in_flight p)
qed

text \<open>The kernel takes the oldest entry.\<close>

definition kernel_consume :: "XskRing \<Rightarrow> mem \<Rightarrow> mem" where
  "kernel_consume i m = store_u32 m (consumer i) (kcons m i + 1)"

lemma kernel_consume_rely:
  assumes "ring_wf i" and "ring_layout sz i" and "0 < in_flight m i"
  shows "prod_rely sz i m (kernel_consume i m)"
proof -
  note lay = ring_layoutD[OF assms(2)]
  have "slot_at id sz (kernel_consume i m) i x = slot_at id sz m i x" for x
    unfolding kernel_consume_def by (rule slot_at_store_head[OF assms(1,2)]) simp
  with assms lay show ?thesis
    by (simp add: prod_rely_def kernel_consume_def load_u32_store_u32 slot_at_def)
qed

lemma kernel_consume_queue:
  assumes "ring_wf i" and "ring_layout sz i" and "0 < in_flight m i"
  shows "queue dec sz m i = slot_at dec sz m i (kcons m i) # queue dec sz (kernel_consume i m) i"
    and "in_flight (kernel_consume i m) i = in_flight m i - 1"
    and "kprod (kernel_consume i m) i = kprod m i"
    and "staged (kernel_consume i m) i = staged m i"
proof -
  note lay = ring_layoutD[OF assms(2)]
  have c: "kcons (kernel_consume i m) i = kcons m i + 1" by (simp add: kernel_consume_def)
  show p: "kprod (kernel_consume i m) i = kprod m i"
    using lay by (simp add: kernel_consume_def load_u32_store_u32)
  show "staged (kernel_consume i m) i = staged m i" by (simp add: staged_def p)
  have "cdist (kcons m i) (kcons m i + 1) \<le> cdist (kcons m i) (kprod m i)"
    using assms(3) by (simp add: in_flight_def)
  from cdist_diff[OF this] show less: "in_flight (kernel_consume i m) i = in_flight m i - 1"
    by (simp add: in_flight_def c p)
  have "items dec sz (kernel_consume i m) i s k = items dec sz m i s k" for s k
    unfolding kernel_consume_def by (rule items_store_head[OF assms(1,2)]) simp
  then show "queue dec sz m i =
      slot_at dec sz m i (kcons m i) # queue dec sz (kernel_consume i m) i"
    using items_Suc_front[of dec sz m i "kcons m i" "in_flight m i - 1"] assms(3)
    by (simp add: queue_def less c)
qed

subsection \<open>Properties\<close>

text \<open>
  C22. Reserving in a release build always returns, keeps the ring invariant, never hands out more
  slots than the kernel has really freed nor more than the upper bound of the request, and hands
  out the lower bound whenever that many slots are free.
\<close>

theorem reserve_sound:
  assumes "prod_inv m (prod_inner r)"
  shows "\<exists>n idx' r'. reserve Release m (start, end1) idx r = Inr (n, idx', r') \<and>
    prod_inv m (prod_inner r') \<and> unat n \<le> free_slots m (prod_inner r) \<and> n \<le> end1 \<and>
    (n = 0 \<or> min start end1 \<le> n \<and> idx' = cached_producer (prod_inner r)) \<and>
    (free_slots m (prod_inner r) < unat start \<or> min start end1 \<le> n) \<and>
    staged m (prod_inner r') = staged m (prod_inner r) + unat n"
  by (rule reserve_Release[OF assms, of start end1 idx]) (auto simp: not_less)

lemma sample_prod_inv [simp]:
  "prod_inv (sample_mem 1 4294967294) (sample_ring 1 2)"
  by (simp add: prod_inv_def Let_def cdist_def)

theorem reserve_sound_witness:
  "\<exists>n idx' r'. reserve Release (sample_mem 1 4294967294) (1, 8) 0
      \<lparr>prod_inner = sample_ring 1 2, prod_mmap_addr = (4096, 224)\<rparr> = Inr (n, idx', r') \<and>
    prod_inv (sample_mem 1 4294967294) (prod_inner r') \<and> n \<le> 8"
proof -
  have "prod_inv (sample_mem 1 4294967294)
      (prod_inner \<lparr>prod_inner = sample_ring 1 2, prod_mmap_addr = (4096, 224)\<rparr>)" by simp
  from reserve_sound[OF this, of 1 8 0] show ?thesis by blast
qed

text \<open>
  The slots a reservation hands out lie inside the ring's mapping and overlap no slot that the
  kernel may still read (committed) or that is reserved already, and neither head.
\<close>

theorem reserve_disjoint:
  fixes r :: RingProd
  assumes "prod_inv m (prod_inner r)" and "ring_layout sz (prod_inner r)"
    and "reserve Release m (start, end1) idx r = Inr (n, idx', r')"
    and "j < unat n" and "k < in_flight m (prod_inner r) + staged m (prod_inner r)"
  shows "apart (slot_addr sz (prod_inner r) (idx' + of_nat j), sz)
           (slot_addr sz (prod_inner r) (kcons m (prod_inner r) + of_nat k), sz) \<and>
    within (slot_addr sz (prod_inner r) (idx' + of_nat j), sz) (slots_region sz (prod_inner r)) \<and>
    apart (slot_addr sz (prod_inner r) (idx' + of_nat j), sz) (producer (prod_inner r), 4) \<and>
    apart (slot_addr sz (prod_inner r) (idx' + of_nat j), sz) (consumer (prod_inner r), 4)"
proof -
  let ?i = "prod_inner r"
  have wf: "ring_wf ?i" using assms(1) by (rule prod_invD)
  note split = prod_inv_split[OF assms(1)]
  from assms(3,4) have idx: "idx' = cached_producer ?i" and n: "unat n \<le> free_slots m ?i"
    by (auto intro: reserve_Release[OF assms(1), of start end1 idx])
  have new: "idx' + of_nat j = kcons m ?i + of_nat (in_flight m ?i + staged m ?i + j)"
    using kcons_in_flight[of m ?i] kprod_staged[of m ?i] idx by (simp add: add.assoc[symmetric])
  have "unat (idx' + of_nat j) mod nslots ?i \<noteq> unat (kcons m ?i + of_nat k) mod nslots ?i"
    unfolding new using assms(4,5) n split by (intro index_window[OF wf]) auto
  with slots_apart[OF wf ring_layoutD(4)[OF assms(2)]] show ?thesis
    using slot_within[OF wf ring_layoutD(4)[OF assms(2)]] heads_apart_slot[OF wf assms(2)] by blast
qed

theorem reserve_disjoint_witness:
  "apart (slot_addr 16 (sample_ring 1 2) 1, 16) (slot_addr 16 (sample_ring 1 2) (4294967294 + 2), 16)"
proof -
  let ?r = "\<lparr>prod_inner = sample_ring 1 2, prod_mmap_addr = (4096, 224)\<rparr>"
  let ?m = "sample_mem 1 4294967294"
  have inv: "prod_inv ?m (prod_inner ?r)" and lay: "ring_layout 16 (prod_inner ?r)" by simp_all
  have res: "reserve Release ?m (1, 8) 0 ?r =
      Inr (1, 1, ?r\<lparr>prod_inner := sample_ring 2 2\<rparr>)"
    by (simp add: reserve_def count_free_def Let_def sample_ring_def)
  have "2 < in_flight ?m (prod_inner ?r) + staged ?m (prod_inner ?r)"
    by (simp add: in_flight_def staged_def cdist_def)
  from reserve_disjoint[OF inv lay res _ this, of 0] show ?thesis by simp
qed

text \<open>
  C20. Committing \<open>n\<close> of the staged slots while the kernel is consuming appends exactly their
  contents, in order, to what the kernel has still to consume, and keeps the invariant.
\<close>

theorem submit_appends:
  assumes "prod_inv m (prod_inner r)" and "ring_layout sz (prod_inner r)"
    and "prod_rely sz (prod_inner r) m (env m)" and "unat n \<le> staged m (prod_inner r)"
  shows "queue dec sz (submit env m n r) (prod_inner r) =
      queue dec sz (env m) (prod_inner r) @ pre_queue dec sz m (prod_inner r) (unat n) \<and>
    prod_inv (submit env m n r) (prod_inner r) \<and>
    staged (submit env m n r) (prod_inner r) = staged m (prod_inner r) - unat n"
  using submit_rely[of m r sz env n, OF assms] by simp

theorem submit_appends_witness:
  "let r = \<lparr>prod_inner = sample_ring 2 2, prod_mmap_addr = (4096, 224)\<rparr>;
       m = sample_mem 1 4294967294; env = kernel_consume (sample_ring 2 2)
   in queue dec_desc 16 (submit env m 1 r) (prod_inner r) =
        queue dec_desc 16 (env m) (prod_inner r) @ pre_queue dec_desc 16 m (prod_inner r) 1 \<and>
      in_flight (env m) (prod_inner r) = 2"
proof -
  let ?r = "\<lparr>prod_inner = sample_ring 2 2, prod_mmap_addr = (4096, 224)\<rparr>"
  let ?m = "sample_mem 1 4294967294"
  have inv: "prod_inv ?m (prod_inner ?r)" by (simp add: prod_inv_def Let_def cdist_def)
  have lay: "ring_layout 16 (prod_inner ?r)" by simp
  have fl: "in_flight ?m (sample_ring 2 2) = 3" by (simp add: in_flight_def cdist_def)
  have rely: "prod_rely 16 (prod_inner ?r) ?m (kernel_consume (sample_ring 2 2) ?m)"
    using kernel_consume_rely[of "sample_ring 2 2" 16 ?m] fl by simp
  have "unat (1 :: u32) \<le> staged ?m (prod_inner ?r)" by (simp add: staged_def cdist_def)
  from submit_appends[where dec = dec_desc and env = "kernel_consume (sample_ring 2 2)", OF inv lay rely this]
  show ?thesis using kernel_consume_queue(2)[of "sample_ring 2 2" 16 ?m] fl by (simp add: Let_def)
qed

text \<open>
  C28. A build with overflow checks panics in \<open>count_free\<close> exactly when it has to refresh its view
  while the kernel's consumer head is within one ring length of \<open>2^32\<close>; otherwise it agrees with
  the release build.  The heads are meant to wrap around, so such a build stops working there.
\<close>

theorem count_free_debug_panics:
  assumes "prod_inv m (prod_inner r)"
  shows "count_free Debug m mininmum r =
    (if cached_consumer (prod_inner r) - cached_producer (prod_inner r) < mininmum \<and>
        2 ^ 32 \<le> unat (kcons m (prod_inner r)) + nslots (prod_inner r)
     then Inl ArithOverflow else count_free Release m mininmum r)"
proof -
  let ?i = "prod_inner r"
  have "cached_producer ?i \<le> kcons m ?i + ring_size ?i"
    if "unat (kcons m ?i) + nslots ?i < 2 ^ 32"
  proof -
    have sum: "unat (kcons m ?i + ring_size ?i) = unat (kcons m ?i) + nslots ?i"
      using that by (simp add: unat_add_lem[symmetric])
    have d: "unat (cached_producer ?i - kcons m ?i) \<le> nslots ?i"
      using prod_inv_split(1,2)[OF assms] by (simp add: cdist_def)
    have "unat (kcons m ?i + (cached_producer ?i - kcons m ?i)) =
        unat (kcons m ?i) + unat (cached_producer ?i - kcons m ?i)"
      using that d unat_add_lem[of "kcons m ?i" "cached_producer ?i - kcons m ?i"] by simp
    then have "unat (cached_producer ?i) \<le> unat (kcons m ?i) + nslots ?i" using d by simp
    then show ?thesis using sum by (simp add: word_le_nat_alt)
  qed
  then show ?thesis
    by (cases "unat (kcons m ?i) + nslots ?i < 2 ^ 32")
      (auto simp: count_free_def Let_def add_chk_def sub_chk_def not_le not_less)
qed

theorem count_free_debug_panics_witness:
  "count_free Debug (sample_mem 4294967295 4294967295) 1
     \<lparr>prod_inner = sample_ring 4294967295 4294967295, prod_mmap_addr = (4096, 224)\<rparr> =
   Inl ArithOverflow"
proof -
  let ?r = "\<lparr>prod_inner = sample_ring 4294967295 4294967295, prod_mmap_addr = (4096, 224)\<rparr>"
  have "prod_inv (sample_mem 4294967295 4294967295) (prod_inner ?r)"
    by (simp add: prod_inv_def Let_def cdist_def)
  from count_free_debug_panics[OF this, of 1] show ?thesis by simp
qed

text \<open>
  A producer ring mapped over existing heads satisfies the invariant exactly when nothing
  committed is waiting to be consumed.
\<close>

theorem fresh_producer_inv:
  assumes "XskRing_new pf m tx_map off count = Inr i" and "is_power_of_two count"
    and "in_flight m i \<le> unat count"
  shows "prod_inv m i \<longleftrightarrow> in_flight m i = 0"
proof -
  from assms(1) have i: "ring_size i = count" "ring_mask i = count - 1"
    "cached_producer i = kprod m i" "cached_consumer i = kcons m i"
    by (auto simp: XskRing_new_def Let_def res_simps dest!: sub_chk_InrD split: if_splits)
  then have wf: "ring_wf i" using assms(2) by (simp add: ring_wf_def)
  let ?b = "kcons m i - count"
  have c: "cdist ?b (kcons m i) = unat count" by (simp add: cdist_def)
  have "cdist ?b (kprod m i) = unat (count + (kprod m i - kcons m i))"
    unfolding cdist_def by (rule arg_cong[where f = unat]) simp
  then have p: "cdist ?b (kprod m i) = (unat count + in_flight m i) mod 2 ^ 32"
    by (simp add: in_flight_def cdist_def unat_word_ariths(1))
  show ?thesis
  proof (cases "unat count + in_flight m i < 2 ^ 32")
    case True
    with c p wf i show ?thesis by (auto simp: prod_inv_def Let_def)
  next
    case False
    then have "unat count + in_flight m i = 2 ^ 32"
      using nslots_bounds[OF wf] i assms(3) by simp
    with c p i nslots_bounds[OF wf] assms(3) show ?thesis by (auto simp: prod_inv_def Let_def)
  qed
qed

theorem fresh_producer_inv_witness:
  "prod_inv (sample_mem 7 7) (sample_ring 7 7) \<and> \<not> prod_inv (sample_mem 8 7) (sample_ring 8 7)"
  using fresh_producer_inv[OF sample_new[of Release 7 7]]
    fresh_producer_inv[OF sample_new[of Release 8 7]]
  by (simp add: in_flight_def cdist_def)

text \<open>
  C27. Mapping a transmit or fill ring a second time, while entries wait to be consumed, gives a
  handle that reports almost \<open>2^32\<close> free slots, in either build profile: more than the ring has.
\<close>

theorem remapped_ring_overcommits:
  assumes "XskRing_new pf m tx_map off count = Inr i" and "unat count < 2 ^ 31"
    and "0 < in_flight m i" and "in_flight m i \<le> unat count"
    and "prod_inner r = i" and "unat start \<le> 2 ^ 31"
  shows "count_free pf' m start r = Inr (kcons m i - kprod m i, r) \<and>
    unat (kcons m i - kprod m i) = 2 ^ 32 - in_flight m i \<and>
    nslots i < unat (kcons m i - kprod m i)"
proof -
  from assms(1) have i: "ring_size i = count" "cached_producer i = kprod m i"
    "cached_consumer i = kcons m i"
    by (auto simp: XskRing_new_def Let_def res_simps split: if_splits)
  have "unat (0 - (kprod m i - kcons m i)) = 2 ^ 32 - unat (kprod m i - kcons m i)"
    using assms(3) by (subst unat_sub_if_size) (auto simp: in_flight_def cdist_def word_size)
  then have n: "unat (kcons m i - kprod m i) = 2 ^ 32 - in_flight m i"
    by (simp add: in_flight_def cdist_def)
  with assms(2,4,6) i(1) have "nslots i < unat (kcons m i - kprod m i)"
    and "unat start \<le> unat (kcons m i - kprod m i)" by simp_all
  with n i assms(5) show ?thesis
    by (simp add: count_free_def Let_def word_le_nat_alt)
qed

theorem remapped_ring_overcommits_witness:
  "count_free Release (sample_mem 9 7) 1 \<lparr>prod_inner = sample_ring 9 7, prod_mmap_addr = (4096, 224)\<rparr> =
     Inr (4294967294, \<lparr>prod_inner = sample_ring 9 7, prod_mmap_addr = (4096, 224)\<rparr>) \<and>
   nslots (sample_ring 9 7) < unat (4294967294 :: u32)"
  using remapped_ring_overcommits[OF sample_new[of Release 9 7],
      of "\<lparr>prod_inner = sample_ring 9 7, prod_mmap_addr = (4096, 224)\<rparr>" 1 Release]
  by (simp add: in_flight_def cdist_def)

end
