(* ===== verification/Consumer.thy ===== *)
theory Consumer
  imports Producer
begin

text \<open>
  The consumer side (completion and receive rings).  Going round the circle from the committed
  consumer head one finds, within one ring length: the consumer's own head, its (lagging) view of
  the kernel's producer, the kernel's producer.
\<close>

definition cons_inv :: "mem \<Rightarrow> XskRing \<Rightarrow> bool" where
  "cons_inv m i \<longleftrightarrow> ring_wf i \<and>
     (let b = kcons m i in
        cdist b (cached_consumer i) \<le> cdist b (cached_producer i) \<and>
        cdist b (cached_producer i) \<le> cdist b (kprod m i) \<and>
        cdist b (kprod m i) \<le> nslots i)"

text \<open>Taken and not yet released; produced and not yet taken.\<close>

definition taken :: "mem \<Rightarrow> XskRing \<Rightarrow> nat" where
  "taken m i = cdist (kcons m i) (cached_consumer i)"

definition avail :: "mem \<Rightarrow> XskRing \<Rightarrow> nat" where
  "avail m i = cdist (cached_consumer i) (kprod m i)"

text \<open>
  What the kernel may do to a consumer ring: produce into free slots.  It moves neither the consumer
  head nor touches what it has produced already.
\<close>

definition cons_rely :: "nat \<Rightarrow> XskRing \<Rightarrow> mem \<Rightarrow> mem \<Rightarrow> bool" where
  "cons_rely sz i m m' \<longleftrightarrow>
     kcons m' i = kcons m i \<and> in_flight m i \<le> in_flight m' i \<and> in_flight m' i \<le> nslots i \<and>
     (\<forall>j<in_flight m i. load_bytes m' (slot_addr sz i (kcons m i + of_nat j)) sz =
        load_bytes m (slot_addr sz i (kcons m i + of_nat j)) sz)"

lemma cons_invD:
  assumes "cons_inv m i"
  shows "ring_wf i" and "cdist (kcons m i) (cached_consumer i) \<le> cdist (kcons m i) (cached_producer i)"
    and "cdist (kcons m i) (cached_producer i) \<le> in_flight m i" and "in_flight m i \<le> nslots i"
  using assms by (auto simp: cons_inv_def Let_def in_flight_def)

lemma cons_inv_split:
  assumes "cons_inv m i"
  shows "in_flight m i = taken m i + avail m i" and "taken m i + avail m i \<le> nslots i"
proof -
  note inv = cons_invD[OF assms]
  have "cdist (kcons m i) (cached_consumer i) \<le> cdist (kcons m i) (kprod m i)"
    using inv by (simp add: in_flight_def)
  from cdist_diff[OF this] this show "in_flight m i = taken m i + avail m i"
    by (simp add: in_flight_def taken_def avail_def)
  with inv show "taken m i + avail m i \<le> nslots i" by simp
qed

lemma cons_rely_refl: "cons_inv m i \<Longrightarrow> cons_rely sz i m m"
  using cons_invD(4) by (auto simp: cons_rely_def)

lemma cons_inv_rely: "cons_inv m i \<Longrightarrow> cons_rely sz i m m' \<Longrightarrow> cons_inv m' i"
  by (auto simp: cons_inv_def cons_rely_def Let_def in_flight_def)

lemma avail_rely:
  assumes "cons_inv m i" and "cons_rely sz i m m'"
  shows "taken m' i = taken m i" and "avail m i \<le> avail m' i"
proof -
  show "taken m' i = taken m i" using assms(2) by (simp add: taken_def cons_rely_def)
  then show "avail m i \<le> avail m' i"
    using cons_inv_split(1)[OF assms(1)] cons_inv_split(1)[OF cons_inv_rely[OF assms]] assms(2)
    by (simp add: cons_rely_def)
qed

lemma cons_inv_view:
  assumes "cons_inv m i" and "unat n \<le> avail m i"
    and "unat n \<le> cdist (cached_consumer i) cp" and "cdist (cached_consumer i) cp \<le> avail m i"
  shows "cons_inv m (i\<lparr>cached_producer := cp, cached_consumer := cached_consumer i + n\<rparr>)"
    and "taken m (i\<lparr>cached_producer := cp, cached_consumer := cached_consumer i + n\<rparr>) =
      taken m i + unat n"
proof -
  let ?b = "kcons m i"
  note inv = cons_invD[OF assms(1)] and split = cons_inv_split[OF assms(1)]
  note size = nslots_bounds[OF inv(1)]
  have cp: "cdist ?b cp = taken m i + cdist (cached_consumer i) cp"
    using cdist_add[of ?b "cached_consumer i" "cp - cached_consumer i"] assms(4) split size
    by (simp add: taken_def flip: cdist_def)
  have n: "cdist ?b (cached_consumer i + n) = taken m i + unat n"
    using cdist_add[of ?b "cached_consumer i" n] assms(2) split size by (simp add: taken_def)
  show "cons_inv m (i\<lparr>cached_producer := cp, cached_consumer := cached_consumer i + n\<rparr>)"
    using inv assms cp n split by (auto simp: cons_inv_def Let_def in_flight_def ring_wf_def)
  show "taken m (i\<lparr>cached_producer := cp, cached_consumer := cached_consumer i + n\<rparr>) =
      taken m i + unat n"
    using n by (simp add: taken_def)
qed

lemma cached_avail:
  assumes "cons_inv m i"
  shows "unat (cached_producer i - cached_consumer i) = cdist (cached_consumer i) (cached_producer i)"
    and "cdist (cached_consumer i) (cached_producer i) \<le> avail m i"
proof -
  note inv = cons_invD[OF assms]
  show "unat (cached_producer i - cached_consumer i) = cdist (cached_consumer i) (cached_producer i)"
    by (simp add: cdist_def)
  show "cdist (cached_consumer i) (cached_producer i) \<le> avail m i"
    using inv cons_inv_split(1)[OF assms] by (simp add: cdist_diff[OF inv(2)] taken_def)
qed

subsection \<open>Counting and taking\<close>

text \<open>
  The count comes from the first load and the cached view from the second, later one; the count
  never exceeds what the view, or the truth at the first load, allows.
\<close>

lemma count_available_rely:
  fixes r :: RingCons
  defines "i \<equiv> cons_inner r"
  assumes "cons_inv m i" and "cons_rely sz i m (env m)"
  obtains n cp m' where
    "count_available env m expected r = (n, r\<lparr>cons_inner := i\<lparr>cached_producer := cp\<rparr>\<rparr>, m')"
    and "m' = m \<or> m' = env m" and "unat n \<le> avail m i"
    and "unat n \<le> cdist (cached_consumer i) cp" and "cdist (cached_consumer i) cp \<le> avail m' i"
    and "n < expected \<longrightarrow> unat n = avail m i"
proof (cases "cached_producer i - cached_consumer i < expected")
  case True
  show thesis
    by (rule that[of "kprod m i - cached_consumer i" "kprod (env m) i" "env m"])
      (use True avail_rely(2)[OF assms(2,3)] in
        \<open>auto simp: count_available_def Let_def i_def avail_def cdist_def\<close>)
next
  case False
  show thesis
    by (rule that[of "cached_producer i - cached_consumer i" "cached_producer i" m])
      (use False cached_avail[OF assms(2)] in
        \<open>auto simp: count_available_def Let_def i_def cdist_def\<close>)
qed

lemma peek_Release:
  fixes r :: RingCons
  defines "i \<equiv> cons_inner r"
  assumes "cons_inv m i" and "cons_rely sz i m (env m)"
  obtains n idx' cp m' where
    "peek Release env m (start, end1) idx r = Inr (n, idx',
       r\<lparr>cons_inner := i\<lparr>cached_producer := cp, cached_consumer := cached_consumer i + n\<rparr>\<rparr>, m')"
    and "m' = m \<or> m' = env m"
    and "cons_inv m' (i\<lparr>cached_producer := cp, cached_consumer := cached_consumer i + n\<rparr>)"
    and "taken m' (i\<lparr>cached_producer := cp, cached_consumer := cached_consumer i + n\<rparr>) =
      taken m i + unat n"
    and "unat n \<le> avail m i" and "n \<le> end1"
    and "n \<noteq> 0 \<longrightarrow> min start end1 \<le> n \<and> idx' = cached_consumer i"
    and "unat start \<le> avail m i \<longrightarrow> min start end1 \<le> n"
proof -
  let ?mk = "\<lambda>n cp. i\<lparr>cached_producer := cp, cached_consumer := cached_consumer i + n\<rparr>"
  obtain f cp m' where
    ca: "count_available env m start r = (f, r\<lparr>cons_inner := i\<lparr>cached_producer := cp\<rparr>\<rparr>, m')"
    and m': "m' = m \<or> m' = env m" and f: "unat f \<le> avail m i"
    and fcp: "unat f \<le> cdist (cached_consumer i) cp"
    and cp: "cdist (cached_consumer i) cp \<le> avail m' i"
    and exact: "f < start \<longrightarrow> unat f = avail m i"
    using count_available_rely[of m r sz env start] assms by metis
  have inv': "cons_inv m' i" and tk: "taken m' i = taken m i" and av: "avail m i \<le> avail m' i"
    using m' assms(2) cons_inv_rely[OF assms(2,3)] avail_rely[OF assms(2,3)] by auto
  have adv: "cons_inv m' (?mk n cp)" "taken m' (?mk n cp) = taken m i + unat n"
    if "unat n \<le> unat f" for n
    using cons_inv_view[OF inv', of n cp] that fcp cp f av tk by auto
  show thesis
  proof (cases "f < start")
    case True
    then have "peek Release env m (start, end1) idx r =
        Inr (0, idx, r\<lparr>cons_inner := ?mk 0 cp\<rparr>, m')"
      using ca by (simp add: peek_def i_def)
    then show thesis
      using True exact m' adv[of 0] by (intro that[of 0 idx cp m']) (auto simp: word_less_nat_alt)
  next
    case False
    then have "peek Release env m (start, end1) idx r =
        Inr (min f end1, cached_consumer i, r\<lparr>cons_inner := ?mk (min f end1) cp\<rparr>, m')"
      using ca by (simp add: peek_def Let_def i_def)
    moreover have "unat (min f end1) \<le> avail m i" "unat (min f end1) \<le> unat f"
      using f by (simp_all add: min_unat)
    ultimately show thesis
      using False m' adv[of "min f end1"]
      by (intro that[of "min f end1" "cached_consumer i" cp m']) (auto simp: min_def)
  qed
qed

lemma peek_Debug_agrees:
  "peek Debug env m nb idx r = Inr x \<Longrightarrow> peek Release env m nb idx r = Inr x"
  by (fastforce simp: peek_def Let_def res_simps dest: add_chk_InrD
      split: prod.splits if_splits)

lemma RingCons_cancel_Release [simp]:
  "RingCons_cancel Release n r =
     Inr (r\<lparr>cons_inner := (cons_inner r)\<lparr>cached_consumer := cached_consumer (cons_inner r) - n\<rparr>\<rparr>)"
  by (simp add: RingCons_cancel_def Let_def)

lemma cons_inv_retreat:
  assumes "cons_inv m i" and "unat n \<le> taken m i"
  shows "cons_inv m (i\<lparr>cached_consumer := cached_consumer i - n\<rparr>)"
    and "taken m (i\<lparr>cached_consumer := cached_consumer i - n\<rparr>) = taken m i - unat n"
proof -
  note inv = cons_invD[OF assms(1)]
  have "cdist (kcons m i) (cached_consumer i - n) = cdist (kcons m i) (cached_consumer i) - unat n"
    using assms(2) by (intro cdist_sub) (simp add: taken_def)
  with inv show "cons_inv m (i\<lparr>cached_consumer := cached_consumer i - n\<rparr>)"
    and "taken m (i\<lparr>cached_consumer := cached_consumer i - n\<rparr>) = taken m i - unat n"
    by (auto simp: cons_inv_def Let_def taken_def in_flight_def ring_wf_def)
qed

subsection \<open>Releasing\<close>

lemma cons_inv_release:
  assumes "cons_inv m i" and "unat n \<le> taken m i" and "ring_layout sz i"
  defines "m' \<equiv> store_u32 m (consumer i) (kcons m i + n)"
  shows "cons_inv m' i" and "taken m' i = taken m i - unat n"
    and "in_flight m' i = in_flight m i - unat n" and "kcons m' i = kcons m i + n"
    and "kprod m' i = kprod m i"
proof -
  let ?b = "kcons m i"
  note inv = cons_invD[OF assms(1)] and lay = ring_layoutD[OF assms(3)]
    and split = cons_inv_split[OF assms(1)]
  show c: "kcons m' i = kcons m i + n" by (simp add: m'_def)
  show p: "kprod m' i = kprod m i" using lay by (simp add: m'_def load_u32_store_u32)
  have n: "cdist ?b (?b + n) = unat n" by simp
  have d: "cdist (?b + n) x = cdist ?b x - unat n" if "unat n \<le> cdist ?b x" for x
    using cdist_diff[of ?b "?b + n" x] that by simp
  have "unat n \<le> cdist ?b (cached_consumer i)" "unat n \<le> cdist ?b (cached_producer i)"
    "unat n \<le> cdist ?b (kprod m i)"
    using assms(2) inv by (simp_all add: taken_def in_flight_def)
  with inv d show "cons_inv m' i" and "taken m' i = taken m i - unat n"
    and "in_flight m' i = in_flight m i - unat n"
    by (auto simp: cons_inv_def Let_def taken_def in_flight_def c p)
qed

lemma release_rely:
  fixes r :: RingCons
  defines "i \<equiv> cons_inner r"
  assumes "cons_inv m i" and "ring_layout sz i" and "cons_rely sz i m (env m)"
    and "unat n \<le> taken m i"
  shows "cons_inv (release env m n r) i"
    and "taken (release env m n r) i = taken m i - unat n"
    and "queue dec sz (env m) i =
      items dec sz m i (kcons m i) (unat n) @ queue dec sz (release env m n r) i"
    and "in_flight (release env m n r) i = in_flight (env m) i - unat n"
    and "kcons (release env m n r) i = kcons m i + n"
proof -
  have c: "kcons (env m) i = kcons m i" using assms(4) by (simp add: cons_rely_def)
  have inv: "cons_inv (env m) i" using assms(2,4) by (rule cons_inv_rely)
  have tk: "taken (env m) i = taken m i" using assms(2,4) by (rule avail_rely)
  have eq: "release env m n r = store_u32 (env m) (consumer i) (kcons (env m) i + n)"
    by (simp add: release_def Let_def c i_def[symmetric])
  have "unat n \<le> taken (env m) i" using assms(5) tk by simp
  note rel = cons_inv_release[OF inv this assms(3), folded eq, unfolded tk c]
  show "cons_inv (release env m n r) i" "taken (release env m n r) i = taken m i - unat n"
    "in_flight (release env m n r) i = in_flight (env m) i - unat n"
    "kcons (release env m n r) i = kcons m i + n"
    by (fact rel)+
  have wf: "ring_wf i" using assms(2) by (rule cons_invD)
  have "items dec sz (release env m n r) i s k = items dec sz (env m) i s k" for s k
    unfolding eq by (rule items_store_head[OF wf assms(3)]) simp
  moreover have "unat n \<le> in_flight m i"
    using assms(5) cons_inv_split(1)[OF assms(2)] by simp
  then have "items dec sz (env m) i (kcons m i) (unat n) = items dec sz m i (kcons m i) (unat n)"
    using assms(4) by (intro items_cong) (simp add: slot_at_def cons_rely_def)
  moreover have "in_flight (env m) i = unat n + (in_flight (env m) i - unat n)"
    using assms(5) tk cons_inv_split(1)[OF inv] by simp
  ultimately show "queue dec sz (env m) i =
      items dec sz m i (kcons m i) (unat n) @ queue dec sz (release env m n r) i"
    using items_append[of dec sz "env m" i "kcons m i" "unat n" "in_flight (env m) i - unat n"]
    by (simp add: queue_def rel(3,4) c)
qed

text \<open>The kernel writes an entry behind the last one it produced and then moves its head.\<close>

definition kernel_produce :: "('a \<Rightarrow> u8 list) \<Rightarrow> nat \<Rightarrow> XskRing \<Rightarrow> 'a \<Rightarrow> mem \<Rightarrow> mem" where
  "kernel_produce enc sz i x m =
     store_u32 (store_bytes m (slot_addr sz i (kprod m i)) (enc x)) (producer i) (kprod m i + 1)"

context slot_data begin

lemma kernel_produce_heads:
  assumes "ring_wf i" and "ring_layout sz i"
  shows "kprod (kernel_produce enc sz i x m) i = kprod m i + 1"
    and "kcons (kernel_produce enc sz i x m) i = kcons m i"
  using ring_layoutD[OF assms(2)] head_write[OF assms]
  by (simp_all add: kernel_produce_def load_u32_store_u32)

lemma kernel_produce_queue:
  assumes "ring_wf i" and "ring_layout sz i" and "in_flight m i < nslots i"
  shows "in_flight (kernel_produce enc sz i x m) i = Suc (in_flight m i)"
    and "queue dec sz (kernel_produce enc sz i x m) i = queue dec sz m i @ [x]"
    and "items dec sz (kernel_produce enc sz i x m) i (kcons m i) (in_flight m i) = queue dec sz m i"
proof -
  let ?m = "store_bytes m (slot_addr sz i (kprod m i)) (enc x)"
  note heads = kernel_produce_heads[OF assms(1,2)]
  have size: "nslots i \<le> 2 ^ 31" using assms(1) by (rule nslots_bounds)
  show len: "in_flight (kernel_produce enc sz i x m) i = Suc (in_flight m i)"
    using cdist_step[of "kcons m i" "kprod m i"] assms(3) size
    by (simp add: in_flight_def heads)
  have "items dec sz (kernel_produce enc sz i x m) i s n = items dec sz ?m i s n" for s n
    unfolding kernel_produce_def by (rule items_store_head[OF assms(1,2)]) simp
  then show "queue dec sz (kernel_produce enc sz i x m) i = queue dec sz m i @ [x]"
    and "items dec sz (kernel_produce enc sz i x m) i (kcons m i) (in_flight m i) = queue dec sz m i"
    using items_write_next[OF assms, of m "kcons m i" x]
      items_write_behind[OF assms(1,2) order.refl assms(3), of m "kcons m i" x]
    by (simp_all add: queue_def len heads kcons_in_flight)
qed

lemma kernel_produce_rely:
  assumes "ring_wf i" and "ring_layout sz i" and "in_flight m i < nslots i"
  shows "cons_rely sz i m (kernel_produce enc sz i x m)"
proof -
  let ?m = "store_bytes m (slot_addr sz i (kprod m i)) (enc x)"
  have "load_bytes (kernel_produce enc sz i x m) (slot_addr sz i (kcons m i + of_nat j)) sz =
      load_bytes m (slot_addr sz i (kcons m i + of_nat j)) sz" if "j < in_flight m i" for j
  proof -
    have "slot_at id sz (kernel_produce enc sz i x m) i (kcons m i + of_nat j) =
        slot_at id sz ?m i (kcons m i + of_nat j)"
      unfolding kernel_produce_def by (rule slot_at_store_head[OF assms(1,2)]) simp
    moreover have "unat (kprod m i) mod nslots i \<noteq> unat (kcons m i + of_nat j) mod nslots i"
      using index_window[OF assms(1,3), of j "kcons m i"] that assms(3) by (simp add: kcons_in_flight)
    from slots_apart[OF assms(1) ring_layoutD(4)[OF assms(2)] this[symmetric]]
    have "load_bytes ?m (slot_addr sz i (kcons m i + of_nat j)) sz =
        load_bytes m (slot_addr sz i (kcons m i + of_nat j)) sz"
      using slot_fits[OF assms(1) ring_layoutD(4)[OF assms(2)]] by (intro load_other)
    ultimately show ?thesis by (simp add: slot_at_def)
  qed
  with assms(3) show ?thesis
    by (simp add: cons_rely_def kernel_produce_heads[OF assms(1,2)] kernel_produce_queue(1)[OF assms])
qed

end

subsection \<open>Properties\<close>

text \<open>
  Counting the available entries of a receive or completion ring never over-reports, although the
  kernel may produce between the two loads of its head: the count is at most what had been produced,
  equals it whenever it falls short of the request, and is covered by the cached view it leaves.
\<close>

theorem count_available_sound:
  assumes "cons_inv m (cons_inner r)" and "cons_rely sz (cons_inner r) m (env m)"
    and "count_available env m expected r = (n, r', m')"
  shows "cons_inv m' (cons_inner r') \<and> unat n \<le> avail m (cons_inner r) \<and>
    (expected \<le> n \<or> unat n = avail m (cons_inner r)) \<and>
    unat n \<le> cdist (cached_consumer (cons_inner r')) (cached_producer (cons_inner r')) \<and>
    cached_consumer (cons_inner r') = cached_consumer (cons_inner r)"
proof -
  let ?i = "cons_inner r"
  obtain cp where r': "r' = r\<lparr>cons_inner := ?i\<lparr>cached_producer := cp\<rparr>\<rparr>"
    and m': "m' = m \<or> m' = env m" and n: "unat n \<le> avail m ?i"
    and ncp: "unat n \<le> cdist (cached_consumer ?i) cp"
    and cp: "cdist (cached_consumer ?i) cp \<le> avail m' ?i"
    and exact: "n < expected \<longrightarrow> unat n = avail m ?i"
    using count_available_rely[of m r sz env expected] assms by (metis prod.inject)
  have "cons_inv m' ?i" using m' assms(1) cons_inv_rely[OF assms(1,2)] by auto
  from cons_inv_view(1)[OF this, of 0 cp] cp have "cons_inv m' (?i\<lparr>cached_producer := cp\<rparr>)"
    by (simp add: cons_inv_def ring_wf_def)
  with r' n ncp exact show ?thesis by (auto simp: not_less)
qed

lemma sample_cons_inv [simp]: "cons_inv (sample_mem 1 4294967294) (sample_ring 0 4294967295)"
  by (simp add: cons_inv_def Let_def cdist_def)

lemma sample_cons_rely:
  "cons_rely 16 (sample_ring 0 4294967295) (sample_mem 1 4294967294)
     (kernel_produce enc_desc 16 (sample_ring 0 4294967295) d (sample_mem 1 4294967294))"
  by (rule desc_slot.kernel_produce_rely) (simp_all add: in_flight_def cdist_def)

theorem count_available_sound_witness:
  "\<exists>n r' m'. count_available
     (kernel_produce enc_desc 16 (sample_ring 0 4294967295) \<lparr>desc_addr = 0, desc_len = 64, desc_options = 0\<rparr>)
     (sample_mem 1 4294967294) 2
     \<lparr>cons_inner = sample_ring 0 4294967295, cons_mmap_addr = (4096, 224)\<rparr> = (n, r', m') \<and>
    cons_inv m' (cons_inner r') \<and> unat n \<le> 2"
proof -
  let ?r = "\<lparr>cons_inner = sample_ring 0 4294967295, cons_mmap_addr = (4096, 224)\<rparr>"
  let ?env = "kernel_produce enc_desc 16 (sample_ring 0 4294967295)
      \<lparr>desc_addr = 0, desc_len = 64, desc_options = 0\<rparr>"
  obtain n r' m' where
    res: "count_available ?env (sample_mem 1 4294967294) 2 ?r = (n, r', m')" by (metis surj_pair)
  have "cons_inv (sample_mem 1 4294967294) (cons_inner ?r)" by simp
  moreover have "cons_rely 16 (cons_inner ?r) (sample_mem 1 4294967294)
      (?env (sample_mem 1 4294967294))" using sample_cons_rely by simp
  moreover have "avail (sample_mem 1 4294967294) (cons_inner ?r) = 2"
    by (simp add: avail_def cdist_def)
  ultimately show ?thesis using count_available_sound[of _ ?r 16 ?env 2 n r' m'] res by fastforce
qed

text \<open>
  C23. Taking entries in a release build always returns, keeps the invariant whatever the kernel
  produces meanwhile, takes no more than was produced or asked for, and takes the lower bound
  whenever that much is available.
\<close>

theorem peek_sound:
  assumes "cons_inv m (cons_inner r)" and "cons_rely sz (cons_inner r) m (env m)"
  shows "\<exists>n idx' r' m'. peek Release env m (start, end1) idx r = Inr (n, idx', r', m') \<and>
    cons_inv m' (cons_inner r') \<and> unat n \<le> avail m (cons_inner r) \<and> n \<le> end1 \<and>
    (n = 0 \<or> min start end1 \<le> n \<and> idx' = cached_consumer (cons_inner r)) \<and>
    (avail m (cons_inner r) < unat start \<or> min start end1 \<le> n) \<and>
    taken m' (cons_inner r') = taken m (cons_inner r) + unat n"
  by (rule peek_Release[of m r sz env start end1 idx, OF assms]) (auto simp: not_less)

theorem peek_sound_witness:
  "\<exists>n idx' r' m'. peek Release
     (kernel_produce enc_desc 16 (sample_ring 0 4294967295) \<lparr>desc_addr = 0, desc_len = 64, desc_options = 0\<rparr>)
     (sample_mem 1 4294967294) (1, 8) 0
     \<lparr>cons_inner = sample_ring 0 4294967295, cons_mmap_addr = (4096, 224)\<rparr> = Inr (n, idx', r', m') \<and>
    cons_inv m' (cons_inner r') \<and> 1 \<le> n \<and> idx' = 4294967295"
proof -
  let ?r = "\<lparr>cons_inner = sample_ring 0 4294967295, cons_mmap_addr = (4096, 224)\<rparr>"
  have inv: "cons_inv (sample_mem 1 4294967294) (cons_inner ?r)" by simp
  have av: "avail (sample_mem 1 4294967294) (cons_inner ?r) = 2" by (simp add: avail_def cdist_def)
  let ?env = "kernel_produce enc_desc 16 (sample_ring 0 4294967295)
      \<lparr>desc_addr = 0, desc_len = 64, desc_options = 0\<rparr>"
  have "cons_rely 16 (cons_inner ?r) (sample_mem 1 4294967294) (?env (sample_mem 1 4294967294))"
    using sample_cons_rely by simp
  from peek_sound[where env = ?env, OF inv this, of 1 8 0] av show ?thesis by (fastforce simp: min_def)
qed

text \<open>
  C21. Releasing \<open>n\<close> of the taken entries while the kernel is producing removes exactly the oldest
  \<open>n\<close> entries from what the ring holds, and keeps the invariant.
\<close>

theorem release_removes:
  assumes "cons_inv m (cons_inner r)" and "ring_layout sz (cons_inner r)"
    and "cons_rely sz (cons_inner r) m (env m)" and "unat n \<le> taken m (cons_inner r)"
  shows "queue dec sz (release env m n r) (cons_inner r) =
      drop (unat n) (queue dec sz (env m) (cons_inner r)) \<and>
    cons_inv (release env m n r) (cons_inner r) \<and>
    taken (release env m n r) (cons_inner r) = taken m (cons_inner r) - unat n"
  using release_rely(1,2)[of m r sz env n, OF assms] release_rely(3)[of m r sz env n dec, OF assms]
  by simp

theorem release_removes_witness:
  "let r = \<lparr>cons_inner = sample_ring 0 4294967295, cons_mmap_addr = (4096, 224)\<rparr>;
       m = sample_mem 1 4294967294;
       env = kernel_produce enc_desc 16 (sample_ring 0 4294967295)
               \<lparr>desc_addr = 0, desc_len = 64, desc_options = 0\<rparr>
   in queue dec_desc 16 (release env m 1 r) (cons_inner r) =
        drop 1 (queue dec_desc 16 (env m) (cons_inner r)) \<and>
      cons_inv (release env m 1 r) (cons_inner r)"
proof -
  let ?r = "\<lparr>cons_inner = sample_ring 0 4294967295, cons_mmap_addr = (4096, 224)\<rparr>"
  have inv: "cons_inv (sample_mem 1 4294967294) (cons_inner ?r)"
    and lay: "ring_layout 16 (cons_inner ?r)" by simp_all
  let ?env = "kernel_produce enc_desc 16 (sample_ring 0 4294967295)
      \<lparr>desc_addr = 0, desc_len = 64, desc_options = 0\<rparr>"
  have rely: "cons_rely 16 (cons_inner ?r) (sample_mem 1 4294967294) (?env (sample_mem 1 4294967294))"
    using sample_cons_rely by simp
  have "unat (1 :: u32) \<le> taken (sample_mem 1 4294967294) (cons_inner ?r)"
    by (simp add: taken_def cdist_def)
  from release_removes[where dec = dec_desc and env = ?env, OF inv lay rely this] show ?thesis
    by (simp add: Let_def)
qed

text \<open>
  A consumer ring may be mapped over any heads the kernel can have left: it always satisfies the
  invariant, with everything in the ring available.
\<close>

theorem fresh_consumer_inv:
  assumes "XskRing_new pf m tx_map off count = Inr i" and "is_power_of_two count"
    and "in_flight m i \<le> unat count"
  shows "cons_inv m i \<and> avail m i = in_flight m i \<and> taken m i = 0"
proof -
  from assms(1) have "ring_size i = count" "ring_mask i = count - 1"
    "cached_producer i = kprod m i" "cached_consumer i = kcons m i"
    by (auto simp: XskRing_new_def Let_def res_simps dest!: sub_chk_InrD split: if_splits)
  with assms(2,3) show ?thesis
    by (simp add: cons_inv_def Let_def ring_wf_def avail_def taken_def in_flight_def)
qed

theorem fresh_consumer_inv_witness: "cons_inv (sample_mem 8 7) (sample_ring 8 7)"
  using fresh_consumer_inv[OF sample_new[of Release 8 7]] by (simp add: in_flight_def cdist_def)

end
