(* ===== verification/Cursor.thy ===== *)
theory Cursor
  imports Consumer
begin

text \<open>
  \<open>BufIdxIter\<close> (\<open>src/xsk/user.rs\<close>): the cursor over a run of reserved or taken slots that every
  reader and writer of a ring is built on.  \<open>buffers\<close> counts the slots held, \<open>remain\<close> those not yet
  used, \<open>base\<close> is the index of the next one.
\<close>

record BufIdxIter =
  it_base :: BufIdx
  it_buffers :: u32
  it_remain :: u32

definition BufIdxIter_next :: "BufIdxIter \<Rightarrow> BufIdx option \<times> BufIdxIter" where
  "BufIdxIter_next it =
     (case checked_sub (it_remain it) 1 of
        None \<Rightarrow> (None, it)
      | Some next1 \<Rightarrow> (Some (it_base it), it\<lparr>it_remain := next1, it_base := it_base it + 1\<rparr>))"

definition BufIdxIter_peek ::
  "profile \<Rightarrow> env \<Rightarrow> mem \<Rightarrow> RingCons \<Rightarrow> u32 \<Rightarrow> (BufIdxIter \<times> RingCons \<times> mem) res" where
  "BufIdxIter_peek pf env m q n =
     rbind (peek pf env m (1, n) 0 q) (\<lambda>(buffers, base, q1, m1).
       Inr (\<lparr>it_base = base, it_buffers = buffers, it_remain = buffers\<rparr>, q1, m1))"

definition BufIdxIter_reserve ::
  "profile \<Rightarrow> mem \<Rightarrow> RingProd \<Rightarrow> u32 \<Rightarrow> (BufIdxIter \<times> RingProd) res" where
  "BufIdxIter_reserve pf m q n =
     rbind (reserve pf m (1, n) 0 q) (\<lambda>(buffers, base, q1).
       Inr (\<lparr>it_base = base, it_buffers = buffers, it_remain = buffers\<rparr>, q1))"

text \<open>
  Committing publishes what was used and then moves the cursor.  The store to shared memory comes
  before the cursor's own arithmetic, so it has happened even where that panics.
\<close>

definition commit_prod ::
  "profile \<Rightarrow> env \<Rightarrow> mem \<Rightarrow> BufIdxIter \<Rightarrow> RingProd \<Rightarrow> BufIdxIter res \<times> mem" where
  "commit_prod pf env m it q =
     (if 0 < it_buffers it
      then case sub_chk pf (it_buffers it) (it_remain it) of
             Inl e \<Rightarrow> (Inl e, m)
           | Inr count \<Rightarrow>
               (rbind (sub_chk pf (it_buffers it) count) (\<lambda>buffers.
                rbind (add_chk pf (it_base it) count) (\<lambda>base.
                  Inr (it\<lparr>it_buffers := buffers, it_base := base\<rparr>))),
                submit env m count q)
      else (Inr it, m))"

definition release_cons ::
  "profile \<Rightarrow> env \<Rightarrow> mem \<Rightarrow> BufIdxIter \<Rightarrow> RingCons \<Rightarrow> BufIdxIter res \<times> mem" where
  "release_cons pf env m it q =
     (if 0 < it_buffers it
      then case sub_chk pf (it_buffers it) (it_remain it) of
             Inl e \<Rightarrow> (Inl e, m)
           | Inr count \<Rightarrow>
               (rbind (sub_chk pf (it_buffers it) count) (\<lambda>buffers.
                rbind (add_chk pf (it_base it) count) (\<lambda>base.
                  Inr (it\<lparr>it_buffers := buffers, it_base := base\<rparr>))),
                release env m count q)
      else (Inr it, m))"

text \<open>
  The loop \<open>for (item, bufidx) in it.zip(self.idx.by_ref())\<close>, shared by the two writers.  \<open>zip\<close>
  asks the items first: the item it got when the cursor turns out to be empty is lost.
\<close>

fun insert_loop ::
  "('a \<Rightarrow> u8 list) \<Rightarrow> (BufIdx \<Rightarrow> u64) \<Rightarrow> mem \<Rightarrow> BufIdxIter \<Rightarrow> u32 \<Rightarrow> 'a list \<Rightarrow>
     u32 \<times> 'a list \<times> BufIdxIter \<times> mem" where
  "insert_loop enc addr m it n [] = (n, [], it, m)"
| "insert_loop enc addr m it n (x # xs) =
     (case BufIdxIter_next it of
        (None, it1) \<Rightarrow> (n, xs, it1, m)
      | (Some bufidx, it1) \<Rightarrow>
          insert_loop enc addr (store_bytes m (addr bufidx) (enc x)) it1 (n + 1) xs)"

subsection \<open>The cursor's own laws\<close>

definition cursor_ok :: "BufIdxIter \<Rightarrow> bool" where
  "cursor_ok it \<longleftrightarrow> it_remain it \<le> it_buffers it"

lemma next_None [simp]: "it_remain it = 0 \<Longrightarrow> BufIdxIter_next it = (None, it)"
  by (simp add: BufIdxIter_next_def checked_sub_def)

lemma next_Some [simp]:
  "it_remain it \<noteq> 0 \<Longrightarrow> BufIdxIter_next it =
    (Some (it_base it), it\<lparr>it_remain := it_remain it - 1, it_base := it_base it + 1\<rparr>)"
  by (auto simp: BufIdxIter_next_def checked_sub_def word_less_nat_alt unsigned_eq_0_iff)

lemma commit_prod_Release:
  "commit_prod Release env m it q =
    (if it_buffers it = 0 then (Inr it, m)
     else (Inr (it\<lparr>it_buffers := it_remain it, it_base := it_base it + (it_buffers it - it_remain it)\<rparr>),
           submit env m (it_buffers it - it_remain it) q))"
  by (simp add: commit_prod_def word_neq_0_conv[symmetric])

lemma release_cons_Release:
  "release_cons Release env m it q =
    (if it_buffers it = 0 then (Inr it, m)
     else (Inr (it\<lparr>it_buffers := it_remain it, it_base := it_base it + (it_buffers it - it_remain it)\<rparr>),
           release env m (it_buffers it - it_remain it) q))"
  by (simp add: release_cons_def word_neq_0_conv[symmetric])

lemma unat_pred:
  assumes "w \<noteq> (0 :: u32)"
  shows "unat (w - 1) = unat w - 1"
proof -
  have "0 < unat w" using assms by (simp add: unat_gt_0)
  then have "1 \<le> w" by (simp add: word_le_nat_alt)
  from unat_sub[OF this] show ?thesis by simp
qed

text \<open>The loop as a whole: how far it gets, what it loses, and the run of stores it makes.\<close>

fun write_run :: "('a \<Rightarrow> u8 list) \<Rightarrow> (BufIdx \<Rightarrow> u64) \<Rightarrow> mem \<Rightarrow> BufIdx \<Rightarrow> 'a list \<Rightarrow> mem" where
  "write_run enc addr m b [] = m"
| "write_run enc addr m b (x # xs) = write_run enc addr (store_bytes m (addr b) (enc x)) (b + 1) xs"

definition used :: "BufIdxIter \<Rightarrow> 'a list \<Rightarrow> nat" where
  "used it xs = min (length xs) (unat (it_remain it))"

definition moved :: "BufIdxIter \<Rightarrow> nat \<Rightarrow> BufIdxIter" where
  "moved it k = it\<lparr>it_remain := it_remain it - of_nat k, it_base := it_base it + of_nat k\<rparr>"

lemma moved_sel [simp]:
  "it_base (moved it k) = it_base it + of_nat k"
  "it_buffers (moved it k) = it_buffers it"
  "it_remain (moved it k) = it_remain it - of_nat k"
  by (simp_all add: moved_def)

lemma moved_0 [simp]: "moved it 0 = it"
  by (simp add: moved_def)

lemma insert_loop_eq:
  "insert_loop enc addr m it n xs =
    (n + of_nat (used it xs), drop (Suc (used it xs)) xs, moved it (used it xs),
     write_run enc addr m (it_base it) (take (used it xs) xs))"
proof (induction xs arbitrary: m it n)
  case Nil
  show ?case by (simp add: used_def)
next
  case (Cons x xs)
  show ?case
  proof (cases "it_remain it = 0")
    case True
    then show ?thesis by (simp add: used_def)
  next
    case False
    let ?it = "it\<lparr>it_remain := it_remain it - 1, it_base := it_base it + 1\<rparr>"
    have "0 < unat (it_remain it)" using False by (simp add: unat_gt_0)
    then have "used it (x # xs) = Suc (used ?it xs)"
      using unat_pred[OF False] by (simp add: used_def flip: min_Suc_Suc)
    moreover have "moved ?it k = moved it (Suc k)" for k
      by (simp add: moved_def algebra_simps)
    ultimately show ?thesis using Cons[of _ ?it] False by (simp add: algebra_simps)
  qed
qed

lemma used_le: "used it xs \<le> length xs" "used it xs \<le> unat (it_remain it)"
  by (simp_all add: used_def)

lemma remain_moved:
  "k \<le> unat (it_remain it) \<Longrightarrow> unat (it_remain (moved it k)) = unat (it_remain it) - k"
proof -
  assume k: "k \<le> unat (it_remain it)"
  then have nat: "unat (of_nat k :: u32) = k"
    using unat_u32[of "it_remain it"] by (simp add: unat_of_nat)
  then have "(of_nat k :: u32) \<le> it_remain it" using k by (simp add: word_le_nat_alt)
  from unat_sub[OF this] show ?thesis by (simp add: nat)
qed

context slot_data begin

lemma write_run_items:
  assumes "ring_wf i" and "ring_layout sz i" and "n + length xs \<le> nslots i"
  shows "items dec sz (write_run enc (slot_addr sz i) m (s + of_nat n) xs) i s (n + length xs) =
      items dec sz m i s n @ xs \<and>
    load_u32 (write_run enc (slot_addr sz i) m (s + of_nat n) xs) (producer i) =
      load_u32 m (producer i) \<and>
    load_u32 (write_run enc (slot_addr sz i) m (s + of_nat n) xs) (consumer i) =
      load_u32 m (consumer i)"
  using assms(3)
proof (induction xs arbitrary: m n)
  case Nil
  then show ?case by simp
next
  case (Cons x xs)
  let ?m = "store_bytes m (slot_addr sz i (s + of_nat n)) (enc x)"
  have next1: "s + of_nat n + 1 = s + of_nat (Suc n)" by simp
  from Cons.prems have n: "n < nslots i" "Suc n + length xs \<le> nslots i" by simp_all
  have "items dec sz ?m i s (Suc n) = items dec sz m i s n @ [x]"
    using n(1) by (rule items_write_next[OF assms(1,2)])
  with Cons.IH[OF n(2), of ?m] show ?case
    by (simp add: next1 head_write[OF assms(1,2)] del: of_nat_Suc)
qed

end

end
