(* ===== verification/User.thy ===== *)
theory User
  imports Cursor Xsk
begin

text \<open>
  The readers and writers of the four rings (\<open>src/xsk/user.rs\<close>).  A proxy borrows its ring
  exclusively while it lives: it carries the ring, and its \<open>drop\<close> gives the ring back.  Items that an
  \<open>insert\<close> is fed are a list; what is left of the list afterwards is part of the result.
\<close>

subsection \<open>The proxies\<close>

record WriteFill =
  wf_idx :: BufIdxIter
  wf_queue :: RingProd

record ReadComplete =
  rc_idx :: BufIdxIter
  rc_queue :: RingCons

record WriteTx =
  wt_idx :: BufIdxIter
  wt_queue :: RingProd

record ReadRx =
  rr_idx :: BufIdxIter
  rr_queue :: RingCons

subsection \<open>\<open>DeviceQueue\<close>\<close>

definition DeviceQueue_fill :: "profile \<Rightarrow> mem \<Rightarrow> DeviceQueue \<Rightarrow> u32 \<Rightarrow> WriteFill res" where
  "DeviceQueue_fill pf m dq max1 =
     rbind (BufIdxIter_reserve pf m (fcq_prod (dq_fcq dq)) max1) (\<lambda>(it, q).
       Inr \<lparr>wf_idx = it, wf_queue = q\<rparr>)"

definition DeviceQueue_complete ::
  "profile \<Rightarrow> env \<Rightarrow> mem \<Rightarrow> DeviceQueue \<Rightarrow> u32 \<Rightarrow> (ReadComplete \<times> mem) res" where
  "DeviceQueue_complete pf env m dq n =
     rbind (BufIdxIter_peek pf env m (fcq_cons (dq_fcq dq)) n) (\<lambda>(it, q, m1).
       Inr (\<lparr>rc_idx = it, rc_queue = q\<rparr>, m1))"

definition DeviceQueue_available :: "env \<Rightarrow> mem \<Rightarrow> DeviceQueue \<Rightarrow> u32" where
  "DeviceQueue_available env m dq = RingCons_count_pending env m (fcq_cons (dq_fcq dq))"

definition DeviceQueue_pending :: "env \<Rightarrow> mem \<Rightarrow> DeviceQueue \<Rightarrow> u32" where
  "DeviceQueue_pending env m dq = RingProd_count_pending env m (fcq_prod (dq_fcq dq))"

definition XDP_RING_NEED_WAKEUP :: u32 where
  "XDP_RING_NEED_WAKEUP = push_bit 0 1"

definition DeviceQueue_needs_wakeup :: "mem \<Rightarrow> DeviceQueue \<Rightarrow> bool" where
  "DeviceQueue_needs_wakeup m dq \<longleftrightarrow>
     RingProd_check_flags m (fcq_prod (dq_fcq dq)) AND XDP_RING_NEED_WAKEUP \<noteq> 0"

definition DeviceQueue_as_raw_fd :: "'k proc \<Rightarrow> DeviceQueue \<Rightarrow> c_int" where
  "DeviceQueue_as_raw_fd p dq = arc_get p (sock_fd (dq_socket dq))"

definition DeviceQueue_wake :: "'k libc \<Rightarrow> DeviceQueue \<Rightarrow> 'k proc \<Rightarrow> 'k proc" where
  "DeviceQueue_wake S dq p =
     p\<lparr>os := snd (sys_poll S (arc_get p (sock_fd (dq_socket dq))) 0 0 (os p))\<rparr>"

subsection \<open>\<open>RingRx\<close> and \<open>RingTx\<close>\<close>

definition RingRx_receive :: "profile \<Rightarrow> env \<Rightarrow> mem \<Rightarrow> RingRx \<Rightarrow> u32 \<Rightarrow> (ReadRx \<times> mem) res" where
  "RingRx_receive pf env m rx n =
     rbind (BufIdxIter_peek pf env m (rx_ring rx) n) (\<lambda>(it, q, m1).
       Inr (\<lparr>rr_idx = it, rr_queue = q\<rparr>, m1))"

definition RingRx_available :: "env \<Rightarrow> mem \<Rightarrow> RingRx \<Rightarrow> u32" where
  "RingRx_available env m rx = RingCons_count_pending env m (rx_ring rx)"

definition RingRx_as_raw_fd :: "'k proc \<Rightarrow> RingRx \<Rightarrow> c_int" where
  "RingRx_as_raw_fd p rx = arc_get p (rx_fd rx)"

definition RingTx_transmit :: "profile \<Rightarrow> mem \<Rightarrow> RingTx \<Rightarrow> u32 \<Rightarrow> WriteTx res" where
  "RingTx_transmit pf m tx n =
     rbind (BufIdxIter_reserve pf m (tx_ring tx) n) (\<lambda>(it, q).
       Inr \<lparr>wt_idx = it, wt_queue = q\<rparr>)"

definition RingTx_pending :: "env \<Rightarrow> mem \<Rightarrow> RingTx \<Rightarrow> u32" where
  "RingTx_pending env m tx = RingProd_count_pending env m (tx_ring tx)"

definition RingTx_needs_wakeup :: "mem \<Rightarrow> RingTx \<Rightarrow> bool" where
  "RingTx_needs_wakeup m tx \<longleftrightarrow>
     RingProd_check_flags m (tx_ring tx) AND XDP_RING_NEED_WAKEUP \<noteq> 0"

definition RingTx_wake :: "'k libc \<Rightarrow> RingTx \<Rightarrow> 'k proc \<Rightarrow> 'k proc" where
  "RingTx_wake S tx p = p\<lparr>os := snd (sys_sendto S (arc_get p (tx_fd tx)) [] MSG_DONTWAIT (os p))\<rparr>"

definition RingTx_as_raw_fd :: "'k proc \<Rightarrow> RingTx \<Rightarrow> c_int" where
  "RingTx_as_raw_fd p tx = arc_get p (tx_fd tx)"

subsection \<open>Writers\<close>

definition WriteFill_capacity :: "WriteFill \<Rightarrow> u32" where
  "WriteFill_capacity w = it_buffers (wf_idx w)"

definition WriteFill_insert ::
  "mem \<Rightarrow> WriteFill \<Rightarrow> u64 list \<Rightarrow> u32 \<times> u64 list \<times> WriteFill \<times> mem" where
  "WriteFill_insert m w xs =
     (case insert_loop enc_u64 (fill_addr (wf_queue w)) m (wf_idx w) 0 xs of
        (n, rest, it, m1) \<Rightarrow> (n, rest, w\<lparr>wf_idx := it\<rparr>, m1))"

definition WriteFill_insert_once :: "mem \<Rightarrow> WriteFill \<Rightarrow> u64 \<Rightarrow> bool \<times> WriteFill \<times> mem" where
  "WriteFill_insert_once m w nr =
     (case WriteFill_insert m w [nr] of (n, rest, w1, m1) \<Rightarrow> (0 < n, w1, m1))"

definition WriteFill_commit ::
  "profile \<Rightarrow> env \<Rightarrow> mem \<Rightarrow> WriteFill \<Rightarrow> WriteFill res \<times> mem" where
  "WriteFill_commit pf env m w =
     (case commit_prod pf env m (wf_idx w) (wf_queue w) of
        (it, m1) \<Rightarrow> (rbind it (\<lambda>it1. Inr (w\<lparr>wf_idx := it1\<rparr>)), m1))"

definition WriteFill_drop :: "profile \<Rightarrow> WriteFill \<Rightarrow> RingProd res" where
  "WriteFill_drop pf w =
     (if it_buffers (wf_idx w) \<noteq> 0 then RingProd_cancel pf (it_buffers (wf_idx w)) (wf_queue w)
      else Inr (wf_queue w))"

definition WriteTx_capacity :: "WriteTx \<Rightarrow> u32" where
  "WriteTx_capacity w = it_buffers (wt_idx w)"

definition WriteTx_insert ::
  "mem \<Rightarrow> WriteTx \<Rightarrow> XdpDesc list \<Rightarrow> u32 \<times> XdpDesc list \<times> WriteTx \<times> mem" where
  "WriteTx_insert m w xs =
     (case insert_loop enc_desc (tx_desc (wt_queue w)) m (wt_idx w) 0 xs of
        (n, rest, it, m1) \<Rightarrow> (n, rest, w\<lparr>wt_idx := it\<rparr>, m1))"

definition WriteTx_insert_once :: "mem \<Rightarrow> WriteTx \<Rightarrow> XdpDesc \<Rightarrow> bool \<times> WriteTx \<times> mem" where
  "WriteTx_insert_once m w nr =
     (case WriteTx_insert m w [nr] of (n, rest, w1, m1) \<Rightarrow> (0 < n, w1, m1))"

definition WriteTx_commit :: "profile \<Rightarrow> env \<Rightarrow> mem \<Rightarrow> WriteTx \<Rightarrow> WriteTx res \<times> mem" where
  "WriteTx_commit pf env m w =
     (case commit_prod pf env m (wt_idx w) (wt_queue w) of
        (it, m1) \<Rightarrow> (rbind it (\<lambda>it1. Inr (w\<lparr>wt_idx := it1\<rparr>)), m1))"

definition WriteTx_drop :: "profile \<Rightarrow> WriteTx \<Rightarrow> RingProd res" where
  "WriteTx_drop pf w =
     (if it_buffers (wt_idx w) \<noteq> 0 then RingProd_cancel pf (it_buffers (wt_idx w)) (wt_queue w)
      else Inr (wt_queue w))"

subsection \<open>Readers\<close>

definition ReadComplete_capacity :: "ReadComplete \<Rightarrow> u32" where
  "ReadComplete_capacity w = it_buffers (rc_idx w)"

definition ReadComplete_read :: "mem \<Rightarrow> ReadComplete \<Rightarrow> u64 option \<times> ReadComplete" where
  "ReadComplete_read m w =
     (case BufIdxIter_next (rc_idx w) of
        (None, it) \<Rightarrow> (None, w\<lparr>rc_idx := it\<rparr>)
      | (Some bufidx, it) \<Rightarrow>
          (Some (dec_u64 (load_bytes m (comp_addr (rc_queue w) bufidx) 8)), w\<lparr>rc_idx := it\<rparr>))"

definition ReadComplete_next :: "mem \<Rightarrow> ReadComplete \<Rightarrow> u64 option \<times> ReadComplete" where
  "ReadComplete_next m w = ReadComplete_read m w"

definition ReadComplete_release ::
  "profile \<Rightarrow> env \<Rightarrow> mem \<Rightarrow> ReadComplete \<Rightarrow> ReadComplete res \<times> mem" where
  "ReadComplete_release pf env m w =
     (case release_cons pf env m (rc_idx w) (rc_queue w) of
        (it, m1) \<Rightarrow> (rbind it (\<lambda>it1. Inr (w\<lparr>rc_idx := it1\<rparr>)), m1))"

definition ReadComplete_drop :: "profile \<Rightarrow> ReadComplete \<Rightarrow> RingCons res" where
  "ReadComplete_drop pf w =
     (if it_buffers (rc_idx w) \<noteq> 0 then RingCons_cancel pf (it_buffers (rc_idx w)) (rc_queue w)
      else Inr (rc_queue w))"

definition ReadRx_capacity :: "ReadRx \<Rightarrow> u32" where
  "ReadRx_capacity w = it_buffers (rr_idx w)"

definition ReadRx_read :: "mem \<Rightarrow> ReadRx \<Rightarrow> XdpDesc option \<times> ReadRx" where
  "ReadRx_read m w =
     (case BufIdxIter_next (rr_idx w) of
        (None, it) \<Rightarrow> (None, w\<lparr>rr_idx := it\<rparr>)
      | (Some bufidx, it) \<Rightarrow>
          (Some (dec_desc (load_bytes m (rx_desc (rr_queue w) bufidx) 16)), w\<lparr>rr_idx := it\<rparr>))"

definition ReadRx_next :: "mem \<Rightarrow> ReadRx \<Rightarrow> XdpDesc option \<times> ReadRx" where
  "ReadRx_next m w = ReadRx_read m w"

definition ReadRx_release :: "profile \<Rightarrow> env \<Rightarrow> mem \<Rightarrow> ReadRx \<Rightarrow> ReadRx res \<times> mem" where
  "ReadRx_release pf env m w =
     (case release_cons pf env m (rr_idx w) (rr_queue w) of
        (it, m1) \<Rightarrow> (rbind it (\<lambda>it1. Inr (w\<lparr>rr_idx := it1\<rparr>)), m1))"

definition ReadRx_drop :: "profile \<Rightarrow> ReadRx \<Rightarrow> RingCons res" where
  "ReadRx_drop pf w =
     (if it_buffers (rr_idx w) \<noteq> 0 then RingCons_cancel pf (it_buffers (rr_idx w)) (rr_queue w)
      else Inr (rr_queue w))"

end
