(* ===== verification/Lifecycle.thy ===== *)
theory Lifecycle
  imports Setup User
begin

text \<open>
  The life of all handles together.  A world is a process and the handles its program holds; a step
  is any call of the crate's API that touches the process, on handles that are held, or dropping
  one.  The invariant says that reference counts, open descriptors, mappings and claimed queues are
  at every moment exactly those of the handles held.
\<close>

subsection \<open>Handles\<close>

datatype handle =
    HUmem Umem
  | HSocket Socket
  | HQueue DeviceQueue
  | HUser User
  | HRx RingRx
  | HTx RingTx

fun h_fd :: "handle \<Rightarrow> ArcFd" where
  "h_fd (HUmem u) = umem_fd u"
| "h_fd (HSocket s) = sock_fd s"
| "h_fd (HQueue dq) = sock_fd (dq_socket dq)"
| "h_fd (HUser us) = sock_fd (user_socket us)"
| "h_fd (HRx rx) = rx_fd rx"
| "h_fd (HTx tx) = tx_fd tx"

fun h_maps :: "handle \<Rightarrow> slice multiset" where
  "h_maps (HQueue dq) = {#prod_mmap_addr (fcq_prod (dq_fcq dq)), cons_mmap_addr (fcq_cons (dq_fcq dq))#}"
| "h_maps (HRx rx) = {#cons_mmap_addr (rx_ring rx)#}"
| "h_maps (HTx tx) = {#prod_mmap_addr (tx_ring tx)#}"
| "h_maps _ = {#}"

fun h_claims :: "handle \<Rightarrow> (DeviceControl \<times> IfCtx) multiset" where
  "h_claims (HQueue dq) = {#(dq_devices dq, if_ctx (sock_info (dq_socket dq)))#}"
| "h_claims _ = {#}"

fun h_drop :: "'k libc \<Rightarrow> handle \<Rightarrow> 'k proc \<Rightarrow> 'k proc" where
  "h_drop S (HUmem u) p = Umem_drop S u p"
| "h_drop S (HSocket s) p = Socket_drop S s p"
| "h_drop S (HQueue dq) p = DeviceQueue_drop S dq p"
| "h_drop S (HUser us) p = User_drop S us p"
| "h_drop S (HRx rx) p = RingRx_drop S rx p"
| "h_drop S (HTx tx) p = RingTx_drop S tx p"

text \<open>Using a ring changes nothing but the heads cached in its handle.\<close>

fun same_handle :: "handle \<Rightarrow> handle \<Rightarrow> bool" where
  "same_handle (HQueue a) (HQueue b) \<longleftrightarrow> dq_socket a = dq_socket b \<and> dq_devices a = dq_devices b \<and>
     prod_mmap_addr (fcq_prod (dq_fcq a)) = prod_mmap_addr (fcq_prod (dq_fcq b)) \<and>
     cons_mmap_addr (fcq_cons (dq_fcq a)) = cons_mmap_addr (fcq_cons (dq_fcq b))"
| "same_handle (HRx a) (HRx b) \<longleftrightarrow> rx_fd a = rx_fd b \<and> cons_mmap_addr (rx_ring a) = cons_mmap_addr (rx_ring b)"
| "same_handle (HTx a) (HTx b) \<longleftrightarrow> tx_fd a = tx_fd b \<and> prod_mmap_addr (tx_ring a) = prod_mmap_addr (tx_ring b)"
| "same_handle _ _ \<longleftrightarrow> False"

subsection \<open>Calls\<close>

datatype call =
    FromName "u8 list" IfInfo
  | FromIfindex u32 IfInfo
  | UmemNew UmemConfig slice
  | SocketNew IfInfo
  | WithShared IfInfo Umem
  | FqCq Umem Socket
  | RxTx Umem Socket SocketConfig
  | MapRx User
  | MapTx User
  | BindUmem Umem User
  | BindQueue DeviceQueue User
  | WakeQueue DeviceQueue
  | WakeTx RingTx
  | StatsQueue DeviceQueue
  | StatsUser User

text \<open>The handles a call borrows.\<close>

fun borrows :: "call \<Rightarrow> handle list" where
  "borrows (FromName name info) = []"
| "borrows (FromIfindex index info) = []"
| "borrows (UmemNew config area) = []"
| "borrows (SocketNew info) = []"
| "borrows (WithShared info u) = [HUmem u]"
| "borrows (FqCq u s) = [HUmem u, HSocket s]"
| "borrows (RxTx u s config) = [HUmem u, HSocket s]"
| "borrows (MapRx us) = [HUser us]"
| "borrows (MapTx us) = [HUser us]"
| "borrows (BindUmem u us) = [HUmem u, HUser us]"
| "borrows (BindQueue dq us) = [HQueue dq, HUser us]"
| "borrows (WakeQueue dq) = [HQueue dq]"
| "borrows (WakeTx tx) = [HTx tx]"
| "borrows (StatsQueue dq) = [HQueue dq]"
| "borrows (StatsUser us) = [HUser us]"

text \<open>What a call returns, as far as it is a new handle.\<close>

definition creates :: "('a \<Rightarrow> handle multiset) \<Rightarrow> 'a outcome \<times> 's \<Rightarrow> handle multiset outcome \<times> 's" where
  "creates f x = apfst (map_outcome f) x"

fun api_call :: "'k libc \<Rightarrow> profile \<Rightarrow> call \<Rightarrow> 'k proc \<Rightarrow> handle multiset outcome \<times> 'k proc" where
  "api_call S pf (FromName name info) p =
     creates (\<lambda>_. {#}) (on_os (\<lambda>k. case IfInfo_from_name S name info k of (r, info1, k1) \<Rightarrow> (r, k1)) p)"
| "api_call S pf (FromIfindex index info) p =
     creates (\<lambda>_. {#}) (on_os (\<lambda>k. case IfInfo_from_ifindex S index info k of (r, info1, k1) \<Rightarrow> (r, k1)) p)"
| "api_call S pf (UmemNew config area) p = creates (\<lambda>u. {#HUmem u#}) (Umem_new S pf config area p)"
| "api_call S pf (SocketNew info) p = creates (\<lambda>s. {#HSocket s#}) (Socket_new S info p)"
| "api_call S pf (WithShared info u) p = creates (\<lambda>s. {#HSocket s#}) (Socket_with_shared S info u p)"
| "api_call S pf (FqCq u s) p = creates (\<lambda>dq. {#HQueue dq#}) (Umem_fq_cq S pf u s p)"
| "api_call S pf (RxTx u s config) p = creates (\<lambda>us. {#HUser us#}) (Umem_rx_tx S pf s config p)"
| "api_call S pf (MapRx us) p = creates (\<lambda>rx. {#HRx rx#}) (User_map_rx S pf us p)"
| "api_call S pf (MapTx us) p = creates (\<lambda>tx. {#HTx tx#}) (User_map_tx S pf us p)"
| "api_call S pf (BindUmem u us) p = creates (\<lambda>_. {#}) (Umem_bind S u us p)"
| "api_call S pf (BindQueue dq us) p = creates (\<lambda>_. {#}) (DeviceQueue_bind S dq us p)"
| "api_call S pf (WakeQueue dq) p = (Ok {#}, DeviceQueue_wake S dq p)"
| "api_call S pf (WakeTx tx) p = (Ok {#}, RingTx_wake S tx p)"
| "api_call S pf (StatsQueue dq) p = creates (\<lambda>_. {#}) (DeviceQueue_statistics_v2 S dq p)"
| "api_call S pf (StatsUser us) p = creates (\<lambda>_. {#}) (User_statistics_v2 S us p)"

text \<open>
  A call that panics leaves what it did before the panic, less what unwinding its locals gives up; the
  handles held may survive it in another thread or behind a \<open>catch_unwind\<close>.  Only a panic between
  mapping a ring and checking it forgets something: which calls are free of that.
\<close>

fun panics_safely :: "'k libc \<Rightarrow> profile \<Rightarrow> call \<Rightarrow> bool" where
  "panics_safely S pf (FqCq u s) \<longleftrightarrow>
     map_safe S pf (fill_size (umem_config u)) \<and> map_safe S pf (complete_size (umem_config u))"
| "panics_safely S pf (MapRx us) \<longleftrightarrow> (case rx_size (user_config us) of None \<Rightarrow> True | Some n \<Rightarrow> map_safe S pf n)"
| "panics_safely S pf (MapTx us) \<longleftrightarrow> (case tx_size (user_config us) of None \<Rightarrow> True | Some n \<Rightarrow> map_safe S pf n)"
| "panics_safely S pf _ \<longleftrightarrow> True"

text \<open>A call that returns an error or panics creates no handle.\<close>

type_synonym 'k world = "handle multiset \<times> 'k proc"

inductive api_step :: "'k libc \<Rightarrow> profile \<Rightarrow> 'k world \<Rightarrow> 'k world \<Rightarrow> bool"
  for S pf
where
  api_ok: "set (borrows c) \<subseteq> set_mset hs \<Longrightarrow> api_call S pf c p = (Ok new, p') \<Longrightarrow>
    api_step S pf (hs, p) (hs + new, p')"
| api_err: "set (borrows c) \<subseteq> set_mset hs \<Longrightarrow> api_call S pf c p = (Err e, p') \<Longrightarrow>
    api_step S pf (hs, p) (hs, p')"
| api_panic: "set (borrows c) \<subseteq> set_mset hs \<Longrightarrow> panics_safely S pf c \<Longrightarrow>
    api_call S pf c p = (Panic q, p') \<Longrightarrow> api_step S pf (hs, p) (hs, p')"
| api_use: "same_handle h h' \<Longrightarrow> api_step S pf (add_mset h hs, p) (add_mset h' hs, p)"
| api_drop: "api_step S pf (add_mset h hs, p) (hs, h_drop S h p)"

inductive_cases api_stepE: "api_step S pf w w'"

subsection \<open>The accounts\<close>

text \<open>The remaining calls neither open nor map anything.\<close>

definition accounts_all :: "'k libc \<Rightarrow> ('k \<Rightarrow> slice multiset) \<Rightarrow> ('k \<Rightarrow> c_int multiset) \<Rightarrow> bool" where
  "accounts_all S maps opens \<longleftrightarrow> accounts S maps opens \<and>
     (\<forall>fd bs k. maps (snd (sys_bind S fd bs k)) = maps k \<and> opens (snd (sys_bind S fd bs k)) = opens k) \<and>
     (\<forall>fd ev t k. maps (snd (sys_poll S fd ev t k)) = maps k \<and> opens (snd (sys_poll S fd ev t k)) = opens k) \<and>
     (\<forall>fd bs fl k. maps (snd (sys_sendto S fd bs fl k)) = maps k \<and> opens (snd (sys_sendto S fd bs fl k)) = opens k) \<and>
     (\<forall>bs k. maps (snd (sys_if_nametoindex S bs k)) = maps k \<and> opens (snd (sys_if_nametoindex S bs k)) = opens k) \<and>
     (\<forall>i bs k. maps (snd (snd (sys_if_indextoname S i bs k))) = maps k \<and>
        opens (snd (snd (sys_if_indextoname S i bs k))) = opens k)"

lemma accounts_allD:
  assumes "accounts_all S maps opens"
  shows "accounts S maps opens"
    and "maps (snd (sys_bind S fd bs k)) = maps k" "opens (snd (sys_bind S fd bs k)) = opens k"
    and "maps (snd (sys_poll S fd ev t k)) = maps k" "opens (snd (sys_poll S fd ev t k)) = opens k"
    and "maps (snd (sys_sendto S fd bs fl k)) = maps k" "opens (snd (sys_sendto S fd bs fl k)) = opens k"
    and "maps (snd (sys_if_nametoindex S bs k)) = maps k" "opens (snd (sys_if_nametoindex S bs k)) = opens k"
    and "maps (snd (snd (sys_if_indextoname S i bs k))) = maps k" "opens (snd (snd (sys_if_indextoname S i bs k))) = opens k"
  using assms by (simp_all add: accounts_all_def)

text \<open>
  Counts: a cell's count is how many handles refer to it, and what is open beyond what was at first
  is one descriptor for every cell that is referred to.
\<close>

definition live_fds :: "(c_int \<times> nat) list \<Rightarrow> c_int multiset" where
  "live_fds cells = mset (map fst (filter (\<lambda>c. 0 < snd c) cells))"

definition fd_inv :: "c_int multiset \<Rightarrow> nat multiset \<Rightarrow> (c_int \<times> nat) list \<Rightarrow> c_int multiset \<Rightarrow> bool" where
  "fd_inv o0 refs cells ops \<longleftrightarrow>
     (\<forall>a. count refs a = (if a < length cells then snd (cells ! a) else 0)) \<and> ops = o0 + live_fds cells"

lemma live_fds_snoc [simp]:
  "live_fds (cells @ [(fd, n)]) = (if 0 < n then add_mset fd (live_fds cells) else live_fds cells)"
  by (simp add: live_fds_def)

lemma live_fds_update:
  assumes "a < length cells"
  shows "live_fds (cells[a := (fd, n)]) + (if 0 < snd (cells ! a) then {#fst (cells ! a)#} else {#}) =
    live_fds cells + (if 0 < n then {#fd#} else {#})"
proof -
  have "live_fds (xs @ c # ys) = live_fds xs + live_fds ys + (if 0 < snd c then {#fst c#} else {#})" for xs c ys
    by (simp add: live_fds_def)
  from this[of "take a cells" "cells ! a" "drop (Suc a) cells"] this[of "take a cells" "(fd, n)" "drop (Suc a) cells"]
  show ?thesis using assms by (simp add: id_take_nth_drop[symmetric] upd_conv_take_nth_drop)
qed

lemma fd_inv_new: "fd_inv o0 refs cells ops \<Longrightarrow>
    fd_inv o0 (add_mset (length cells) refs) (cells @ [(fd, 1)]) (add_mset fd ops)"
  by (auto simp: fd_inv_def nth_append)

lemma fd_inv_dead: "fd_inv o0 refs cells ops \<Longrightarrow> fd_inv o0 refs (cells @ [(fd, 0)]) ops"
  by (auto simp: fd_inv_def nth_append)

lemma fd_inv_live: "fd_inv o0 refs cells ops \<Longrightarrow> a \<in># refs \<Longrightarrow> a < length cells \<and> 0 < snd (cells ! a)"
  using count_greater_zero_iff[of refs a] by (auto simp: fd_inv_def split: if_splits)

lemma fd_inv_clone:
  assumes "fd_inv o0 refs cells ops" and "a \<in># refs"
  shows "fd_inv o0 (add_mset a refs) (cells[a := (fst (cells ! a), snd (cells ! a) + 1)]) ops"
  using assms(1) fd_inv_live[OF assms] live_fds_update[of a cells "fst (cells ! a)" "snd (cells ! a) + 1"]
  by (auto simp: fd_inv_def nth_list_update)

lemma fd_inv_drop:
  assumes "fd_inv o0 (add_mset a refs) cells ops"
  shows "fd_inv o0 refs (cells[a := (fst (cells ! a), snd (cells ! a) - 1)])
    (if snd (cells ! a) = 1 then ops - {#fst (cells ! a)#} else ops)"
proof -
  have a: "a < length cells" "0 < snd (cells ! a)" using fd_inv_live[OF assms, of a] by simp_all
  have cnt: "count (add_mset a refs) b = (if b < length cells then snd (cells ! b) else 0)" for b
    using assms by (simp only: fd_inv_def)
  have "count refs b = (if b < length cells then snd (cells ! b) else 0) - (if b = a then 1 else 0)" for b
    using cnt[of b] by (cases "b = a") (auto split: if_splits)
  moreover have "live_fds (cells[a := (fst (cells ! a), snd (cells ! a) - 1)]) =
      (if snd (cells ! a) = 1 then live_fds cells - {#fst (cells ! a)#} else live_fds cells)"
    using live_fds_update[OF a(1), of "fst (cells ! a)" "snd (cells ! a) - 1", symmetric] a(2)
    by (cases "snd (cells ! a) = 1") simp_all
  moreover have "fst (cells ! a) \<in># live_fds cells" using a by (force simp: live_fds_def)
  ultimately show ?thesis using assms a by (auto simp: fd_inv_def nth_list_update)
qed

text \<open>Claims: each control set holds exactly the queues that handles of it have set up.\<close>

definition ctl_inv :: "(DeviceControl \<times> IfCtx) multiset \<Rightarrow> IfCtx list list \<Rightarrow> bool" where
  "ctl_inv claims sets \<longleftrightarrow> (\<forall>d c. count claims (d, c) = (if d < length sets then count (mset (sets ! d)) c else 0)) \<and>
     (\<forall>d<length sets. btree (sets ! d))"

lemma ctl_inv_new: "ctl_inv claims sets \<Longrightarrow> ctl_inv claims (sets @ [[]])"
  by (auto simp: ctl_inv_def nth_append btree_def)

lemma ctl_inv_claim:
  assumes "ctl_inv claims sets" and "d < length sets" and "c \<notin> set (sets ! d)"
  shows "ctl_inv (add_mset (d, c) claims) (sets[d := insort c (sets ! d)])"
  using assms by (auto simp: ctl_inv_def nth_list_update btree_iff sorted_insort distinct_insort)

lemma ctl_inv_release:
  assumes "ctl_inv (add_mset (d, c) claims) sets"
  shows "ctl_inv claims (sets[d := remove1 c (sets ! d)])" and "d < length sets"
proof -
  have cnt: "count (add_mset (d, c) claims) (e, x) = (if e < length sets then count (mset (sets ! e)) x else 0)" for e x
    using assms by (simp only: ctl_inv_def)
  from cnt[of d c] show d: "d < length sets" by (simp split: if_splits)
  have "count claims (e, x) = (if e < length sets then count (mset (sets[d := remove1 c (sets ! d)] ! e)) x else 0)" for e x
    using cnt[of e x] d by (auto simp: nth_list_update split: if_splits)
  with assms d show "ctl_inv claims (sets[d := remove1 c (sets ! d)])"
    by (auto simp: ctl_inv_def nth_list_update btree_iff sorted_remove1)
qed

text \<open>A claimed queue is claimed once.\<close>

lemma ctl_inv_once:
  assumes "ctl_inv claims sets"
  shows "count claims (d, c) \<le> 1"
proof (cases "d < length sets")
  case True
  then have "distinct (sets ! d)" using assms by (simp add: ctl_inv_def btree_iff)
  then have "count (mset (sets ! d)) c \<le> 1" by (simp add: distinct_count_atmost_1)
  with assms True show ?thesis by (simp add: ctl_inv_def)
qed (use assms in \<open>simp add: ctl_inv_def\<close>)

definition world_ok ::
  "('k \<Rightarrow> slice multiset) \<Rightarrow> ('k \<Rightarrow> c_int multiset) \<Rightarrow> slice multiset \<Rightarrow> c_int multiset \<Rightarrow> 'k world \<Rightarrow> bool" where
  "world_ok maps opens m0 o0 w \<longleftrightarrow> (case w of (hs, p) \<Rightarrow>
     fd_inv o0 (image_mset h_fd hs) (fds p) (opens (os p)) \<and>
     maps (os p) = m0 + sum_mset (image_mset h_maps hs) \<and>
     ctl_inv (sum_mset (image_mset h_claims hs)) (ctls p) \<and>
     (\<forall>u. HUmem u \<in># hs \<longrightarrow> umem_devices u < length (ctls p)))"

text \<open>What a call may do to the four things accounted for.\<close>

lemma world_ok_same:
  assumes "world_ok maps opens m0 o0 (hs, p)" and "fds p' = fds p" and "ctls p' = ctls p"
    and "maps (os p') = maps (os p)" and "opens (os p') = opens (os p)"
  shows "world_ok maps opens m0 o0 (hs, p')"
  using assms by (simp add: world_ok_def)

lemma world_ok_clone:
  assumes "world_ok maps opens m0 o0 (hs, p)" and "h \<in># hs" and "h_fd h = a" and "h_fd h' = a"
    and "fds p' = fds (arc_clone a p)" and "ctls p' = ctls p"
    and "maps (os p') = maps (os p) + h_maps h'" and "opens (os p') = opens (os p)"
    and "h_claims h' = {#}" and "\<And>u. h' \<noteq> HUmem u"
  shows "world_ok maps opens m0 o0 (hs + {#h'#}, p')"
proof -
  have "a \<in># image_mset h_fd hs" using assms(2,3) by auto
  from fd_inv_clone[OF _ this] assms show ?thesis
    by (auto simp: world_ok_def arc_clone_def)
qed

lemma world_ok_ctl:
  assumes "world_ok maps opens m0 o0 (hs, p)" and "HUmem u \<in># hs"
  shows "ctl_ok (umem_devices u) p"
  using assms by (auto simp: world_ok_def ctl_inv_def ctl_ok_def)

lemma world_ok_count:
  assumes "world_ok maps opens m0 o0 (hs, p)" and "h \<in># hs"
  shows "0 < arc_count (h_fd h) p"
proof -
  have "fd_inv o0 (image_mset h_fd hs) (fds p) (opens (os p))" using assms(1) by (simp add: world_ok_def)
  from fd_inv_live[OF this, of "h_fd h"] assms(2) show ?thesis by (auto simp: arc_count_def)
qed

subsection \<open>What each call does to the accounts\<close>

lemma world_ok_opened:
  assumes "world_ok maps opens m0 o0 (hs, p)" and "fds p' = fds p @ [(fd, 1)]" and "h_fd h = length (fds p)"
    and "ctls p' = ctls p \<or> ctls p' = ctls p @ [[]]" and "maps (os p') = maps (os p)"
    and "opens (os p') = add_mset fd (opens (os p))" and "h_maps h = {#}" and "h_claims h = {#}"
    and "\<And>u. h = HUmem u \<Longrightarrow> umem_devices u < length (ctls p')"
  shows "world_ok maps opens m0 o0 (hs + {#h#}, p')"
  using assms fd_inv_new[of o0 "image_mset h_fd hs" "fds p" "opens (os p)" fd]
  by (auto simp: world_ok_def intro: ctl_inv_new)

lemma world_ok_failed:
  assumes "world_ok maps opens m0 o0 (hs, p)" and "fds p' = fds p \<or> fds p' = fds p @ [(fd, 0)]"
    and "ctls p' = ctls p \<or> ctls p' = ctls p @ [[]]" and "maps (os p') = maps (os p)" and "opens (os p') = opens (os p)"
  shows "world_ok maps opens m0 o0 (hs, p')"
  using assms by (auto simp: world_ok_def intro: ctl_inv_new fd_inv_dead)

lemma close_accounts:
  assumes "accounts S maps opens"
  shows "opens (snd (sys_close S fd k)) = opens k - {#fd#}" and "maps (snd (sys_close S fd k)) = maps k"
  using accountsD(4)[OF assms, of fd k] by (metis prod.collapse)+

lemma arc_drop_effect:
  assumes "accounts S maps opens" and "0 < arc_count a p"
  shows "fds (arc_drop S a p) = (fds p)[a := (fst (fds p ! a), snd (fds p ! a) - 1)]"
    and "ctls (arc_drop S a p) = ctls p" and "maps (os (arc_drop S a p)) = maps (os p)"
    and "opens (os (arc_drop S a p)) = (if snd (fds p ! a) = 1 then opens (os p) - {#fst (fds p ! a)#} else opens (os p))"
  using assms(2) close_accounts[OF assms(1)]
  by (auto simp: arc_drop_def Let_def SocketFd_drop_def arc_count_def split: if_splits)

lemma new_fd_drop:
  fixes p :: "'k proc"
  assumes "accounts S maps opens"
    and p': "p' = arc_drop S (length (fds p)) (p\<lparr>fds := fds p @ [(fd, 1)], os := k\<rparr>)"
  shows "fds p' = fds p @ [(fd, 0)]" and "ctls p' = ctls p" and "maps (os p') = maps k"
    and "opens (os p') = opens k - {#fd#}"
proof -
  let ?q = "p\<lparr>fds := fds p @ [(fd, 1)], os := k\<rparr>"
  have "0 < arc_count (length (fds p)) ?q" by (simp add: arc_count_def)
  from arc_drop_effect[OF assms(1) this] show "fds p' = fds p @ [(fd, 0)]" and "ctls p' = ctls p"
    and "maps (os p') = maps k" and "opens (os p') = opens k - {#fd#}"
    by (simp_all add: p')
qed

lemma with_xdp_socket_new:
  assumes acc: "accounts S maps opens"
    and run: "Socket_with_xdp_socket S info (length (fds p)) (p\<lparr>fds := fds p @ [(fd, 1)], os := k\<rparr>) = (r, p')"
    and opn: "opens k = add_mset fd (opens (os p))" "maps k = maps (os p)"
  shows "r = Ok s \<Longrightarrow> fds p' = fds p @ [(fd, 1)] \<and> sock_fd s = length (fds p) \<and> ctls p' = ctls p \<and>
      opens (os p') = add_mset fd (opens (os p)) \<and> maps (os p') = maps (os p)"
    and "r = Err e \<Longrightarrow> fds p' = fds p @ [(fd, 0)] \<and> ctls p' = ctls p \<and>
      opens (os p') = opens (os p) \<and> maps (os p') = maps (os p)"
proof -
  obtain err bs n k1 where so: "sys_getsockopt S fd SOL_SOCKET SO_NETNS_COOKIE (enc_u64 0) 8 k = (err, bs, n, k1)"
    by (metis surj_pair)
  note same = accountsD(5)[OF acc so] and d = new_fd_drop[OF acc, where p = p and fd = fd and k = k1, OF refl]
  show "r = Ok s \<Longrightarrow> fds p' = fds p @ [(fd, 1)] \<and> sock_fd s = length (fds p) \<and> ctls p' = ctls p \<and>
      opens (os p') = add_mset fd (opens (os p)) \<and> maps (os p') = maps (os p)"
    and "r = Err e \<Longrightarrow> fds p' = fds p @ [(fd, 0)] \<and> ctls p' = ctls p \<and>
      opens (os p') = opens (os p) \<and> maps (os p') = maps (os p)"
    using run so same opn d by (auto simp: Socket_with_xdp_socket_def arc_get_def Let_def split: if_splits)
qed

lemma socket_new_ok:
  assumes acc: "accounts S maps opens" and ok: "world_ok maps opens m0 o0 (hs, p)" and run: "Socket_new S info p = (r, p')"
  shows "r = Ok s \<Longrightarrow> world_ok maps opens m0 o0 (hs + {#HSocket s#}, p')"
    and "r = Err e \<Longrightarrow> world_ok maps opens m0 o0 (hs, p')"
    and "r = Panic q \<Longrightarrow> world_ok maps opens m0 o0 (hs, p')"
proof -
  obtain fd k where so: "sys_socket S AF_XDP SOCK_RAW 0 (os p) = (fd, k)" by (metis surj_pair)
  note opn = accountsD(3)[OF acc so]
  have "(r = Ok s \<longrightarrow> world_ok maps opens m0 o0 (hs + {#HSocket s#}, p')) \<and> (r = Err e \<longrightarrow> world_ok maps opens m0 o0 (hs, p')) \<and>
    (r = Panic q \<longrightarrow> world_ok maps opens m0 o0 (hs, p'))"
  proof (cases "fd < 0")
    case True
    with run so have "r \<noteq> Ok s" "p' = p\<lparr>os := k\<rparr>" by (auto simp: Socket_new_def on_os_def SocketFd_new_def)
    with opn True world_ok_same[OF ok] show ?thesis by simp
  next
    case False
    have "Socket_with_xdp_socket S info (length (fds p)) (p\<lparr>fds := fds p @ [(fd, 1)], os := k\<rparr>) = (r, p')"
      using run so False by (cases p) (simp add: Socket_new_def on_os_def SocketFd_new_def arc_new_def)
    note eff = with_xdp_socket_new[OF acc this]
    have "r \<noteq> Panic q"
      using \<open>Socket_with_xdp_socket _ _ _ _ = _\<close>
      by (auto simp: Socket_with_xdp_socket_def Let_def split: prod.splits if_splits)
    with opn show ?thesis
      using eff(1) eff(2) False world_ok_opened[OF ok, of p' fd "HSocket s"] world_ok_failed[OF ok, of p' fd] by auto
  qed
  then show "r = Ok s \<Longrightarrow> world_ok maps opens m0 o0 (hs + {#HSocket s#}, p')"
    and "r = Err e \<Longrightarrow> world_ok maps opens m0 o0 (hs, p')"
    and "r = Panic q \<Longrightarrow> world_ok maps opens m0 o0 (hs, p')" by blast+
qed

lemma umem_new_ok:
  assumes acc: "accounts S maps opens" and ok: "world_ok maps opens m0 o0 (hs, p)"
    and run: "Umem_new S pf config area p = (r, p')"
  shows "r = Ok u \<Longrightarrow> world_ok maps opens m0 o0 (hs + {#HUmem u#}, p')"
    and "r = Err e \<Longrightarrow> world_ok maps opens m0 o0 (hs, p')"
    and "r = Panic q \<Longrightarrow> world_ok maps opens m0 o0 (hs, p')"
proof -
  obtain fd k where so: "sys_socket S AF_XDP SOCK_RAW 0 (os p) = (fd, k)" by (metis surj_pair)
  note opn = accountsD(3)[OF acc so]
  have "(r = Ok u \<longrightarrow> world_ok maps opens m0 o0 (hs + {#HUmem u#}, p')) \<and> (r = Err e \<longrightarrow> world_ok maps opens m0 o0 (hs, p')) \<and>
    (r = Panic q \<longrightarrow> world_ok maps opens m0 o0 (hs, p'))"
  proof (cases "frame_size config = 0 \<or> is_page_aligned S pf area (os p) \<noteq> Inr True")
    case True
    with run ok show ?thesis by (auto simp: Umem_new_def split: if_splits sum.splits bool.splits)
  next
    case page: False
    show ?thesis
    proof (cases "fd < 0")
      case True
      with run so page have "r \<noteq> Ok u" "p' = p\<lparr>ctls := ctls p @ [[]], os := k\<rparr>"
        by (auto simp: Umem_new_def DeviceControl_new_def on_os_def SocketFd_new_def)
      with opn True world_ok_failed[OF ok] show ?thesis by simp
    next
      case False
      let ?u = "\<lparr>umem_area = area, umem_config = config, umem_fd = length (fds p), umem_devices = length (ctls p)\<rparr>"
      let ?p = "p\<lparr>ctls := ctls p @ [[]]\<rparr>"
      obtain x k2 where cf: "Umem_configure S fd ?u k = (x, k2)" by (metis surj_pair)
      have same: "maps k2 = maps k" "opens k2 = opens k"
        using setsockopt_or_accounts[OF acc] cf by (auto simp: Umem_configure_def)
      have "(r, p') = on_fail (arc_drop S (length (fds p)))
          (obind (x, ?p\<lparr>fds := fds ?p @ [(fd, 1)], os := k2\<rparr>) (\<lambda>_ p4. (Ok ?u, p4)))"
        using run page False so cf
        by (cases p) (simp add: Umem_new_def DeviceControl_new_def on_os_def SocketFd_new_def arc_new_def Let_def arc_get_def)
      then show ?thesis
        using new_fd_drop[OF acc, where p = ?p and fd = fd and k = k2, OF refl] same opn False
          world_ok_opened[OF ok, of p' fd "HUmem u"] world_ok_failed[OF ok, of p' fd]
        by (cases x) auto
    qed
  qed
  then show "r = Ok u \<Longrightarrow> world_ok maps opens m0 o0 (hs + {#HUmem u#}, p')"
    and "r = Err e \<Longrightarrow> world_ok maps opens m0 o0 (hs, p')"
    and "r = Panic q \<Longrightarrow> world_ok maps opens m0 o0 (hs, p')" by blast+
qed

lemma with_shared_ok:
  assumes acc: "accounts S maps opens" and ok: "world_ok maps opens m0 o0 (hs, p)" and u: "HUmem u \<in># hs"
    and run: "Socket_with_shared S info u p = (r, p')"
  shows "r = Ok s \<Longrightarrow> world_ok maps opens m0 o0 (hs + {#HSocket s#}, p')"
    and "r = Err e \<Longrightarrow> world_ok maps opens m0 o0 (hs, p')"
    and "r = Panic q \<Longrightarrow> world_ok maps opens m0 o0 (hs, p')"
proof -
  let ?a = "umem_fd u" and ?p = "arc_clone (umem_fd u) p"
  have live: "0 < arc_count ?a p" using world_ok_count[OF ok u] by simp
  obtain err bs n k where so: "sys_getsockopt S (arc_get ?p ?a) SOL_SOCKET SO_NETNS_COOKIE (enc_u64 0) 8 (os p) = (err, bs, n, k)"
    by (metis surj_pair)
  note same = accountsD(5)[OF acc so]
  have live': "0 < arc_count ?a (p\<lparr>os := k\<rparr>)" using live by (simp add: arc_count_def split: if_splits)
  have undo: "arc_drop S ?a (?p\<lparr>os := k\<rparr>) = p\<lparr>os := k\<rparr>"
    using arc_drop_clone[OF live', of S] by (cases p) (simp add: arc_clone_def)
  have undone: "world_ok maps opens m0 o0 (hs, arc_drop S ?a (?p\<lparr>os := k\<rparr>))"
    unfolding undo by (rule world_ok_same[OF ok]) (simp_all add: same)
  show "r = Ok s \<Longrightarrow> world_ok maps opens m0 o0 (hs + {#HSocket s#}, p')"
    and "r = Err e \<Longrightarrow> world_ok maps opens m0 o0 (hs, p')"
    and "r = Panic q \<Longrightarrow> world_ok maps opens m0 o0 (hs, p')"
    using run so same world_ok_clone[OF ok u, of ?a "HSocket s" p'] undone
    by (auto simp: Socket_with_shared_def Socket_with_xdp_socket_def Let_def split: if_splits)
qed

lemma arc_clone_fds: "fds q = fds p \<Longrightarrow> fds (arc_clone a q) = fds (arc_clone a p)"
  by (simp add: arc_clone_def)

lemma configure_rt_accounts:
  assumes "accounts S maps opens" and "Umem_configure_rt S fd c k = (r, k1)"
  shows "maps k1 = maps k \<and> opens k1 = opens k"
proof -
  note a = setsockopt_or_accounts[OF assms(1)]
  obtain r' k' where 1: "(case rx_size c of None \<Rightarrow> (Ok (), k) | Some num \<Rightarrow> setsockopt_or S fd XDP_RX_RING (enc_u32 num) k) = (r', k')"
    by (metis surj_pair)
  then have "maps k' = maps k \<and> opens k' = opens k" using a by (auto split: option.splits)
  moreover have "maps k1 = maps k' \<and> opens k1 = opens k'"
    using assms(2) 1 a by (cases r') (auto simp: Umem_configure_rt_def split: option.splits)
  ultimately show ?thesis by simp
qed

lemma rx_tx_ok:
  assumes acc: "accounts S maps opens" and ok: "world_ok maps opens m0 o0 (hs, p)" and s: "HSocket s \<in># hs"
    and run: "Umem_rx_tx S pf s config p = (r, p')"
  shows "r = Ok us \<Longrightarrow> world_ok maps opens m0 o0 (hs + {#HUser us#}, p')"
    and "r = Err e \<Longrightarrow> world_ok maps opens m0 o0 (hs, p')"
    and "r = Panic q \<Longrightarrow> world_ok maps opens m0 o0 (hs, p')"
proof -
  let ?fd = "arc_get p (sock_fd s)"
  obtain r1 k1 where 1: "Umem_configure_rt S ?fd config (os p) = (r1, k1)" by (metis surj_pair)
  obtain r2 k2 where 2: "SocketMmapOffsets_new S pf ?fd k1 = (r2, k2)" by (metis surj_pair)
  note a1 = configure_rt_accounts[OF acc 1] and a2 = offsets_new_accounts[OF acc 2]
  show "r = Ok us \<Longrightarrow> world_ok maps opens m0 o0 (hs + {#HUser us#}, p')"
    and "r = Err e \<Longrightarrow> world_ok maps opens m0 o0 (hs, p')"
    and "r = Panic q \<Longrightarrow> world_ok maps opens m0 o0 (hs, p')"
    using run 1 2 a1 a2 world_ok_clone[OF ok s, of "sock_fd s" "HUser us" p'] world_ok_same[OF ok, of p']
      arc_clone_fds[of "p\<lparr>os := k2\<rparr>" p "sock_fd s"]
    by (cases r1; cases r2; auto simp: Umem_rx_tx_def Let_def on_os_def)+
qed

lemma map_rx_ok:
  assumes acc: "accounts S maps opens" and ok: "world_ok maps opens m0 o0 (hs, p)" and u: "HUser us \<in># hs"
    and run: "User_map_rx S pf us p = (r, p')"
  shows "r = Ok rx \<Longrightarrow> world_ok maps opens m0 o0 (hs + {#HRx rx#}, p')"
    and "r = Err e \<Longrightarrow> world_ok maps opens m0 o0 (hs, p')"
    and "r = Panic q \<Longrightarrow> panics_safely S pf (MapRx us) \<Longrightarrow> world_ok maps opens m0 o0 (hs, p')"
proof -
  let ?a = "sock_fd (user_socket us)"
  have "(r = Ok rx \<longrightarrow> world_ok maps opens m0 o0 (hs + {#HRx rx#}, p')) \<and> (r = Err e \<longrightarrow> world_ok maps opens m0 o0 (hs, p')) \<and>
    (r = Panic q \<longrightarrow> panics_safely S pf (MapRx us) \<longrightarrow> world_ok maps opens m0 o0 (hs, p'))"
  proof (cases "rx_size (user_config us)")
    case (Some n)
    obtain r1 k1 where 1: "RingCons_rx S pf (arc_get p ?a) (user_map us) n (os p) = (r1, k1)" by (metis surj_pair)
    note a1 = cons_map_accounts[OF acc disjI2[OF refl] 1]
    show ?thesis
      using run Some 1 a1 world_ok_clone[OF ok u, of ?a "HRx rx" p'] world_ok_same[OF ok, of p']
        arc_clone_fds[of "p\<lparr>os := k1\<rparr>" p ?a]
      by (cases r1) (auto simp: User_map_rx_def on_os_def)
  qed (use run ok in \<open>auto simp: User_map_rx_def\<close>)
  then show "r = Ok rx \<Longrightarrow> world_ok maps opens m0 o0 (hs + {#HRx rx#}, p')"
    and "r = Err e \<Longrightarrow> world_ok maps opens m0 o0 (hs, p')"
    and "r = Panic q \<Longrightarrow> panics_safely S pf (MapRx us) \<Longrightarrow> world_ok maps opens m0 o0 (hs, p')" by blast+
qed

lemma map_tx_ok:
  assumes acc: "accounts S maps opens" and ok: "world_ok maps opens m0 o0 (hs, p)" and u: "HUser us \<in># hs"
    and run: "User_map_tx S pf us p = (r, p')"
  shows "r = Ok tx \<Longrightarrow> world_ok maps opens m0 o0 (hs + {#HTx tx#}, p')"
    and "r = Err e \<Longrightarrow> world_ok maps opens m0 o0 (hs, p')"
    and "r = Panic q \<Longrightarrow> panics_safely S pf (MapTx us) \<Longrightarrow> world_ok maps opens m0 o0 (hs, p')"
proof -
  let ?a = "sock_fd (user_socket us)"
  have "(r = Ok tx \<longrightarrow> world_ok maps opens m0 o0 (hs + {#HTx tx#}, p')) \<and> (r = Err e \<longrightarrow> world_ok maps opens m0 o0 (hs, p')) \<and>
    (r = Panic q \<longrightarrow> panics_safely S pf (MapTx us) \<longrightarrow> world_ok maps opens m0 o0 (hs, p'))"
  proof (cases "tx_size (user_config us)")
    case (Some n)
    obtain r1 k1 where 1: "RingProd_tx S pf (arc_get p ?a) (user_map us) n (os p) = (r1, k1)" by (metis surj_pair)
    note a1 = prod_map_accounts[OF acc disjI2[OF refl] 1]
    show ?thesis
      using run Some 1 a1 world_ok_clone[OF ok u, of ?a "HTx tx" p'] world_ok_same[OF ok, of p']
        arc_clone_fds[of "p\<lparr>os := k1\<rparr>" p ?a]
      by (cases r1) (auto simp: User_map_tx_def on_os_def)
  qed (use run ok in \<open>auto simp: User_map_tx_def\<close>)
  then show "r = Ok tx \<Longrightarrow> world_ok maps opens m0 o0 (hs + {#HTx tx#}, p')"
    and "r = Err e \<Longrightarrow> world_ok maps opens m0 o0 (hs, p')"
    and "r = Panic q \<Longrightarrow> panics_safely S pf (MapTx us) \<Longrightarrow> world_ok maps opens m0 o0 (hs, p')" by blast+
qed

lemma fq_cq_ok:
  assumes acc: "accounts S maps opens" and ok: "world_ok maps opens m0 o0 (hs, p)"
    and u: "HUmem u \<in># hs" and s: "HSocket s \<in># hs" and run: "Umem_fq_cq S pf u s p = (r, p')"
  shows "r = Ok dq \<Longrightarrow> world_ok maps opens m0 o0 (hs + {#HQueue dq#}, p')"
    and "r = Err e \<Longrightarrow> world_ok maps opens m0 o0 (hs, p')"
    and "r = Panic q \<Longrightarrow> panics_safely S pf (FqCq u s) \<Longrightarrow> world_ok maps opens m0 o0 (hs, p')"
proof -
  let ?c = "if_ctx (sock_info s)" and ?d = "umem_devices u"
  note ctl = world_ok_ctl[OF ok u]
  have "(r = Ok dq \<longrightarrow> world_ok maps opens m0 o0 (hs + {#HQueue dq#}, p')) \<and> (r = Err e \<longrightarrow> world_ok maps opens m0 o0 (hs, p')) \<and>
    (r = Panic q \<longrightarrow> panics_safely S pf (FqCq u s) \<longrightarrow> world_ok maps opens m0 o0 (hs, p'))"
    using ctl
  proof (cases rule: DeviceControl_insert_cases[where c = "?c"])
    case refused
    with run ok show ?thesis by (auto simp: Umem_fq_cq_def Let_def)
  next
    case (claimed p1)
    obtain r1 p2 where rings: "fq_cq_rings S pf u s p1 = (r1, p2)" by (metis surj_pair)
    note eff = fq_cq_rings_accounts[OF acc rings]
    have undo: "ctls (DeviceControl_remove ?c ?d p2) = ctls p"
      using remove_ctls[OF eff(1)] claimed by simp
    have ins: "ctls p1 = (ctls p)[?d := insort ?c (ctls p ! ?d)]" "?c \<notin> set (ctls p ! ?d)"
      using claimed(1,2) by (auto simp: DeviceControl_insert_def SpinLockedControlSet_insert_def
          DeviceControl_contains_def SpinLockedControlSet_contains_def)
    show ?thesis
    proof (cases r1)
      case (Ok dq1)
      with run claimed rings have r: "r = Ok dq1" "p' = p2" by (simp_all add: Umem_fq_cq_def Let_def)
      have f: "fds p' = (fds p)[sock_fd s := (fst (fds p ! sock_fd s), snd (fds p ! sock_fd s) + 1)]"
        using eff(4)[OF Ok] claimed r by (simp add: arc_clone_def)
      have "sock_fd s \<in># image_mset h_fd hs" using s by force
      with ok f eff(2) r claimed
      have fd: "fd_inv o0 (add_mset (sock_fd s) (image_mset h_fd hs)) (fds p') (opens (os p'))"
        by (simp only: world_ok_def prod.case fd_inv_clone)
      have "ctl_inv (sum_mset (image_mset h_claims hs)) (ctls p)" "?d < length (ctls p)"
        using ok ctl by (simp_all add: world_ok_def ctl_ok_def)
      from ctl_inv_claim[OF this ins(2)]
      have ct: "ctl_inv (add_mset (?d, ?c) (sum_mset (image_mset h_claims hs))) (ctls p')"
        using eff(1) ins(1) r by simp
      have dq: "dq_socket dq1 = s" "dq_devices dq1 = ?d" and
        mp: "maps (os p') = maps (os p) + {#prod_mmap_addr (fcq_prod (dq_fcq dq1)), cons_mmap_addr (fcq_cons (dq_fcq dq1))#}"
        using eff(4)[OF Ok] claimed r by simp_all
      have len: "length (ctls p') = length (ctls p)" using eff(1) ins(1) r by simp
      have "world_ok maps opens m0 o0 (hs + {#HQueue dq1#}, p')"
        using ok fd ct mp dq len by (simp add: world_ok_def)
      then show ?thesis using r by auto
    next
      case (Err e1)
      with run claimed rings have r: "r = Err e1" "p' = DeviceControl_remove ?c ?d p2"
        by (simp_all add: Umem_fq_cq_def Let_def)
      with undo eff(2) eff(3)[OF Err] claimed world_ok_same[OF ok, of p'] show ?thesis by simp
    next
      case (Panic q1)
      with run claimed rings have r: "r = Panic q1" "p' = DeviceControl_remove ?c ?d p2"
        by (simp_all add: Umem_fq_cq_def Let_def)
      with undo eff(2) eff(5)[OF Panic] claimed world_ok_same[OF ok, of p'] show ?thesis by simp
    qed
  qed
  then show "r = Ok dq \<Longrightarrow> world_ok maps opens m0 o0 (hs + {#HQueue dq#}, p')"
    and "r = Err e \<Longrightarrow> world_ok maps opens m0 o0 (hs, p')"
    and "r = Panic q \<Longrightarrow> panics_safely S pf (FqCq u s) \<Longrightarrow> world_ok maps opens m0 o0 (hs, p')" by blast+
qed

text \<open>Calls that only ask or tell the kernel.\<close>

lemma quiet_calls:
  assumes acc: "accounts_all S maps opens" and ok: "world_ok maps opens m0 o0 (hs, p)"
  shows "Umem_bind S u us p = (r, p') \<Longrightarrow> world_ok maps opens m0 o0 (hs, p')"
    and "DeviceQueue_bind S dq us p = (r, p') \<Longrightarrow> world_ok maps opens m0 o0 (hs, p')"
    and "world_ok maps opens m0 o0 (hs, DeviceQueue_wake S dq p)"
    and "world_ok maps opens m0 o0 (hs, RingTx_wake S tx p)"
    and "DeviceQueue_statistics_v2 S dq p = (st, p') \<Longrightarrow> world_ok maps opens m0 o0 (hs, p')"
    and "User_statistics_v2 S us p = (st, p') \<Longrightarrow> world_ok maps opens m0 o0 (hs, p')"
    and "on_os (\<lambda>k. case IfInfo_from_name S name info k of (r, info1, k1) \<Rightarrow> (r, k1)) p = (r, p') \<Longrightarrow>
      world_ok maps opens m0 o0 (hs, p')"
    and "on_os (\<lambda>k. case IfInfo_from_ifindex S index info k of (r, info1, k1) \<Rightarrow> (r, k1)) p = (r, p') \<Longrightarrow>
      world_ok maps opens m0 o0 (hs, p')"
proof -
  note a = accounts_allD[OF acc]
  have os: "world_ok maps opens m0 o0 (hs, p\<lparr>os := k\<rparr>)" if "maps k = maps (os p)" "opens k = opens (os p)" for k
    by (rule world_ok_same[OF ok]) (simp_all add: that)
  have bnd: "world_ok maps opens m0 o0 (hs, p')" if "Umem_bind_at S us x p = (r, p')" for us x r
    using that os a(2,3) by (auto simp: Umem_bind_at_def on_os_def case_prod_unfold split: if_splits)
  then show "Umem_bind S u us p = (r, p') \<Longrightarrow> world_ok maps opens m0 o0 (hs, p')"
    and "DeviceQueue_bind S dq us p = (r, p') \<Longrightarrow> world_ok maps opens m0 o0 (hs, p')"
    by (auto simp: Umem_bind_def DeviceQueue_bind_def)
  show "world_ok maps opens m0 o0 (hs, DeviceQueue_wake S dq p)" "world_ok maps opens m0 o0 (hs, RingTx_wake S tx p)"
    using os a(4-7) by (simp_all add: DeviceQueue_wake_def RingTx_wake_def)
  have stats: "world_ok maps opens m0 o0 (hs, p')" if "on_os (XdpStatisticsV2_new S fd) p = (st, p')" for fd st
    using that os accountsD(5)[OF a(1)]
    by (fastforce simp: on_os_def XdpStatisticsV2_new_def XdpStatisticsV2_set_from_fd_def split: prod.splits if_splits)
  then show "DeviceQueue_statistics_v2 S dq p = (st, p') \<Longrightarrow> world_ok maps opens m0 o0 (hs, p')"
    and "User_statistics_v2 S us p = (st, p') \<Longrightarrow> world_ok maps opens m0 o0 (hs, p')"
    by (auto simp: DeviceQueue_statistics_v2_def User_statistics_v2_def)
  show "on_os (\<lambda>k. case IfInfo_from_name S name info k of (r, info1, k1) \<Rightarrow> (r, k1)) p = (r, p') \<Longrightarrow>
      world_ok maps opens m0 o0 (hs, p')"
    using os a(8,9) ok by (auto simp: on_os_def IfInfo_from_name_def Let_def case_prod_unfold split: if_splits)
  show "on_os (\<lambda>k. case IfInfo_from_ifindex S index info k of (r, info1, k1) \<Rightarrow> (r, k1)) p = (r, p') \<Longrightarrow>
      world_ok maps opens m0 o0 (hs, p')"
    using os a(10,11) by (auto simp: on_os_def IfInfo_from_ifindex_def Let_def case_prod_unfold split: if_splits)
qed

subsection \<open>Dropping\<close>

text \<open>Every handle's drop unmaps its mappings, gives up its claim and drops its share of the descriptor.\<close>

lemma h_drop_effect:
  assumes acc: "accounts S maps opens" and live: "0 < arc_count (h_fd h) p"
  shows "fds (h_drop S h p) = (fds p)[h_fd h := (fst (fds p ! h_fd h), snd (fds p ! h_fd h) - 1)]"
    and "maps (os (h_drop S h p)) = maps (os p) - h_maps h"
    and "opens (os (h_drop S h p)) =
      (if snd (fds p ! h_fd h) = 1 then opens (os p) - {#fst (fds p ! h_fd h)#} else opens (os p))"
    and "ctls (h_drop S h p) = (case h of
        HQueue dq \<Rightarrow> (ctls p)[dq_devices dq := remove1 (if_ctx (sock_info (dq_socket dq))) (ctls p ! dq_devices dq)]
      | _ \<Rightarrow> ctls p)"
proof -
  note un = unmap_accounts[OF acc]
  have cnt: "arc_count a q = arc_count a p" if "fds q = fds p" for a and q :: "'a proc"
    using that by (simp add: arc_count_def)
  have drp: "fds (arc_drop S (h_fd h) q) = (fds p)[h_fd h := (fst (fds p ! h_fd h), snd (fds p ! h_fd h) - 1)] \<and>
      ctls (arc_drop S (h_fd h) q) = ctls q \<and> maps (os (arc_drop S (h_fd h) q)) = maps (os q) \<and>
      opens (os (arc_drop S (h_fd h) q)) =
        (if snd (fds p ! h_fd h) = 1 then opens (os q) - {#fst (fds p ! h_fd h)#} else opens (os q))"
    if "fds q = fds p" for q
    using arc_drop_effect[OF acc, of "h_fd h" q] live cnt[OF that] that by simp
  have "fds (h_drop S h p) = (fds p)[h_fd h := (fst (fds p ! h_fd h), snd (fds p ! h_fd h) - 1)] \<and>
    maps (os (h_drop S h p)) = maps (os p) - h_maps h \<and>
    opens (os (h_drop S h p)) =
      (if snd (fds p ! h_fd h) = 1 then opens (os p) - {#fst (fds p ! h_fd h)#} else opens (os p)) \<and>
    ctls (h_drop S h p) = (case h of
        HQueue dq \<Rightarrow> (ctls p)[dq_devices dq := remove1 (if_ctx (sock_info (dq_socket dq))) (ctls p ! dq_devices dq)]
      | _ \<Rightarrow> ctls p)"
    using drp un
    by (cases h) (simp_all add: Umem_drop_def Socket_drop_def User_drop_def RingRx_drop_def RingTx_drop_def
        DeviceQueue_drop_def Let_def DeviceControl_remove_def SpinLockedControlSet_remove_def add_mset_commute)
  then show "fds (h_drop S h p) = (fds p)[h_fd h := (fst (fds p ! h_fd h), snd (fds p ! h_fd h) - 1)]"
    and "maps (os (h_drop S h p)) = maps (os p) - h_maps h"
    and "opens (os (h_drop S h p)) =
      (if snd (fds p ! h_fd h) = 1 then opens (os p) - {#fst (fds p ! h_fd h)#} else opens (os p))"
    and "ctls (h_drop S h p) = (case h of
        HQueue dq \<Rightarrow> (ctls p)[dq_devices dq := remove1 (if_ctx (sock_info (dq_socket dq))) (ctls p ! dq_devices dq)]
      | _ \<Rightarrow> ctls p)" by blast+
qed

lemma drop_ok:
  assumes acc: "accounts S maps opens" and ok: "world_ok maps opens m0 o0 (add_mset h hs, p)"
  shows "world_ok maps opens m0 o0 (hs, h_drop S h p)"
proof -
  note eff = h_drop_effect[OF acc world_ok_count[OF ok, of h]]
  have fd: "fd_inv o0 (image_mset h_fd hs) (fds (h_drop S h p)) (opens (os (h_drop S h p)))"
    using ok fd_inv_drop[of o0 "h_fd h" "image_mset h_fd hs" "fds p" "opens (os p)"] eff(1,3)
    by (simp add: world_ok_def)
  have mp: "maps (os (h_drop S h p)) = m0 + sum_mset (image_mset h_maps hs)"
    using ok eff(2) by (simp add: world_ok_def)
  have ct: "ctl_inv (sum_mset (image_mset h_claims hs)) (ctls (h_drop S h p)) \<and> length (ctls (h_drop S h p)) = length (ctls p)"
  proof (cases h)
    case (HQueue dq)
    then have "ctl_inv (add_mset (dq_devices dq, if_ctx (sock_info (dq_socket dq))) (sum_mset (image_mset h_claims hs))) (ctls p)"
      using ok by (simp add: world_ok_def)
    from ctl_inv_release(1)[OF this] eff(4) HQueue show ?thesis by simp
  qed (use ok eff(4) in \<open>simp_all add: world_ok_def\<close>)
  from ok fd mp ct show ?thesis by (simp add: world_ok_def)
qed

lemma use_ok:
  assumes "world_ok maps opens m0 o0 (add_mset h hs, p)" and "same_handle h h'"
  shows "world_ok maps opens m0 o0 (add_mset h' hs, p)"
  using assms by (cases "(h, h')" rule: same_handle.cases) (auto simp: world_ok_def)

subsection \<open>All calls\<close>

lemma creates_eq:
  "creates f x = (Ok new, p') \<longleftrightarrow> (\<exists>a. x = (Ok a, p') \<and> new = f a)"
  "creates f x = (Err e, p') \<longleftrightarrow> x = (Err e, p')"
  "creates f x = (Panic q, p') \<longleftrightarrow> x = (Panic q, p')"
  by (cases x; cases "fst x"; auto simp: creates_def)+

lemma api_call_ok:
  assumes acc: "accounts_all S maps opens" and ok: "world_ok maps opens m0 o0 (hs, p)"
    and held: "set (borrows c) \<subseteq> set_mset hs"
  shows "(api_call S pf c p = (Ok new, p') \<longrightarrow> world_ok maps opens m0 o0 (hs + new, p')) \<and>
    (api_call S pf c p = (Err e, p') \<longrightarrow> world_ok maps opens m0 o0 (hs, p')) \<and>
    (panics_safely S pf c \<longrightarrow> api_call S pf c p = (Panic q, p') \<longrightarrow> world_ok maps opens m0 o0 (hs, p'))"
proof -
  note a = accounts_allD(1)[OF acc] and quiet = quiet_calls[OF acc ok]
  show ?thesis
  proof (cases c)
    case (UmemNew config area)
    then show ?thesis
      by (auto simp: creates_eq dest: umem_new_ok(1)[OF a ok _ refl] umem_new_ok(2)[OF a ok _ refl]
        umem_new_ok(3)[OF a ok _ refl])
  next
    case (SocketNew info)
    then show ?thesis
      by (auto simp: creates_eq dest: socket_new_ok(1)[OF a ok _ refl] socket_new_ok(2)[OF a ok _ refl]
        socket_new_ok(3)[OF a ok _ refl])
  next
    case (WithShared info u)
    with held have h: "HUmem u \<in># hs" by simp
    from WithShared show ?thesis
      by (auto simp: creates_eq dest: with_shared_ok(1)[OF a ok h _ refl] with_shared_ok(2)[OF a ok h _ refl]
        with_shared_ok(3)[OF a ok h _ refl])
  next
    case (FqCq u s)
    with held have h: "HUmem u \<in># hs" "HSocket s \<in># hs" by simp_all
    from FqCq show ?thesis
      by (auto simp: creates_eq dest: fq_cq_ok(1)[OF a ok h _ refl] fq_cq_ok(2)[OF a ok h _ refl]
        fq_cq_ok(3)[OF a ok h _ refl])
  next
    case (RxTx u s config)
    with held have h: "HSocket s \<in># hs" by simp
    from RxTx show ?thesis
      by (auto simp: creates_eq dest: rx_tx_ok(1)[OF a ok h _ refl] rx_tx_ok(2)[OF a ok h _ refl]
        rx_tx_ok(3)[OF a ok h _ refl])
  next
    case (MapRx us)
    with held have h: "HUser us \<in># hs" by simp
    from MapRx show ?thesis
      by (auto simp: creates_eq dest: map_rx_ok(1)[OF a ok h _ refl] map_rx_ok(2)[OF a ok h _ refl]
        map_rx_ok(3)[OF a ok h _ refl])
  next
    case (MapTx us)
    with held have h: "HUser us \<in># hs" by simp
    from MapTx show ?thesis
      by (auto simp: creates_eq dest: map_tx_ok(1)[OF a ok h _ refl] map_tx_ok(2)[OF a ok h _ refl]
        map_tx_ok(3)[OF a ok h _ refl])
  qed (auto simp: creates_eq dest: quiet(1,2,5-8) intro: quiet(3,4))
qed

lemma api_step_ok:
  assumes "api_step S pf w w'" and acc: "accounts_all S maps opens" and ok: "world_ok maps opens m0 o0 w"
  shows "world_ok maps opens m0 o0 w'"
  using assms(1)
proof (cases rule: api_step.cases)
  case (api_ok c hs p new p')
  with api_call_ok[where new = new and p' = p' and pf = pf, OF acc _ api_ok(3)] ok show ?thesis by simp
next
  case (api_err c hs p e p')
  with api_call_ok[where e = e and p' = p' and pf = pf, OF acc _ api_err(3)] ok show ?thesis by simp
next
  case (api_panic c hs p q p')
  with api_call_ok[where q = q and p' = p' and pf = pf, OF acc _ api_panic(3)] ok show ?thesis by simp
next
  case (api_use h h' hs p)
  with use_ok ok show ?thesis by simp
next
  case (api_drop h hs p)
  with drop_ok[OF accounts_allD(1)[OF acc]] ok show ?thesis by simp
qed

lemma api_steps_ok:
  assumes "(api_step S pf)\<^sup>*\<^sup>* w w'" and "accounts_all S maps opens" and "world_ok maps opens m0 o0 w"
  shows "world_ok maps opens m0 o0 w'"
  using assms by (induction rule: rtranclp_induct) (auto intro: api_step_ok)

text \<open>A process that starts with nothing.\<close>

lemma start_ok: "fds p = [] \<Longrightarrow> ctls p = [] \<Longrightarrow> world_ok maps opens (maps (os p)) (opens (os p)) ({#}, p)"
  by (simp add: world_ok_def fd_inv_def ctl_inv_def live_fds_def)

lemma demo_accounts_all: "accounts_all demo_libc d_maps d_opens"
  using demo_accounts by (simp add: accounts_all_def demo_libc_def)

abbreviation demo_begin :: "demo proc" where
  "demo_begin \<equiv> \<lparr>os = demo_kernel [], fds = [], ctls = []\<rparr>"

lemma demo_calls:
  obtains u p1 s p2 dq p3 s2 p4 dq2 p5 where
    "Umem_new demo_libc Release UmemConfig_default (65536, 16384) demo_begin = (Ok u, p1)"
    and "Socket_with_shared demo_libc IfInfo_invalid u p1 = (Ok s, p2)"
    and "Umem_fq_cq demo_libc Release u s p2 = (Ok dq, p3)"
    and "Socket_new demo_libc (IfInfo_set_queue 1 IfInfo_invalid) p3 = (Ok s2, p4)"
    and "Umem_fq_cq demo_libc Release u s2 p4 = (Ok dq2, p5)"
    and "dq_devices dq = umem_devices u" and "dq_devices dq2 = umem_devices u"
  by (simp add: Umem_new_def is_page_aligned_def DeviceControl_new_def SocketFd_new_def arc_new_def arc_get_def
      arc_clone_def Umem_configure_def Socket_with_shared_def Socket_with_xdp_socket_def demo_run SOL_SOCKET_def
      Socket_new_def SOL_XDP_def IfInfo_invalid_def IfInfo_set_queue_def demo_offsets_def demo_ring_def
      dec_enc_offsets[of _ "[]", simplified])

lemma demo_life:
  obtains u s dq p s2 dq2 p' where "(api_step demo_libc Release)\<^sup>*\<^sup>* ({#}, demo_begin) ({#HQueue dq, HSocket s, HUmem u#}, p)"
    and "(api_step demo_libc Release)\<^sup>*\<^sup>* ({#}, demo_begin)
      (add_mset (HQueue dq2) (add_mset (HQueue dq) {#HSocket s2, HSocket s, HUmem u#}), p')"
    and "dq_devices dq2 = dq_devices dq"
proof (rule demo_calls)
  fix u p1 s p2 dq p3 s2 p4 dq2 p5
  assume run: "Umem_new demo_libc Release UmemConfig_default (65536, 16384) demo_begin = (Ok u, p1)"
      "Socket_with_shared demo_libc IfInfo_invalid u p1 = (Ok s, p2)"
      "Umem_fq_cq demo_libc Release u s p2 = (Ok dq, p3)"
      "Socket_new demo_libc (IfInfo_set_queue 1 IfInfo_invalid) p3 = (Ok s2, p4)"
      "Umem_fq_cq demo_libc Release u s2 p4 = (Ok dq2, p5)"
    and dev: "dq_devices dq = umem_devices u" "dq_devices dq2 = umem_devices u"
  let ?h3 = "{#HQueue dq, HSocket s, HUmem u#}"
  have 1: "api_step demo_libc Release ({#}, demo_begin) ({#} + {#HUmem u#}, p1)"
    by (rule api_ok[where c = "UmemNew UmemConfig_default (65536, 16384)"]) (simp_all add: run creates_eq)
  have 2: "api_step demo_libc Release ({#HUmem u#}, p1) ({#HUmem u#} + {#HSocket s#}, p2)"
    by (rule api_ok[where c = "WithShared IfInfo_invalid u"]) (simp_all add: run creates_eq)
  have 3: "api_step demo_libc Release ({#HSocket s, HUmem u#}, p2) ({#HSocket s, HUmem u#} + {#HQueue dq#}, p3)"
    by (rule api_ok[where c = "FqCq u s"]) (simp_all add: run creates_eq)
  have 4: "api_step demo_libc Release (?h3, p3) (?h3 + {#HSocket s2#}, p4)"
    by (rule api_ok[where c = "SocketNew (IfInfo_set_queue 1 IfInfo_invalid)"]) (simp_all add: run creates_eq)
  have 5: "api_step demo_libc Release (?h3 + {#HSocket s2#}, p4) (?h3 + {#HSocket s2#} + {#HQueue dq2#}, p5)"
    by (rule api_ok[where c = "FqCq u s2"]) (simp_all add: run creates_eq)
  have first: "(api_step demo_libc Release)\<^sup>*\<^sup>* ({#}, demo_begin) (?h3, p3)"
    using 1 2 3 by (simp add: converse_rtranclp_into_rtranclp r_into_rtranclp)
  then have "(api_step demo_libc Release)\<^sup>*\<^sup>* ({#}, demo_begin) (?h3 + {#HSocket s2#} + {#HQueue dq2#}, p5)"
    using 4 5 by (meson rtranclp.rtrancl_into_rtrancl)
  then have "(api_step demo_libc Release)\<^sup>*\<^sup>* ({#}, demo_begin)
      (add_mset (HQueue dq2) (add_mset (HQueue dq) {#HSocket s2, HSocket s, HUmem u#}), p5)"
    by (simp add: add_mset_commute)
  from that[OF first this] dev show thesis by simp
qed

subsection \<open>Properties\<close>

text \<open>
  C11. Whatever sequence of API calls a program makes in either build, on a system that accounts for mappings
  and descriptors, calls that fail included and calls that panic, but for a panic between mapping a ring and
  checking it: each descriptor is shared by exactly the handles counted, what is open and mapped beyond the
  start is exactly what the handles held own, and every handle's descriptor is still open.
\<close>

theorem handles_account_for_all:
  assumes "accounts_all S maps opens" and "fds p0 = []" and "ctls p0 = []"
    and "(api_step S pf)\<^sup>*\<^sup>* ({#}, p0) (hs, p)"
  shows "arc_count a p = size {#h \<in># hs. h_fd h = a#} \<and>
    opens (os p) = opens (os p0) + live_fds (fds p) \<and>
    maps (os p) = maps (os p0) + sum_mset (image_mset h_maps hs) \<and>
    (h \<in># hs \<longrightarrow> 0 < arc_count (h_fd h) p \<and> arc_get p (h_fd h) \<in># opens (os p))"
proof -
  have ok: "world_ok maps opens (maps (os p0)) (opens (os p0)) (hs, p)"
    by (rule api_steps_ok[OF assms(4,1) start_ok[OF assms(2,3)]])
  then have fd: "fd_inv (opens (os p0)) (image_mset h_fd hs) (fds p) (opens (os p))" by (simp add: world_ok_def)
  have "count (image_mset h_fd hs) a = size {#h \<in># hs. h_fd h = a#}"
    by (induction hs) auto
  moreover have "arc_get p (h_fd h) \<in># live_fds (fds p)" if "h \<in># hs"
  proof -
    have "h_fd h < length (fds p)" "0 < snd (fds p ! h_fd h)" using fd_inv_live[OF fd, of "h_fd h"] that by auto
    then show ?thesis by (force simp: live_fds_def arc_get_def)
  qed
  ultimately show ?thesis
    using ok fd world_ok_count[OF ok, of h] by (simp add: fd_inv_def world_ok_def arc_count_def)
qed

theorem handles_account_for_all_witness:
  "\<exists>u s dq p. (api_step demo_libc Release)\<^sup>*\<^sup>* ({#}, demo_begin) ({#HQueue dq, HSocket s, HUmem u#}, p) \<and>
    d_maps (os p) = h_maps (HQueue dq) \<and> arc_get p (umem_fd u) \<in># d_opens (os p)"
proof (rule demo_life)
  fix u s dq p
  assume run: "(api_step demo_libc Release)\<^sup>*\<^sup>* ({#}, demo_begin) ({#HQueue dq, HSocket s, HUmem u#}, p)"
  have "fds demo_begin = []" "ctls demo_begin = []" by simp_all
  from handles_account_for_all[OF demo_accounts_all this run, where h = "HUmem u" and a = 0]
  have "d_maps (os p) = h_maps (HQueue dq) \<and> arc_get p (umem_fd u) \<in># d_opens (os p)"
    by (auto simp: demo_kernel_def demo_state_def)
  with run show ?thesis by blast
qed

lemma nothing_held:
  assumes ok: "world_ok maps opens m0 o0 ({#}, p)"
  shows "opens (os p) = o0" and "maps (os p) = m0" and "set (ctls p) \<subseteq> {[]}" and "set (map snd (fds p)) \<subseteq> {0}"
proof -
  from ok have fd: "fd_inv o0 {#} (fds p) (opens (os p))" and ctl: "ctl_inv {#} (ctls p)"
    by (simp_all add: world_ok_def)
  have cells: "snd c = 0" if "c \<in> set (fds p)" for c
    using that fd[unfolded fd_inv_def] by (auto simp: in_set_conv_nth split: if_splits)
  have sets: "mset x = {#}" if "x \<in> set (ctls p)" for x
    using that ctl[unfolded ctl_inv_def] by (auto simp: in_set_conv_nth multiset_eq_iff split: if_splits)
  have "live_fds (fds p) = {#}" using cells by (auto simp: live_fds_def filter_empty_conv)
  with ok cells sets show "opens (os p) = o0" and "maps (os p) = m0"
    and "set (ctls p) \<subseteq> {[]}" and "set (map snd (fds p)) \<subseteq> {0}" by (auto simp: world_ok_def fd_inv_def)
qed

text \<open>
  C12. Nothing leaks and nothing is closed or unmapped twice: once a program has dropped all its handles, in
  whatever order, every descriptor and mapping created since the start is gone, those from before are still there,
  and every control set is empty.
\<close>

theorem no_handles_no_leaks:
  assumes "accounts_all S maps opens" and "fds p0 = []" and "ctls p0 = []"
    and "(api_step S pf)\<^sup>*\<^sup>* ({#}, p0) ({#}, p)"
  shows "opens (os p) = opens (os p0) \<and> maps (os p) = maps (os p0) \<and> set (ctls p) \<subseteq> {[]} \<and>
    set (map snd (fds p)) \<subseteq> {0}"
  using nothing_held[OF api_steps_ok[OF assms(4,1) start_ok[OF assms(2,3)]]] by blast

theorem no_handles_no_leaks_witness:
  "\<exists>u s dq p q. (api_step demo_libc Release)\<^sup>*\<^sup>* ({#}, demo_begin) ({#HQueue dq, HSocket s, HUmem u#}, p) \<and>
    (api_step demo_libc Release)\<^sup>*\<^sup>* ({#HQueue dq, HSocket s, HUmem u#}, p) ({#}, q) \<and>
    d_opens (os q) = {#} \<and> d_maps (os q) = {#}"
proof (rule demo_life)
  fix u s dq p
  assume run: "(api_step demo_libc Release)\<^sup>*\<^sup>* ({#}, demo_begin) ({#HQueue dq, HSocket s, HUmem u#}, p)"
  let ?p1 = "h_drop demo_libc (HQueue dq) p"
  let ?p2 = "h_drop demo_libc (HSocket s) ?p1"
  let ?q = "h_drop demo_libc (HUmem u) ?p2"
  have "api_step demo_libc Release ({#HQueue dq, HSocket s, HUmem u#}, p) ({#HSocket s, HUmem u#}, ?p1)"
    "api_step demo_libc Release ({#HSocket s, HUmem u#}, ?p1) ({#HUmem u#}, ?p2)"
    "api_step demo_libc Release ({#HUmem u#}, ?p2) ({#}, ?q)" by (rule api_drop)+
  then have drops: "(api_step demo_libc Release)\<^sup>*\<^sup>* ({#HQueue dq, HSocket s, HUmem u#}, p) ({#}, ?q)"
    by (meson converse_rtranclp_into_rtranclp r_into_rtranclp)
  have "fds demo_begin = []" "ctls demo_begin = []" by simp_all
  from no_handles_no_leaks[OF demo_accounts_all this rtranclp_trans[OF run drops]]
  have "d_opens (os ?q) = {#} \<and> d_maps (os ?q) = {#}" by (simp add: demo_kernel_def demo_state_def)
  with run drops show ?thesis by blast
qed

text \<open>
  C36. However a program goes about it, it never holds two \<open>DeviceQueue\<close>s for the same device queue on one UMEM.
\<close>

theorem queue_held_once:
  assumes "accounts_all S maps opens" and "fds p0 = []" and "ctls p0 = []"
    and "(api_step S pf)\<^sup>*\<^sup>* ({#}, p0) (add_mset (HQueue a) (add_mset (HQueue b) hs), p)"
    and "dq_devices a = dq_devices b"
  shows "if_ctx (sock_info (dq_socket a)) \<noteq> if_ctx (sock_info (dq_socket b))"
proof
  assume eq: "if_ctx (sock_info (dq_socket a)) = if_ctx (sock_info (dq_socket b))"
  have "world_ok maps opens (maps (os p0)) (opens (os p0)) (add_mset (HQueue a) (add_mset (HQueue b) hs), p)"
    by (rule api_steps_ok[OF assms(4,1) start_ok[OF assms(2,3)]])
  then have "ctl_inv (add_mset (dq_devices b, if_ctx (sock_info (dq_socket b)))
      (add_mset (dq_devices b, if_ctx (sock_info (dq_socket b))) (sum_mset (image_mset h_claims hs)))) (ctls p)"
    using eq assms(5) by (simp add: world_ok_def)
  from ctl_inv_once[OF this, of "dq_devices b" "if_ctx (sock_info (dq_socket b))"] show False by simp
qed

theorem queue_held_once_witness:
  "\<exists>a b hs p. (api_step demo_libc Release)\<^sup>*\<^sup>* ({#}, demo_begin) (add_mset (HQueue a) (add_mset (HQueue b) hs), p) \<and>
    dq_devices a = dq_devices b \<and> if_ctx (sock_info (dq_socket a)) \<noteq> if_ctx (sock_info (dq_socket b))"
proof (rule demo_life)
  fix s u s2 dq dq2 p'
  assume run: "(api_step demo_libc Release)\<^sup>*\<^sup>* ({#}, demo_begin)
      (add_mset (HQueue dq2) (add_mset (HQueue dq) {#HSocket s2, HSocket s, HUmem u#}), p')"
    and dev: "dq_devices dq2 = dq_devices dq"
  have "fds demo_begin = []" "ctls demo_begin = []" by simp_all
  from queue_held_once[OF demo_accounts_all this run dev] run dev show ?thesis by blast
qed

text \<open>
  Why a panic in \<open>XskRing::map\<close> is set apart: the assertion that a ring's size is a power of two, which only
  a debug build has, comes after the ring was mapped and before anything owns the mapping.
\<close>

theorem map_tx_panic_leaks:
  assumes acc: "accounts_all S maps opens" and n: "tx_size (user_config us) = Some n" "\<not> is_power_of_two n"
    and off: "o1 = off_desc (mo_tx (smo_inner (user_map us)))" "16 * unat n + unat o1 < 2 ^ 64"
    and mm: "sys_mmap S 0 (o1 + 16 * ucast n) PROT_READ_WRITE MAP_SHARED_POPULATE (arc_get p (sock_fd (user_socket us)))
      XDP_PGOFF_TX_RING (os p) = (addr, k1)" "addr \<noteq> MAP_FAILED"
  shows "User_map_tx S Debug us p = (Panic AssertFailed, p\<lparr>os := k1\<rparr>) \<and>
    maps k1 = add_mset (addr, o1 + 16 * ucast n) (maps (os p)) \<and> opens k1 = opens (os p)"
proof -
  have "rbind (mul_chk Debug (ucast n) 16) (add_chk Debug o1) = Inr (o1 + 16 * ucast n)"
    using off(2) unat_u32[of n] by (simp add: mul_chk_def add_chk_def unat_word_ariths mult.commute)
  with n off(1) mm have "User_map_tx S Debug us p = (Panic AssertFailed, p\<lparr>os := k1\<rparr>)"
    by (simp add: User_map_tx_def RingProd_tx_def XskRing_map_def XskRing_new_def on_os_def)
  moreover have "maps k1 = add_mset (addr, o1 + 16 * ucast n) (maps (os p)) \<and> opens k1 = opens (os p)"
    using accountsD(1)[OF accounts_allD(1)[OF acc] mm(1)] mm(2) by simp
  ultimately show ?thesis by simp
qed

end
