(* ===== verification/Session.thy ===== *)
theory Session
  imports User
begin

text \<open>
  The life of a proxy: open it, use some of its slots, publish them, close it.  The accounting that
  makes this safe is the same for all four proxies: the locale \<open>ring_session\<close> states what a proxy
  must provide and proves it once; the interpretations show that each proxy provides it.
\<close>

subsection \<open>The contract of a proxy\<close>

locale ring_session =
  fixes lend :: "'d \<Rightarrow> 'q"
    and opn :: "env \<Rightarrow> mem \<Rightarrow> 'd \<Rightarrow> u32 \<Rightarrow> ('p \<times> mem) res"
    and cur :: "'p \<Rightarrow> BufIdxIter"
    and ring :: "'p \<Rightarrow> 'q"
    and publish :: "env \<Rightarrow> mem \<Rightarrow> 'p \<Rightarrow> 'p res \<times> mem"
    and close :: "'p \<Rightarrow> 'q res"
    and head :: "'q \<Rightarrow> u32"
    and committed :: "mem \<Rightarrow> 'q \<Rightarrow> u32"
  assumes open_law: "opn env m d n = Inr (p, m') \<Longrightarrow>
      it_remain (cur p) = it_buffers (cur p) \<and> it_buffers (cur p) \<le> n \<and>
      head (ring p) = head (lend d) + it_buffers (cur p) \<and>
      (m' = m \<or> m' = env m) \<and> (\<forall>x. committed x (ring p) = committed x (lend d)) \<and>
      (it_buffers (cur p) = 0 \<or> it_base (cur p) = head (lend d))"
    and publish_law: "publish env m p = (p', m') \<Longrightarrow> it_remain (cur p) \<le> it_buffers (cur p) \<Longrightarrow>
      committed (env m) (ring p) = committed m (ring p) \<Longrightarrow>
      \<exists>p1. p' = Inr p1 \<and> ring p1 = ring p \<and> it_buffers (cur p1) = it_remain (cur p) \<and>
        it_remain (cur p1) = it_remain (cur p) \<and>
        committed m' (ring p) = committed m (ring p) + (it_buffers (cur p) - it_remain (cur p))"
    and close_law: "\<exists>q. close p = Inr q \<and> head q = head (ring p) - it_buffers (cur p) \<and>
      (\<forall>x. committed x q = committed x (ring p))"
begin

text \<open>
  Between sessions the cached head equals the shared one.  While a proxy lives the two differ by the
  slots the proxy still holds; publishing keeps that, using slots does not touch it.
\<close>

lemma open_accounts:
  assumes "head (lend d) = committed m (lend d)" and "opn env m d n = Inr (p, m')"
    and "committed (env m) (lend d) = committed m (lend d)"
  shows "head (ring p) = committed m' (ring p) + it_buffers (cur p)"
  using open_law[OF assms(2)] assms(1,3) by auto

lemma publish_accounts:
  assumes "head (ring p) = committed m (ring p) + it_buffers (cur p)"
    and "publish env m p = (Inr p1, m')" and "it_remain (cur p) \<le> it_buffers (cur p)"
    and "committed (env m) (ring p) = committed m (ring p)"
  shows "head (ring p1) = committed m' (ring p1) + it_buffers (cur p1)"
  using publish_law[OF assms(2-4)] assms(1) by auto

lemma close_balances:
  assumes "head (ring p) = committed m (ring p) + it_buffers (cur p)" and "close p = Inr q"
  shows "head q = committed m q"
  using close_law[of p] assms by auto

text \<open>Dropping a proxy that published nothing restores the head it started from.\<close>

lemma abort:
  assumes "opn env m d n = Inr (p, m')" and "ring p1 = ring p"
    and "it_buffers (cur p1) = it_buffers (cur p)" and "close p1 = Inr q"
  shows "head q = head (lend d)" and "committed x q = committed x (lend d)"
  using open_law[OF assms(1)] close_law[of p1] assms(2-4) by auto

text \<open>A whole session that uses \<open>k\<close> slots moves both heads by exactly \<open>k\<close>.\<close>

lemma session:
  assumes "head (lend d) = committed m (lend d)" and "opn env m d n = Inr (p, m1)"
    and "committed (env m) (lend d) = committed m (lend d)"
    and "ring p1 = ring p" and "it_buffers (cur p1) = it_buffers (cur p)"
    and "it_remain (cur p1) = it_buffers (cur p) - k" and "k \<le> it_buffers (cur p)"
    and "committed m2 (ring p) = committed m1 (ring p)"
    and "committed (env' m2) (ring p) = committed m2 (ring p)"
    and "publish env' m2 p1 = (p2, m3)"
  shows "\<exists>p3 q. p2 = Inr p3 \<and> close p3 = Inr q \<and> head q = committed m3 q \<and>
    committed m3 q = committed m (lend d) + k"
proof -
  have rem: "it_buffers (cur p) - k \<le> it_buffers (cur p)"
    using assms(7) by (simp add: word_sub_le)
  have kk: "it_buffers (cur p) - (it_buffers (cur p) - k) = k" by simp
  obtain p3 where p3: "p2 = Inr p3" "ring p3 = ring p" "it_buffers (cur p3) = it_buffers (cur p) - k"
    "committed m3 (ring p) = committed m2 (ring p) + k"
    using publish_law[OF assms(10)] assms(4-9) rem by auto
  obtain q where q: "close p3 = Inr q" "head q = head (ring p) - (it_buffers (cur p) - k)"
    "committed m3 q = committed m3 (ring p)"
    using close_law[of p3] p3 by auto
  have "head (ring p) = committed m1 (ring p) + it_buffers (cur p)"
    by (rule open_accounts[OF assms(1,2,3)])
  moreover have "committed m1 (ring p) = committed m (lend d)"
    using open_law[OF assms(2)] assms(3) by auto
  ultimately show ?thesis using p3 q assms(8) by auto
qed

end

subsection \<open>The four proxies keep the contract\<close>

abbreviation prod_head :: "RingProd \<Rightarrow> u32" where
  "prod_head q \<equiv> cached_producer (prod_inner q)"

abbreviation prod_committed :: "mem \<Rightarrow> RingProd \<Rightarrow> u32" where
  "prod_committed m q \<equiv> kprod m (prod_inner q)"

abbreviation cons_head :: "RingCons \<Rightarrow> u32" where
  "cons_head q \<equiv> cached_consumer (cons_inner q)"

abbreviation cons_committed :: "mem \<Rightarrow> RingCons \<Rightarrow> u32" where
  "cons_committed m q \<equiv> kcons m (cons_inner q)"

lemma reserve_cursor:
  assumes "BufIdxIter_reserve Release m q n = Inr (it, q')"
  shows "it_remain it = it_buffers it" "it_buffers it \<le> n" "prod_head q' = prod_head q + it_buffers it"
    "prod_committed x q' = prod_committed x q" "it_buffers it = 0 \<or> it_base it = prod_head q"
  using assms
  by (auto simp: BufIdxIter_reserve_def reserve_def count_free_def Let_def min_def split: if_splits)

lemma peek_cursor:
  assumes "BufIdxIter_peek Release env m q n = Inr (it, q', m')"
  shows "it_remain it = it_buffers it" "it_buffers it \<le> n" "cons_head q' = cons_head q + it_buffers it"
    "m' = m \<or> m' = env m" "cons_committed x q' = cons_committed x q"
    "it_buffers it = 0 \<or> it_base it = cons_head q"
  using assms
  by (auto simp: BufIdxIter_peek_def peek_def count_available_def Let_def min_def split: if_splits)

lemma commit_cursor:
  assumes "commit_prod Release env m it q = (it', m')" and "it_remain it \<le> it_buffers it"
    and "prod_committed (env m) q = prod_committed m q"
  obtains it1 where "it' = Inr it1" and "it_buffers it1 = it_remain it" and "it_remain it1 = it_remain it"
    and "prod_committed m' q = prod_committed m q + (it_buffers it - it_remain it)"
  using assms by (auto simp: commit_prod_Release submit_def Let_def split: if_splits)

lemma release_cursor:
  assumes "release_cons Release env m it q = (it', m')" and "it_remain it \<le> it_buffers it"
    and "cons_committed (env m) q = cons_committed m q"
  obtains it1 where "it' = Inr it1" and "it_buffers it1 = it_remain it" and "it_remain it1 = it_remain it"
    and "cons_committed m' q = cons_committed m q + (it_buffers it - it_remain it)"
  using assms by (auto simp: release_cons_Release release_def Let_def split: if_splits)

interpretation tx_session: ring_session tx_ring
  "\<lambda>env m tx n. rbind (RingTx_transmit Release m tx n) (\<lambda>w. Inr (w, m))"
  wt_idx wt_queue "WriteTx_commit Release" "WriteTx_drop Release" prod_head prod_committed
proof (unfold_locales, goal_cases)
  case (1 env m d n p m')
  then show ?case
    by (auto simp: RingTx_transmit_def res_simps dest: reserve_cursor)
next
  case (2 env m p p' m')
  then obtain it where "commit_prod Release env m (wt_idx p) (wt_queue p) = (it, m')"
    and "p' = rbind it (\<lambda>it1. Inr (p\<lparr>wt_idx := it1\<rparr>))"
    by (auto simp: WriteTx_commit_def split: prod.splits)
  with 2 show ?case by (auto elim!: commit_cursor)
next
  case (3 p)
  then show ?case by (auto simp: WriteTx_drop_def)
qed

interpretation fill_session: ring_session "\<lambda>dq. fcq_prod (dq_fcq dq)"
  "\<lambda>env m dq n. rbind (DeviceQueue_fill Release m dq n) (\<lambda>w. Inr (w, m))"
  wf_idx wf_queue "WriteFill_commit Release" "WriteFill_drop Release" prod_head prod_committed
proof (unfold_locales, goal_cases)
  case (1 env m d n p m')
  then show ?case
    by (auto simp: DeviceQueue_fill_def res_simps dest: reserve_cursor)
next
  case (2 env m p p' m')
  then obtain it where "commit_prod Release env m (wf_idx p) (wf_queue p) = (it, m')"
    and "p' = rbind it (\<lambda>it1. Inr (p\<lparr>wf_idx := it1\<rparr>))"
    by (auto simp: WriteFill_commit_def split: prod.splits)
  with 2 show ?case by (auto elim!: commit_cursor)
next
  case (3 p)
  then show ?case by (auto simp: WriteFill_drop_def)
qed

interpretation rx_session: ring_session rx_ring "RingRx_receive Release"
  rr_idx rr_queue "ReadRx_release Release" "ReadRx_drop Release" cons_head cons_committed
proof (unfold_locales, goal_cases)
  case (1 env m d n p m')
  then show ?case
    by (auto simp: RingRx_receive_def res_simps dest: peek_cursor)
next
  case (2 env m p p' m')
  then obtain it where "release_cons Release env m (rr_idx p) (rr_queue p) = (it, m')"
    and "p' = rbind it (\<lambda>it1. Inr (p\<lparr>rr_idx := it1\<rparr>))"
    by (auto simp: ReadRx_release_def split: prod.splits)
  with 2 show ?case by (auto elim!: release_cursor)
next
  case (3 p)
  then show ?case by (auto simp: ReadRx_drop_def)
qed

interpretation complete_session: ring_session "\<lambda>dq. fcq_cons (dq_fcq dq)"
  "DeviceQueue_complete Release"
  rc_idx rc_queue "ReadComplete_release Release" "ReadComplete_drop Release" cons_head cons_committed
proof (unfold_locales, goal_cases)
  case (1 env m d n p m')
  then show ?case
    by (auto simp: DeviceQueue_complete_def res_simps dest: peek_cursor)
next
  case (2 env m p p' m')
  then obtain it where "release_cons Release env m (rc_idx p) (rc_queue p) = (it, m')"
    and "p' = rbind it (\<lambda>it1. Inr (p\<lparr>rc_idx := it1\<rparr>))"
    by (auto simp: ReadComplete_release_def split: prod.splits)
  with 2 show ?case by (auto elim!: release_cursor)
next
  case (3 p)
  then show ?case by (auto simp: ReadComplete_drop_def)
qed

end
