(* ===== verification/Blocks.thy ===== *)
theory Blocks
  imports Session
begin

text \<open>
  Whole batches, the way \<open>examples/flood.rs\<close> uses the proxies: one scope that opens a proxy, uses
  it, publishes, and drops it.  In a release build such a batch always completes; a sending batch
  appends a prefix of its items to what the kernel has to consume, a receiving batch returns and
  removes a prefix of what the kernel has produced, whatever the kernel does meanwhile.
\<close>

subsection \<open>Definitions\<close>

definition send_block ::
  "profile \<Rightarrow> env \<Rightarrow> mem \<Rightarrow> RingTx \<Rightarrow> u32 \<Rightarrow> XdpDesc list \<Rightarrow> (u32 \<times> XdpDesc list \<times> RingTx \<times> mem) res"
where
  "send_block pf env m tx n bufs =
     rbind (RingTx_transmit pf m tx n) (\<lambda>writer.
       case WriteTx_insert m writer bufs of (sent_now, rest, writer1, m1) \<Rightarrow>
       case WriteTx_commit pf env m1 writer1 of (writer2, m2) \<Rightarrow>
         rbind writer2 (\<lambda>w. rbind (WriteTx_drop pf w) (\<lambda>q.
           Inr (sent_now, rest, tx\<lparr>tx_ring := q\<rparr>, m2))))"

definition fill_block ::
  "profile \<Rightarrow> env \<Rightarrow> mem \<Rightarrow> DeviceQueue \<Rightarrow> u32 \<Rightarrow> u64 list \<Rightarrow> (u32 \<times> u64 list \<times> DeviceQueue \<times> mem) res"
where
  "fill_block pf env m dq n bufs =
     rbind (DeviceQueue_fill pf m dq n) (\<lambda>writer.
       case WriteFill_insert m writer bufs of (filled, rest, writer1, m1) \<Rightarrow>
       case WriteFill_commit pf env m1 writer1 of (writer2, m2) \<Rightarrow>
         rbind writer2 (\<lambda>w. rbind (WriteFill_drop pf w) (\<lambda>q.
           Inr (filled, rest, dq\<lparr>dq_fcq := (dq_fcq dq)\<lparr>fcq_prod := q\<rparr>\<rparr>, m2))))"

lemma next_remain:
  "BufIdxIter_next it = (Some b, it1) \<Longrightarrow> unat (it_remain it1) < unat (it_remain it)"
proof -
  assume *: "BufIdxIter_next it = (Some b, it1)"
  then have nz: "it_remain it \<noteq> 0" by (cases "it_remain it = 0") simp_all
  with * have "it_remain it1 = it_remain it - 1" by auto
  moreover have "0 < unat (it_remain it)" using nz by (simp add: unat_gt_0)
  ultimately show ?thesis by (simp add: unat_pred[OF nz])
qed

text \<open>\<open>while reader.read().is_some()\<close>, keeping what was read.\<close>

function drain_complete :: "mem \<Rightarrow> ReadComplete \<Rightarrow> u64 list \<times> ReadComplete" where
  "drain_complete m w =
     (case ReadComplete_read m w of
        (None, w1) \<Rightarrow> ([], w1)
      | (Some x, w1) \<Rightarrow> apfst ((#) x) (drain_complete m w1))"
  by pat_completeness auto
termination
  by (relation "measure (\<lambda>(m, w). unat (it_remain (rc_idx w)))")
    (auto simp: ReadComplete_read_def split: prod.splits option.splits dest!: next_remain)

function drain_rx :: "mem \<Rightarrow> ReadRx \<Rightarrow> XdpDesc list \<times> ReadRx" where
  "drain_rx m w =
     (case ReadRx_read m w of
        (None, w1) \<Rightarrow> ([], w1)
      | (Some x, w1) \<Rightarrow> apfst ((#) x) (drain_rx m w1))"
  by pat_completeness auto
termination
  by (relation "measure (\<lambda>(m, w). unat (it_remain (rr_idx w)))")
    (auto simp: ReadRx_read_def split: prod.splits option.splits dest!: next_remain)

declare drain_complete.simps [simp del] drain_rx.simps [simp del]

definition complete_block ::
  "profile \<Rightarrow> env \<Rightarrow> env \<Rightarrow> mem \<Rightarrow> DeviceQueue \<Rightarrow> u32 \<Rightarrow> (u64 list \<times> DeviceQueue \<times> mem) res" where
  "complete_block pf env env' m dq n =
     rbind (DeviceQueue_complete pf env m dq n) (\<lambda>(reader, m1).
       case drain_complete m1 reader of (comps, reader1) \<Rightarrow>
       case ReadComplete_release pf env' m1 reader1 of (reader2, m2) \<Rightarrow>
         rbind reader2 (\<lambda>w. rbind (ReadComplete_drop pf w) (\<lambda>q.
           Inr (comps, dq\<lparr>dq_fcq := (dq_fcq dq)\<lparr>fcq_cons := q\<rparr>\<rparr>, m2))))"

definition receive_block ::
  "profile \<Rightarrow> env \<Rightarrow> env \<Rightarrow> mem \<Rightarrow> RingRx \<Rightarrow> u32 \<Rightarrow> (XdpDesc list \<times> RingRx \<times> mem) res" where
  "receive_block pf env env' m rx n =
     rbind (RingRx_receive pf env m rx n) (\<lambda>(reader, m1).
       case drain_rx m1 reader of (descs, reader1) \<Rightarrow>
       case ReadRx_release pf env' m1 reader1 of (reader2, m2) \<Rightarrow>
         rbind reader2 (\<lambda>w. rbind (ReadRx_drop pf w) (\<lambda>q.
           Inr (descs, rx\<lparr>rx_ring := q\<rparr>, m2))))"

subsection \<open>What does not depend on the cached heads\<close>

lemma view_irrelevant [simp]:
  "slot_addr sz (i\<lparr>cached_producer := a\<rparr>) x = slot_addr sz i x"
  "slot_addr sz (i\<lparr>cached_consumer := a\<rparr>) x = slot_addr sz i x"
  "ring_layout sz (i\<lparr>cached_producer := a\<rparr>) = ring_layout sz i"
  "ring_layout sz (i\<lparr>cached_consumer := a\<rparr>) = ring_layout sz i"
  "ring_wf (i\<lparr>cached_producer := a\<rparr>) = ring_wf i"
  "ring_wf (i\<lparr>cached_consumer := a\<rparr>) = ring_wf i"
  "in_flight m (i\<lparr>cached_producer := a\<rparr>) = in_flight m i"
  "in_flight m (i\<lparr>cached_consumer := a\<rparr>) = in_flight m i"
  "queue dec sz m (i\<lparr>cached_producer := a\<rparr>) = queue dec sz m i"
  "queue dec sz m (i\<lparr>cached_consumer := a\<rparr>) = queue dec sz m i"
  "prod_rely sz (i\<lparr>cached_producer := a\<rparr>) = prod_rely sz i"
  "prod_rely sz (i\<lparr>cached_consumer := a\<rparr>) = prod_rely sz i"
  "cons_rely sz (i\<lparr>cached_producer := a\<rparr>) = cons_rely sz i"
  "cons_rely sz (i\<lparr>cached_consumer := a\<rparr>) = cons_rely sz i"
  by (simp_all add: slot_addr_def ring_layout_def ring_wf_def in_flight_def queue_def items_def
      slot_at_def prod_rely_def cons_rely_def slots_region_def fun_eq_iff)

lemma items_view [simp]:
  "items dec sz m (i\<lparr>cached_producer := a\<rparr>) s k = items dec sz m i s k"
  "items dec sz m (i\<lparr>cached_consumer := a\<rparr>) s k = items dec sz m i s k"
  by (simp_all add: items_def slot_at_def)

lemma prod_inv_heads:
  "kprod m' i = kprod m i \<Longrightarrow> kcons m' i = kcons m i \<Longrightarrow> prod_inv m' i = prod_inv m i"
  by (simp add: prod_inv_def)

lemma prod_rely_queue:
  assumes "prod_rely sz i m m'"
  shows "queue dec sz m' i = drop (cdist (kcons m i) (kcons m' i)) (queue dec sz m i)"
proof -
  let ?d = "cdist (kcons m i) (kcons m' i)"
  have d: "?d \<le> in_flight m i" and p: "kprod m' i = kprod m i"
    using assms by (simp_all add: prod_rely_def)
  then have "in_flight m' i = in_flight m i - ?d"
    using cdist_diff[of "kcons m i" "kcons m' i" "kprod m i"] by (simp add: in_flight_def)
  moreover have "items dec sz m' i s k = items dec sz m i s k" for s k
    using assms by (intro items_cong) (simp add: slot_at_def prod_rely_def)
  ultimately show ?thesis
    using items_append[of dec sz m i "kcons m i" ?d "in_flight m i - ?d"] d
    by (simp add: queue_def cdist_of_nat)
qed

subsection \<open>One batch on a producer ring\<close>

lemma reserve_cursor_inv:
  assumes "prod_inv m (prod_inner q0)"
  obtains it q where "BufIdxIter_reserve Release m q0 n = Inr (it, q)"
    and "it_remain it = it_buffers it" and "it_buffers it \<le> n"
    and "it_buffers it = 0 \<or> it_base it = cached_producer (prod_inner q0)"
    and "unat (it_buffers it) \<le> free_slots m (prod_inner q0)"
    and "0 < free_slots m (prod_inner q0) \<longrightarrow> n = 0 \<or> it_buffers it \<noteq> 0"
    and "prod_inv m (prod_inner q)"
    and "staged m (prod_inner q) = staged m (prod_inner q0) + unat (it_buffers it)"
    and "\<exists>cc. prod_inner q = (prod_inner q0)\<lparr>cached_consumer := cc,
           cached_producer := cached_producer (prod_inner q0) + it_buffers it\<rparr>"
proof -
  obtain k idx' cc where
    res: "reserve Release m (1, n) 0 q0 = Inr (k, idx', q0\<lparr>prod_inner := (prod_inner q0)\<lparr>
        cached_consumer := cc, cached_producer := cached_producer (prod_inner q0) + k\<rparr>\<rparr>)"
    and inv: "prod_inv m ((prod_inner q0)\<lparr>cached_consumer := cc,
        cached_producer := cached_producer (prod_inner q0) + k\<rparr>)"
    and st: "staged m ((prod_inner q0)\<lparr>cached_consumer := cc,
        cached_producer := cached_producer (prod_inner q0) + k\<rparr>) = staged m (prod_inner q0) + unat k"
    and k: "unat k \<le> free_slots m (prod_inner q0)" "k \<le> n"
      "k \<noteq> 0 \<longrightarrow> min 1 n \<le> k \<and> idx' = cached_producer (prod_inner q0)"
      "unat (1 :: u32) \<le> free_slots m (prod_inner q0) \<longrightarrow> min 1 n \<le> k"
    by (rule reserve_Release[OF assms, of 1 n 0])
  have "0 < free_slots m (prod_inner q0) \<longrightarrow> n = 0 \<or> k \<noteq> 0"
    using k(4) by (auto simp: min_def split: if_splits)
  moreover have "BufIdxIter_reserve Release m q0 n =
      Inr (\<lparr>it_base = idx', it_buffers = k, it_remain = k\<rparr>, q0\<lparr>prod_inner := (prod_inner q0)\<lparr>
        cached_consumer := cc, cached_producer := cached_producer (prod_inner q0) + k\<rparr>\<rparr>)"
    by (simp add: BufIdxIter_reserve_def res)
  ultimately show thesis
    using inv st k(1-3)
    by (intro that[of "\<lparr>it_base = idx', it_buffers = k, it_remain = k\<rparr>" "q0\<lparr>prod_inner :=
        (prod_inner q0)\<lparr>cached_consumer := cc,
        cached_producer := cached_producer (prod_inner q0) + k\<rparr>\<rparr>"]) auto
qed

context slot_data begin

text \<open>Writing a prefix of the items through the cursor, before anything is committed.\<close>

lemma insert_stage:
  assumes "prod_inv m i" and "ring_layout sz i"
    and "unat (it_buffers it) = staged m i" and "it_remain it = it_buffers it"
    and "it_buffers it = 0 \<or> it_base it = kprod m i"
    and "insert_loop enc (slot_addr sz i) m it 0 xs = (n, rest, it1, m1)"
  shows "unat n = min (length xs) (staged m i)" and "rest = drop (Suc (unat n)) xs"
    and "it_buffers it1 = it_buffers it" and "it_buffers it - it_remain it1 = n"
    and "unat (it_remain it1) = staged m i - unat n"
    and "kprod m1 i = kprod m i" and "kcons m1 i = kcons m i" and "prod_inv m1 i"
    and "queue dec sz m1 i = queue dec sz m i"
    and "pre_queue dec sz m1 i (unat n) = take (unat n) xs"
proof -
  let ?k = "used it xs"
  note inv = prod_invD[OF assms(1)] and split = prod_inv_split[OF assms(1)]
  have klt: "?k < 2 ^ 32" using used_le(2)[of it xs] unat_u32[of "it_remain it"] by simp
  have eqs: "n = of_nat ?k" "rest = drop (Suc ?k) xs" "it1 = moved it ?k"
    "m1 = write_run enc (slot_addr sz i) m (it_base it) (take ?k xs)"
    using assms(6) by (simp_all add: insert_loop_eq)
  have n: "unat n = ?k" using klt by (simp add: eqs unat_of_nat)
  have k: "?k = min (length xs) (staged m i)" using assms(3,4) by (simp add: used_def)
  show "unat n = min (length xs) (staged m i)" "rest = drop (Suc (unat n)) xs"
    "it_buffers it1 = it_buffers it" "it_buffers it - it_remain it1 = n"
    using n k eqs assms(4) by simp_all
  show "unat (it_remain it1) = staged m i - unat n"
    using remain_moved[OF used_le(2), of it xs] assms(3,4) n by (simp add: eqs)
  let ?f = "in_flight m i"
  have run: "m1 = write_run enc (slot_addr sz i) m (kcons m i + of_nat ?f) (take ?k xs)"
  proof (cases "it_buffers it = 0")
    case True
    then have "?k = 0" using assms(4) by (simp add: used_def)
    then show ?thesis by (simp add: eqs)
  next
    case False
    then show ?thesis using assms(5) by (simp add: eqs kcons_in_flight)
  qed
  have len: "length (take ?k xs) = ?k" using used_le(1)[of it xs] by simp
  have "?f + length (take ?k xs) \<le> nslots i" using split(2) k len by simp
  from write_run_items[OF inv(1) assms(2) this, of m "kcons m i"]
  have items: "items dec sz m1 i (kcons m i) (?f + ?k) = queue dec sz m i @ take ?k xs"
    and p: "kprod m1 i = kprod m i" and c: "kcons m1 i = kcons m i"
    unfolding run[symmetric] len by (simp_all only: queue_def)
  show "kprod m1 i = kprod m i" "kcons m1 i = kcons m i" by (fact p, fact c)
  show "prod_inv m1 i" using prod_inv_heads[OF p c] assms(1) by simp
  have fl: "in_flight m1 i = ?f" by (simp add: in_flight_def p c)
  have "items dec sz m1 i (kcons m i) ?f @ items dec sz m1 i (kprod m i) ?k =
      queue dec sz m i @ take ?k xs"
    using items items_append[of dec sz m1 i "kcons m i" ?f ?k] by (simp add: kcons_in_flight)
  then show "queue dec sz m1 i = queue dec sz m i"
    and "pre_queue dec sz m1 i (unat n) = take (unat n) xs"
    by (simp_all add: queue_def pre_queue_def fl p c n append_eq_append_conv)
qed

text \<open>Committing what the cursor used, and closing.\<close>

lemma commit_stage:
  assumes "prod_inv m1 (prod_inner q)" and "ring_layout sz (prod_inner q)"
    and "prod_rely sz (prod_inner q) m1 (env m1)"
    and "unat (it_buffers it1) = staged m1 (prod_inner q)" and "it_remain it1 \<le> it_buffers it1"
    and "commit_prod Release env m1 it1 q = (it', m2)"
  obtains it2 where "it' = Inr it2" and "it_buffers it2 = it_remain it1"
    and "prod_inv m2 (prod_inner q)" and "staged m2 (prod_inner q) = unat (it_remain it1)"
    and "queue dec sz m2 (prod_inner q) =
      drop (cdist (kcons m1 (prod_inner q)) (kcons m2 (prod_inner q))) (queue dec sz m1 (prod_inner q)) @
      pre_queue dec sz m1 (prod_inner q) (unat (it_buffers it1 - it_remain it1))"
proof (cases "it_buffers it1 = 0")
  case True
  then have "it_remain it1 = 0" using assms(5) by simp
  with True assms show thesis by (intro that[of it1]) (auto simp: commit_prod_Release pre_queue_def)
next
  case False
  let ?i = "prod_inner q" and ?n = "it_buffers it1 - it_remain it1"
  have m2: "m2 = submit env m1 ?n q" using assms(6) False by (simp add: commit_prod_Release)
  have n: "unat ?n = unat (it_buffers it1) - unat (it_remain it1)"
    using assms(5) by (rule unat_sub)
  have r: "unat (it_remain it1) \<le> unat (it_buffers it1)" using assms(5) by (simp add: word_le_nat_alt)
  have le: "unat ?n \<le> staged m1 ?i" using n assms(4) by simp
  note sub = submit_rely[of m1 q sz env ?n, OF assms(1-3) le, folded m2]
    and sub3 = submit_rely(3)[of m1 q sz env ?n dec, OF assms(1-3) le, folded m2]
  have "kcons m2 ?i = kcons (env m1) ?i"
    using ring_layoutD[OF assms(2)] by (simp add: m2 submit_def Let_def load_u32_store_u32)
  then have "queue dec sz m2 ?i = drop (cdist (kcons m1 ?i) (kcons m2 ?i)) (queue dec sz m1 ?i) @
      pre_queue dec sz m1 ?i (unat ?n)"
    using sub3 prod_rely_queue[OF assms(3), of dec] by simp
  then show thesis
    using assms(6) False sub(1,2) n r assms(4)
    by (intro that[of "it1\<lparr>it_buffers := it_remain it1, it_base := it_base it1 + ?n\<rparr>"])
      (auto simp: commit_prod_Release)
qed

end

text \<open>What the environment may do to a producer ring and to a consumer ring, at every moment.\<close>

definition env_ok_prod :: "nat \<Rightarrow> XskRing \<Rightarrow> env \<Rightarrow> bool" where
  "env_ok_prod sz i env \<longleftrightarrow> (\<forall>m. prod_rely sz i m (env m))"

lemma cancel_stage:
  assumes "prod_inv m (prod_inner q)" and "staged m (prod_inner q) = unat n"
  shows "prod_inv m ((prod_inner q)\<lparr>cached_producer := cached_producer (prod_inner q) - n\<rparr>)"
    and "staged m ((prod_inner q)\<lparr>cached_producer := cached_producer (prod_inner q) - n\<rparr>) = 0"
  using prod_inv_retreat[OF assms(1), of n] assms(2) by simp_all

context slot_data begin

text \<open>
  The batch of either writer, which differ only in the ring they lend and the data they write.
\<close>

lemma prod_batch:
  fixes q0 :: RingProd
  defines "i \<equiv> prod_inner q0"
  assumes "prod_inv m i" and "ring_layout sz i" and "staged m i = 0" and "env_ok_prod sz i env"
  obtains it q sent it1 m1 it2 m2 i' where "BufIdxIter_reserve Release m q0 n = Inr (it, q)"
    and "insert_loop enc (slot_addr sz (prod_inner q)) m it 0 xs =
      (sent, drop (Suc (unat sent)) xs, it1, m1)"
    and "commit_prod Release env m1 it1 q = (Inr it2, m2)"
    and "i' = (prod_inner q)\<lparr>cached_producer := cached_producer (prod_inner q) - it_buffers it2\<rparr>"
    and "unat sent \<le> length xs" and "sent \<le> n" and "unat sent \<le> free_slots m i"
    and "0 < free_slots m i \<longrightarrow> n = 0 \<or> xs = [] \<or> sent \<noteq> 0"
    and "prod_inv m2 i'" and "staged m2 i' = 0"
    and "queue dec sz m2 i' = drop (cdist (kcons m i) (kcons m2 i)) (queue dec sz m i) @
      take (unat sent) xs"
    and "\<exists>a b. i' = i\<lparr>cached_consumer := a, cached_producer := b\<rparr>"
proof -
  obtain it q where res: "BufIdxIter_reserve Release m q0 n = Inr (it, q)"
    and it: "it_remain it = it_buffers it" "it_buffers it \<le> n"
      "it_buffers it = 0 \<or> it_base it = cached_producer i" "unat (it_buffers it) \<le> free_slots m i"
      "0 < free_slots m i \<longrightarrow> n = 0 \<or> it_buffers it \<noteq> 0"
    and inv: "prod_inv m (prod_inner q)" and "staged m (prod_inner q) = staged m i + unat (it_buffers it)"
    and "\<exists>cc. prod_inner q =
      i\<lparr>cached_consumer := cc, cached_producer := cached_producer i + it_buffers it\<rparr>"
    unfolding i_def by (rule reserve_cursor_inv[OF assms(2)[unfolded i_def], of n])
  then obtain cc where st: "staged m (prod_inner q) = unat (it_buffers it)"
    and q: "prod_inner q = i\<lparr>cached_consumer := cc, cached_producer := cached_producer i + it_buffers it\<rparr>"
    using assms(4) by auto
  have base: "cached_producer i = kprod m i" using assms(4) by (simp add: staged_def)
  have lay: "ring_layout sz (prod_inner q)" using assms(3) q by simp
  obtain sent rest it1 m1 where ins: "insert_loop enc (slot_addr sz (prod_inner q)) m it 0 xs =
      (sent, rest, it1, m1)" by (metis surj_pair)
  have b: "it_buffers it = 0 \<or> it_base it = kprod m (prod_inner q)" using it(3) base q by simp
  note stage = insert_stage[OF inv lay st[symmetric] it(1) b ins]
  obtain it' m2 where com: "commit_prod Release env m1 it1 q = (it', m2)" by (metis surj_pair)
  have rely: "prod_rely sz (prod_inner q) m1 (env m1)" using assms(5) q by (simp add: env_ok_prod_def)
  have st1: "unat (it_buffers it1) = staged m1 (prod_inner q)"
    using stage(3,6) st by (simp add: staged_def)
  have rem: "it_remain it1 \<le> it_buffers it1"
    using stage(3,5) st by (simp add: word_le_nat_alt)
  obtain it2 where it2: "it' = Inr it2" "it_buffers it2 = it_remain it1"
    and inv2: "prod_inv m2 (prod_inner q)" and st2: "staged m2 (prod_inner q) = unat (it_remain it1)"
    and qu: "queue dec sz m2 (prod_inner q) =
      drop (cdist (kcons m1 (prod_inner q)) (kcons m2 (prod_inner q))) (queue dec sz m1 (prod_inner q)) @
      pre_queue dec sz m1 (prod_inner q) (unat (it_buffers it1 - it_remain it1))"
    by (rule commit_stage[OF stage(8) lay rely st1 rem com])
  let ?i' = "(prod_inner q)\<lparr>cached_producer := cached_producer (prod_inner q) - it_buffers it2\<rparr>"
  have "queue dec sz m2 ?i' = drop (cdist (kcons m i) (kcons m2 i)) (queue dec sz m i) @
      take (unat sent) xs"
    using qu stage(3,4,7,9,10) q by simp
  moreover have "0 < free_slots m i \<longrightarrow> n = 0 \<or> xs = [] \<or> sent \<noteq> 0"
    using it(5) stage(1) st by (cases xs) (auto simp: unat_gt_0[symmetric])
  moreover have "unat sent \<le> unat (it_buffers it)" using stage(1) st by simp
  moreover have "prod_inv m2 ?i'" "staged m2 ?i' = 0"
    using cancel_stage[OF inv2 st2] it2(2) by simp_all
  moreover have "\<exists>a b. ?i' = i\<lparr>cached_consumer := a, cached_producer := b\<rparr>"
    by (intro exI[of _ cc] exI[of _ "cached_producer (prod_inner q) - it_buffers it2"]) (simp add: q)
  ultimately show thesis
    using res ins com it2(1) stage(1,2) it(2,4)
    by (intro that[of it q sent it1 m1 it2 m2 ?i']) (simp_all add: word_le_nat_alt)
qed

end

subsection \<open>One batch on a consumer ring\<close>

text \<open>Promised only where the ring is not overfull already, which the invariant excludes.\<close>

definition env_ok_cons :: "nat \<Rightarrow> XskRing \<Rightarrow> env \<Rightarrow> bool" where
  "env_ok_cons sz i env \<longleftrightarrow> (\<forall>m. in_flight m i \<le> nslots i \<longrightarrow> cons_rely sz i m (env m))"

lemma cons_rely_items:
  assumes "cons_rely sz i m m'" and "k \<le> in_flight m i"
  shows "items dec sz m' i (kcons m i) k = items dec sz m i (kcons m i) k"
  using assms by (intro items_cong) (simp add: slot_at_def cons_rely_def)

lemma cons_rely_queue:
  assumes "cons_rely sz i m m'"
  shows "\<exists>new. queue dec sz m' i = queue dec sz m i @ new"
proof -
  have c: "kcons m' i = kcons m i" and "in_flight m i \<le> in_flight m' i"
    using assms by (simp_all add: cons_rely_def)
  then have "in_flight m' i = in_flight m i + (in_flight m' i - in_flight m i)" by simp
  then have "queue dec sz m' i = items dec sz m' i (kcons m i) (in_flight m i) @
      items dec sz m' i (kcons m i + of_nat (in_flight m i)) (in_flight m' i - in_flight m i)"
    using items_append[of dec sz m' i "kcons m i" "in_flight m i" "in_flight m' i - in_flight m i"] c
    by (simp add: queue_def)
  then show ?thesis using cons_rely_items[OF assms order.refl] by (auto simp: queue_def)
qed

lemma take_items: "k \<le> n \<Longrightarrow> items dec sz m i s k = take k (items dec sz m i s n)"
  by (simp add: items_def take_map)

lemma length_queue [simp]: "length (queue dec sz m i) = in_flight m i"
  by (simp add: queue_def items_def)

lemma peek_cursor_inv:
  fixes q0 :: RingCons
  defines "i \<equiv> cons_inner q0"
  assumes "cons_inv m i" and "cons_rely sz i m (env m)"
  obtains it q m1 where "BufIdxIter_peek Release env m q0 n = Inr (it, q, m1)"
    and "it_remain it = it_buffers it" and "it_buffers it \<le> n" and "m1 = m \<or> m1 = env m"
    and "it_buffers it = 0 \<or> it_base it = cached_consumer i"
    and "unat (it_buffers it) \<le> avail m i"
    and "0 < avail m i \<longrightarrow> n = 0 \<or> it_buffers it \<noteq> 0"
    and "cons_inv m1 (cons_inner q)"
    and "taken m1 (cons_inner q) = taken m i + unat (it_buffers it)"
    and "\<exists>cp. cons_inner q = i\<lparr>cached_producer := cp,
           cached_consumer := cached_consumer i + it_buffers it\<rparr>"
proof -
  let ?mk = "\<lambda>k cp. i\<lparr>cached_producer := cp, cached_consumer := cached_consumer i + k\<rparr>"
  obtain k idx' cp m' where
    res: "peek Release env m (1, n) 0 q0 = Inr (k, idx', q0\<lparr>cons_inner := ?mk k cp\<rparr>, m')"
    and m': "m' = m \<or> m' = env m" and inv: "cons_inv m' (?mk k cp)"
    and tk: "taken m' (?mk k cp) = taken m i + unat k"
    and k: "unat k \<le> avail m i" "k \<le> n" "k \<noteq> 0 \<longrightarrow> min 1 n \<le> k \<and> idx' = cached_consumer i"
      "unat (1 :: u32) \<le> avail m i \<longrightarrow> min 1 n \<le> k"
    unfolding i_def
    by (rule peek_Release[of m q0 sz env 1 n 0, OF assms(2,3)[unfolded i_def]])
  have "0 < avail m i \<longrightarrow> n = 0 \<or> k \<noteq> 0"
    using k(4) by (auto simp: min_def split: if_splits)
  moreover have "BufIdxIter_peek Release env m q0 n =
      Inr (\<lparr>it_base = idx', it_buffers = k, it_remain = k\<rparr>, q0\<lparr>cons_inner := ?mk k cp\<rparr>, m')"
    by (simp add: BufIdxIter_peek_def res)
  ultimately show thesis
    using inv tk m' k(1-3)
    by (intro that[of "\<lparr>it_base = idx', it_buffers = k, it_remain = k\<rparr>" "q0\<lparr>cons_inner := ?mk k cp\<rparr>" m'])
      auto
qed

lemma cons_batch:
  fixes q0 :: RingCons
  defines "i \<equiv> cons_inner q0"
  assumes "cons_inv m i" and "ring_layout sz i" and "taken m i = 0"
    and "env_ok_cons sz i env" and "env_ok_cons sz i env'"
  obtains it q m1 it2 m2 i' where "BufIdxIter_peek Release env m q0 n = Inr (it, q, m1)"
    and "release_cons Release env' m1 (moved it (unat (it_remain it))) q = (Inr it2, m2)"
    and "it_buffers it2 = 0" and "cons_inner q = i'" and "unat (it_remain it) \<le> unat n"
    and "items dec sz m1 (cons_inner q) (it_base it) (unat (it_remain it)) =
      take (unat (it_remain it)) (queue dec sz m i)"
    and "unat (it_remain it) \<le> avail m i"
    and "0 < avail m i \<longrightarrow> n = 0 \<or> it_remain it \<noteq> 0"
    and "cons_inv m2 i'" and "taken m2 i' = 0"
    and "\<exists>new. queue dec sz m2 i' = drop (unat (it_remain it)) (queue dec sz m i) @ new"
proof -
  note split = cons_inv_split[OF assms(2)]
  have rely: "cons_rely sz i m (env m)"
    using assms(2,5) cons_invD(4) by (simp add: env_ok_cons_def)
  obtain it q m1 where res: "BufIdxIter_peek Release env m q0 n = Inr (it, q, m1)"
    and it: "it_remain it = it_buffers it" "it_buffers it \<le> n"
      "it_buffers it = 0 \<or> it_base it = cached_consumer i" "unat (it_buffers it) \<le> avail m i"
      "0 < avail m i \<longrightarrow> n = 0 \<or> it_buffers it \<noteq> 0"
    and m1: "m1 = m \<or> m1 = env m" and inv: "cons_inv m1 (cons_inner q)"
    and tk: "taken m1 (cons_inner q) = taken m i + unat (it_buffers it)"
    and q: "\<exists>cp. cons_inner q =
      i\<lparr>cached_producer := cp, cached_consumer := cached_consumer i + it_buffers it\<rparr>"
    unfolding i_def
    by (rule peek_cursor_inv[of m q0 sz env n, OF assms(2)[unfolded i_def] rely[unfolded i_def]])
  let ?k = "unat (it_remain it)" and ?i' = "cons_inner q"
  have same: "queue dec sz x ?i' = queue dec sz x i" "in_flight x ?i' = in_flight x i"
    "ring_layout sz ?i' = ring_layout sz i" "cons_rely sz ?i' = cons_rely sz i"
    "producer ?i' = producer i" "consumer ?i' = consumer i" "items dec sz x ?i' s j = items dec sz x i s j"
    "nslots ?i' = nslots i" for x s j
    using q by (auto simp: items_view)
  have rely1: "cons_rely sz i m m1" using m1 rely cons_rely_refl[OF assms(2)] by auto
  have c: "kcons m1 i = kcons m i" using rely1 by (simp add: cons_rely_def)
  have kf: "?k \<le> in_flight m i" using it(1,4) split(1) by simp
  have base: "items dec sz m1 i (it_base it) ?k = take ?k (queue dec sz m i)"
  proof (cases "it_buffers it = 0")
    case True
    with it(1) show ?thesis by (simp add: items_def)
  next
    case False
    then have "it_base it = kcons m i" using it(3) assms(4) by (simp add: taken_def)
    then show ?thesis
      using cons_rely_items[OF rely1 kf, of dec] take_items[OF kf, of dec sz m i "kcons m i"]
      by (simp add: queue_def)
  qed
  have rely2: "cons_rely sz ?i' m1 (env' m1)"
    using assms(6) cons_invD(4)[OF inv] same by (simp add: env_ok_cons_def)
  let ?m2 = "if it_buffers it = 0 then m1 else release env' m1 (it_buffers it) q"
  let ?it1 = "moved it ?k"
  let ?it2 = "if it_buffers it = 0 then ?it1 else
      ?it1\<lparr>it_buffers := 0, it_base := it_base ?it1 + it_buffers it\<rparr>"
  have rel: "release_cons Release env' m1 ?it1 q = (Inr ?it2, ?m2)"
    using it(1) by (simp add: release_cons_Release)
  have "cons_inv ?m2 ?i' \<and> taken ?m2 ?i' = 0 \<and>
    (\<exists>new. queue dec sz ?m2 ?i' = drop ?k (queue dec sz m i) @ new)"
  proof (cases "it_buffers it = 0")
    case True
    then show ?thesis
      using inv tk assms(4) it(1) cons_rely_queue[OF rely1, of dec] same by simp
  next
    case False
    have le: "unat (it_buffers it) \<le> taken m1 ?i'" using tk by simp
    note r = release_rely[of m1 q sz env' "it_buffers it", OF inv _ rely2 le]
    have lay: "ring_layout sz ?i'" using assms(3) same by simp
    obtain new1 where n1: "queue dec sz m1 i = queue dec sz m i @ new1"
      using cons_rely_queue[OF rely1, of dec] by auto
    obtain new2 where n2: "queue dec sz (env' m1) i = queue dec sz m1 i @ new2"
      using cons_rely_queue[OF rely2, of dec] same by auto
    have "queue dec sz (env' m1) i = items dec sz m1 i (kcons m1 i) ?k @
        queue dec sz (release env' m1 (it_buffers it) q) i"
      using release_rely(3)[of m1 q sz env' "it_buffers it" dec, OF inv lay rely2 le] same it(1) by simp
    then have "queue dec sz (release env' m1 (it_buffers it) q) i =
        drop ?k (queue dec sz (env' m1) i)" by (simp add: items_def)
    also have "\<dots> = drop ?k (queue dec sz m i) @ new1 @ new2"
      using kf by (simp add: n1 n2)
    finally show ?thesis
      using False r(1,2)[OF lay] tk assms(4) same by auto
  qed
  then show thesis
    using res rel base it same by (intro that[of it q m1 ?it2 ?m2 ?i']) (auto simp: word_le_nat_alt)
qed

text \<open>Reading to the end reads the run of slots the cursor covers.\<close>

lemma moved_step:
  assumes "it_remain it \<noteq> 0"
  shows "\<exists>k. unat (it_remain it) = Suc k \<and> unat (it_remain it - 1) = k \<and>
    moved (it\<lparr>it_remain := it_remain it - 1, it_base := it_base it + 1\<rparr>) k = moved it (Suc k)"
proof -
  have "0 < unat (it_remain it)" using assms by (simp add: unat_gt_0)
  then show ?thesis
    using unat_pred[OF assms]
    by (intro exI[of _ "unat (it_remain it) - 1"]) (simp add: moved_def algebra_simps)
qed

lemma drain_rx_eq:
  "drain_rx m w = (items dec_desc 16 m (cons_inner (rr_queue w)) (it_base (rr_idx w))
      (unat (it_remain (rr_idx w))),
    w\<lparr>rr_idx := moved (rr_idx w) (unat (it_remain (rr_idx w)))\<rparr>)"
proof (induction m w rule: drain_rx.induct)
  case (1 m w)
  show ?case
  proof (cases "it_remain (rr_idx w) = 0")
    case True
    then show ?thesis by (simp add: drain_rx.simps ReadRx_read_def)
  next
    case False
    let ?it = "(rr_idx w)\<lparr>it_remain := it_remain (rr_idx w) - 1, it_base := it_base (rr_idx w) + 1\<rparr>"
    have read: "ReadRx_read m w =
        (Some (slot_at dec_desc 16 m (cons_inner (rr_queue w)) (it_base (rr_idx w))), w\<lparr>rr_idx := ?it\<rparr>)"
      using False by (simp add: ReadRx_read_def rx_desc_eq slot_at_def)
    obtain k where k: "unat (it_remain (rr_idx w)) = Suc k" "unat (it_remain (rr_idx w) - 1) = k"
      "moved ?it k = moved (rr_idx w) (Suc k)"
      using moved_step[OF False] by auto
    show ?thesis
      using 1[OF read[symmetric] refl] k
      by (subst drain_rx.simps) (simp add: read items_Suc_front)
  qed
qed

lemma drain_complete_eq:
  "drain_complete m w = (items dec_u64 8 m (cons_inner (rc_queue w)) (it_base (rc_idx w))
      (unat (it_remain (rc_idx w))),
    w\<lparr>rc_idx := moved (rc_idx w) (unat (it_remain (rc_idx w)))\<rparr>)"
proof (induction m w rule: drain_complete.induct)
  case (1 m w)
  show ?case
  proof (cases "it_remain (rc_idx w) = 0")
    case True
    then show ?thesis by (simp add: drain_complete.simps ReadComplete_read_def)
  next
    case False
    let ?it = "(rc_idx w)\<lparr>it_remain := it_remain (rc_idx w) - 1, it_base := it_base (rc_idx w) + 1\<rparr>"
    have read: "ReadComplete_read m w =
        (Some (slot_at dec_u64 8 m (cons_inner (rc_queue w)) (it_base (rc_idx w))), w\<lparr>rc_idx := ?it\<rparr>)"
      using False by (simp add: ReadComplete_read_def comp_addr_eq slot_at_def)
    obtain k where k: "unat (it_remain (rc_idx w)) = Suc k" "unat (it_remain (rc_idx w) - 1) = k"
      "moved ?it k = moved (rc_idx w) (Suc k)"
      using moved_step[OF False] by auto
    show ?thesis
      using 1[OF read[symmetric] refl] k
      by (subst drain_complete.simps) (simp add: read items_Suc_front)
  qed
qed

end
