(* ===== verification/Batches.thy ===== *)
theory Batches
  imports Blocks
begin

text \<open>
  What the batches of \<open>Blocks\<close> achieve, stated for each of the four proxies, and what happens when
  a proxy is dropped without publishing or publishes more than once.
\<close>

subsection \<open>A kernel for the witnesses\<close>

definition consume_env :: "XskRing \<Rightarrow> env" where
  "consume_env i m = (if 0 < in_flight m i then kernel_consume i m else m)"

definition produce_env :: "('a \<Rightarrow> u8 list) \<Rightarrow> nat \<Rightarrow> XskRing \<Rightarrow> 'a \<Rightarrow> env" where
  "produce_env enc sz i x m = (if in_flight m i < nslots i then kernel_produce enc sz i x m else m)"

lemma consume_env_ok: "ring_wf i \<Longrightarrow> ring_layout sz i \<Longrightarrow> env_ok_prod sz i (consume_env i)"
  using kernel_consume_rely by (simp add: env_ok_prod_def consume_env_def) (simp add: prod_rely_def)

context slot_data begin

lemma produce_env_ok:
  "ring_wf i \<Longrightarrow> ring_layout sz i \<Longrightarrow> env_ok_cons sz i (produce_env enc sz i x)"
  using kernel_produce_rely by (simp add: env_ok_cons_def produce_env_def) (simp add: cons_rely_def)

end

subsection \<open>Properties of the sending batches\<close>

text \<open>
  C16. Sending a batch in a release build (open, insert, commit, drop, as \<open>flood.rs\<close> does) always
  completes whatever the kernel consumes meanwhile.  It sends the first \<open>sent\<close> descriptors, in
  order, behind those not yet consumed, and at least one if a slot is free; it leaves nothing
  reserved and the invariant intact; the item after the last one sent is lost to the iterator.
\<close>

theorem send_block_sound:
  fixes tx :: RingTx
  defines "i \<equiv> prod_inner (tx_ring tx)"
  assumes "prod_inv m i" and "ring_layout 16 i" and "staged m i = 0" and "env_ok_prod 16 i env"
  shows "\<exists>sent tx' m2. send_block Release env m tx n xs = Inr (sent, drop (Suc (unat sent)) xs, tx', m2) \<and>
    unat sent \<le> length xs \<and> sent \<le> n \<and> unat sent \<le> free_slots m i \<and>
    (free_slots m i = 0 \<or> n = 0 \<or> xs = [] \<or> sent \<noteq> 0) \<and>
    prod_inv m2 (prod_inner (tx_ring tx')) \<and> staged m2 (prod_inner (tx_ring tx')) = 0 \<and>
    queue dec_desc 16 m2 (prod_inner (tx_ring tx')) =
      drop (cdist (kcons m i) (kcons m2 i)) (queue dec_desc 16 m i) @ take (unat sent) xs"
proof -
  obtain it q sent it1 m1 it2 m2 i' where run: "BufIdxIter_reserve Release m (tx_ring tx) n = Inr (it, q)"
      "insert_loop enc_desc (slot_addr 16 (prod_inner q)) m it 0 xs =
        (sent, drop (Suc (unat sent)) xs, it1, m1)"
      "commit_prod Release env m1 it1 q = (Inr it2, m2)"
      "i' = (prod_inner q)\<lparr>cached_producer := cached_producer (prod_inner q) - it_buffers it2\<rparr>"
    and res: "unat sent \<le> length xs" "sent \<le> n" "unat sent \<le> free_slots m i"
      "0 < free_slots m i \<longrightarrow> n = 0 \<or> xs = [] \<or> sent \<noteq> 0" "prod_inv m2 i'" "staged m2 i' = 0"
      "queue dec_desc 16 m2 i' = drop (cdist (kcons m i) (kcons m2 i)) (queue dec_desc 16 m i) @
        take (unat sent) xs"
    unfolding i_def by (rule desc_slot.prod_batch[of m "tx_ring tx" env n xs, OF assms(2-5)[unfolded i_def]])
  have "send_block Release env m tx n xs =
      Inr (sent, drop (Suc (unat sent)) xs, tx\<lparr>tx_ring := q\<lparr>prod_inner := i'\<rparr>\<rparr>, m2)"
    using run by (simp add: send_block_def RingTx_transmit_def WriteTx_insert_def WriteTx_commit_def
        WriteTx_drop_def tx_desc_eq[abs_def])
  with res show ?thesis by auto
qed

lemma sample_tx [simp]:
  "prod_inv (sample_mem 1 4294967294) (sample_ring 1 2)" "staged (sample_mem 1 4294967294) (sample_ring 1 2) = 0"
  "free_slots (sample_mem 1 4294967294) (sample_ring 1 2) = 1"
  by (simp_all add: prod_inv_def Let_def cdist_def staged_def free_slots_def)

theorem send_block_sound_witness:
  "\<exists>sent tx' m2. send_block Release (consume_env (sample_ring 1 2)) (sample_mem 1 4294967294)
     \<lparr>tx_ring = \<lparr>prod_inner = sample_ring 1 2, prod_mmap_addr = (4096, 256)\<rparr>, tx_fd = 0\<rparr> 32
     [\<lparr>desc_addr = 0, desc_len = 64, desc_options = 0\<rparr>, \<lparr>desc_addr = 4096, desc_len = 64, desc_options = 0\<rparr>] =
     Inr (sent, drop (Suc (unat sent)) [\<lparr>desc_addr = 0, desc_len = 64, desc_options = 0\<rparr>,
       \<lparr>desc_addr = 4096, desc_len = 64, desc_options = 0\<rparr>], tx', m2) \<and> sent \<noteq> 0 \<and> unat sent \<le> 1"
proof -
  let ?tx = "\<lparr>tx_ring = \<lparr>prod_inner = sample_ring 1 2, prod_mmap_addr = (4096, 256)\<rparr>, tx_fd = 0\<rparr>"
  have "prod_inv (sample_mem 1 4294967294) (prod_inner (tx_ring ?tx))"
    "ring_layout 16 (prod_inner (tx_ring ?tx))"
    "staged (sample_mem 1 4294967294) (prod_inner (tx_ring ?tx)) = 0"
    "env_ok_prod 16 (prod_inner (tx_ring ?tx)) (consume_env (sample_ring 1 2))"
    by (simp_all add: consume_env_ok)
  from send_block_sound[where env = "consume_env (sample_ring 1 2)", OF this, of 32
      "[\<lparr>desc_addr = 0, desc_len = 64, desc_options = 0\<rparr>, \<lparr>desc_addr = 4096, desc_len = 64, desc_options = 0\<rparr>]"]
  show ?thesis by auto
qed

text \<open>
  C18. Filling in a release build likewise always completes, whatever the kernel consumes meanwhile,
  and hands the kernel the first \<open>filled\<close> addresses in order, behind those it has not consumed.
\<close>

theorem fill_block_sound:
  fixes dq :: DeviceQueue
  defines "i \<equiv> prod_inner (fcq_prod (dq_fcq dq))"
  assumes "prod_inv m i" and "ring_layout 8 i" and "staged m i = 0" and "env_ok_prod 8 i env"
  shows "\<exists>filled dq' m2. fill_block Release env m dq n xs =
      Inr (filled, drop (Suc (unat filled)) xs, dq', m2) \<and>
    unat filled \<le> length xs \<and> filled \<le> n \<and> unat filled \<le> free_slots m i \<and>
    (free_slots m i = 0 \<or> n = 0 \<or> xs = [] \<or> filled \<noteq> 0) \<and>
    prod_inv m2 (prod_inner (fcq_prod (dq_fcq dq'))) \<and>
    staged m2 (prod_inner (fcq_prod (dq_fcq dq'))) = 0 \<and>
    queue dec_u64 8 m2 (prod_inner (fcq_prod (dq_fcq dq'))) =
      drop (cdist (kcons m i) (kcons m2 i)) (queue dec_u64 8 m i) @ take (unat filled) xs"
proof -
  obtain it q sent it1 m1 it2 m2 i' where
    run: "BufIdxIter_reserve Release m (fcq_prod (dq_fcq dq)) n = Inr (it, q)"
      "insert_loop enc_u64 (slot_addr 8 (prod_inner q)) m it 0 xs =
        (sent, drop (Suc (unat sent)) xs, it1, m1)"
      "commit_prod Release env m1 it1 q = (Inr it2, m2)"
      "i' = (prod_inner q)\<lparr>cached_producer := cached_producer (prod_inner q) - it_buffers it2\<rparr>"
    and res: "unat sent \<le> length xs" "sent \<le> n" "unat sent \<le> free_slots m i"
      "0 < free_slots m i \<longrightarrow> n = 0 \<or> xs = [] \<or> sent \<noteq> 0" "prod_inv m2 i'" "staged m2 i' = 0"
      "queue dec_u64 8 m2 i' = drop (cdist (kcons m i) (kcons m2 i)) (queue dec_u64 8 m i) @
        take (unat sent) xs"
    unfolding i_def
    by (rule u64_slot.prod_batch[of m "fcq_prod (dq_fcq dq)" env n xs, OF assms(2-5)[unfolded i_def]])
  have "fill_block Release env m dq n xs = Inr (sent, drop (Suc (unat sent)) xs,
      dq\<lparr>dq_fcq := (dq_fcq dq)\<lparr>fcq_prod := q\<lparr>prod_inner := i'\<rparr>\<rparr>\<rparr>, m2)"
    using run by (simp add: fill_block_def DeviceQueue_fill_def WriteFill_insert_def
        WriteFill_commit_def WriteFill_drop_def fill_addr_eq[abs_def])
  with res show ?thesis by auto
qed

definition sample_dq :: "XskRing \<Rightarrow> DeviceQueue" where
  "sample_dq i = \<lparr>dq_fcq = \<lparr>fcq_prod = \<lparr>prod_inner = i, prod_mmap_addr = (4096, 224)\<rparr>,
       fcq_cons = \<lparr>cons_inner = i, cons_mmap_addr = (4096, 224)\<rparr>,
       fcq_map = \<lparr>smo_inner = XdpMmapOffsets_default\<rparr>\<rparr>,
     dq_socket = \<lparr>sock_info = \<lparr>if_ctx = IfCtx 1 0 0, if_name = []\<rparr>, sock_fd = 0\<rparr>, dq_devices = 0\<rparr>"

theorem fill_block_sound_witness:
  "\<exists>filled dq' m2. fill_block Release (consume_env (sample_ring 1 2)) (sample_mem 1 4294967294)
     (sample_dq (sample_ring 1 2)) 32 [0, 4096, 8192] =
     Inr (filled, drop (Suc (unat filled)) [0, 4096, 8192], dq', m2) \<and> filled \<noteq> 0 \<and> unat filled \<le> 1"
proof -
  have "prod_inv (sample_mem 1 4294967294) (prod_inner (fcq_prod (dq_fcq (sample_dq (sample_ring 1 2)))))"
    "ring_layout 8 (prod_inner (fcq_prod (dq_fcq (sample_dq (sample_ring 1 2)))))"
    "staged (sample_mem 1 4294967294) (prod_inner (fcq_prod (dq_fcq (sample_dq (sample_ring 1 2))))) = 0"
    "env_ok_prod 8 (prod_inner (fcq_prod (dq_fcq (sample_dq (sample_ring 1 2))))) (consume_env (sample_ring 1 2))"
    by (simp_all add: consume_env_ok sample_dq_def)
  from fill_block_sound[where env = "consume_env (sample_ring 1 2)", OF this, of 32 "[0, 4096, 8192]"]
  show ?thesis by (auto simp: sample_dq_def)
qed

subsection \<open>Receiving batches\<close>

definition sample_desc :: XdpDesc where
  "sample_desc = \<lparr>desc_addr = 4096, desc_len = 64, desc_options = 0\<rparr>"

lemma sample_rx [simp]:
  "cons_inv (sample_mem 1 4294967295) (sample_ring 0 4294967295)"
  "taken (sample_mem 1 4294967295) (sample_ring 0 4294967295) = 0"
  "avail (sample_mem 1 4294967295) (sample_ring 0 4294967295) = 2"
  by (simp_all add: cons_inv_def Let_def cdist_def taken_def avail_def)

text \<open>
  C17. Receiving a batch in a release build (open, read to the end, release, drop) always completes
  whatever the kernel produces meanwhile: it returns the oldest descriptors in order, removes
  exactly those, at least one if any is there and asked for, and leaves none taken.
\<close>

theorem receive_block_sound:
  fixes rx :: RingRx
  defines "i \<equiv> cons_inner (rx_ring rx)"
  assumes "cons_inv m i" and "ring_layout 16 i" and "taken m i = 0"
    and "env_ok_cons 16 i env" and "env_ok_cons 16 i env'"
  shows "\<exists>k rx' m2 new. receive_block Release env env' m rx n =
      Inr (take k (queue dec_desc 16 m i), rx', m2) \<and>
    k \<le> unat n \<and> k \<le> avail m i \<and> (avail m i = 0 \<or> n = 0 \<or> 0 < k) \<and>
    cons_inv m2 (cons_inner (rx_ring rx')) \<and> taken m2 (cons_inner (rx_ring rx')) = 0 \<and>
    queue dec_desc 16 m2 (cons_inner (rx_ring rx')) = drop k (queue dec_desc 16 m i) @ new"
proof -
  obtain it q m1 it2 m2 i' where run: "BufIdxIter_peek Release env m (rx_ring rx) n = Inr (it, q, m1)"
      "release_cons Release env' m1 (moved it (unat (it_remain it))) q = (Inr it2, m2)"
      "it_buffers it2 = 0" "cons_inner q = i'"
    and k: "unat (it_remain it) \<le> unat n"
    and got: "items dec_desc 16 m1 (cons_inner q) (it_base it) (unat (it_remain it)) =
      take (unat (it_remain it)) (queue dec_desc 16 m i)"
    and res: "unat (it_remain it) \<le> avail m i" "0 < avail m i \<longrightarrow> n = 0 \<or> it_remain it \<noteq> 0"
      "cons_inv m2 i'" "taken m2 i' = 0"
      "\<exists>new. queue dec_desc 16 m2 i' = drop (unat (it_remain it)) (queue dec_desc 16 m i) @ new"
    unfolding i_def
    by (rule cons_batch[where dec = dec_desc and env = env and env' = env' and ?q0.0 = "rx_ring rx" and n = n,
        OF assms(2-6)[unfolded i_def]])
  have "receive_block Release env env' m rx n =
      Inr (take (unat (it_remain it)) (queue dec_desc 16 m i), rx\<lparr>rx_ring := q\<rparr>, m2)"
    using run got by (simp add: receive_block_def RingRx_receive_def drain_rx_eq ReadRx_release_def ReadRx_drop_def)
  with k res run(4) show ?thesis
    by (intro exI[of _ "unat (it_remain it)"]) (auto simp: unat_gt_0)
qed

theorem receive_block_sound_witness:
  "\<exists>k rx' m2. receive_block Release (produce_env enc_desc 16 (sample_ring 0 4294967295) sample_desc)
      (produce_env enc_desc 16 (sample_ring 0 4294967295) sample_desc) (sample_mem 1 4294967295)
      \<lparr>rx_ring = \<lparr>cons_inner = sample_ring 0 4294967295, cons_mmap_addr = (4096, 256)\<rparr>, rx_fd = 0\<rparr> 32 =
    Inr (take k (queue dec_desc 16 (sample_mem 1 4294967295) (sample_ring 0 4294967295)), rx', m2) \<and>
    0 < k \<and> k \<le> 2"
proof -
  let ?rx = "\<lparr>rx_ring = \<lparr>cons_inner = sample_ring 0 4294967295, cons_mmap_addr = (4096, 256)\<rparr>, rx_fd = 0\<rparr>"
  let ?env = "produce_env enc_desc 16 (sample_ring 0 4294967295) sample_desc"
  have "cons_inv (sample_mem 1 4294967295) (cons_inner (rx_ring ?rx))"
    "ring_layout 16 (cons_inner (rx_ring ?rx))" "taken (sample_mem 1 4294967295) (cons_inner (rx_ring ?rx)) = 0"
    "env_ok_cons 16 (cons_inner (rx_ring ?rx)) ?env" "env_ok_cons 16 (cons_inner (rx_ring ?rx)) ?env"
    by (simp_all add: desc_slot.produce_env_ok)
  from receive_block_sound[where env = ?env and env' = ?env, OF this, of 32] show ?thesis by auto
qed

text \<open>
  C19. Reaping completions in a release build, as \<open>flood.rs\<close> does, likewise always completes and
  returns the oldest completed addresses in order, each exactly once.
\<close>

theorem complete_block_sound:
  fixes dq :: DeviceQueue
  defines "i \<equiv> cons_inner (fcq_cons (dq_fcq dq))"
  assumes "cons_inv m i" and "ring_layout 8 i" and "taken m i = 0"
    and "env_ok_cons 8 i env" and "env_ok_cons 8 i env'"
  shows "\<exists>k dq' m2 new. complete_block Release env env' m dq n =
      Inr (take k (queue dec_u64 8 m i), dq', m2) \<and>
    k \<le> unat n \<and> k \<le> avail m i \<and> (avail m i = 0 \<or> n = 0 \<or> 0 < k) \<and>
    cons_inv m2 (cons_inner (fcq_cons (dq_fcq dq'))) \<and> taken m2 (cons_inner (fcq_cons (dq_fcq dq'))) = 0 \<and>
    queue dec_u64 8 m2 (cons_inner (fcq_cons (dq_fcq dq'))) = drop k (queue dec_u64 8 m i) @ new"
proof -
  obtain it q m1 it2 m2 i' where run: "BufIdxIter_peek Release env m (fcq_cons (dq_fcq dq)) n = Inr (it, q, m1)"
      "release_cons Release env' m1 (moved it (unat (it_remain it))) q = (Inr it2, m2)"
      "it_buffers it2 = 0" "cons_inner q = i'"
    and k: "unat (it_remain it) \<le> unat n"
    and got: "items dec_u64 8 m1 (cons_inner q) (it_base it) (unat (it_remain it)) =
      take (unat (it_remain it)) (queue dec_u64 8 m i)"
    and res: "unat (it_remain it) \<le> avail m i" "0 < avail m i \<longrightarrow> n = 0 \<or> it_remain it \<noteq> 0"
      "cons_inv m2 i'" "taken m2 i' = 0"
      "\<exists>new. queue dec_u64 8 m2 i' = drop (unat (it_remain it)) (queue dec_u64 8 m i) @ new"
    unfolding i_def
    by (rule cons_batch[where dec = dec_u64 and env = env and env' = env' and ?q0.0 = "fcq_cons (dq_fcq dq)" and n = n,
        OF assms(2-6)[unfolded i_def]])
  have "complete_block Release env env' m dq n =
      Inr (take (unat (it_remain it)) (queue dec_u64 8 m i), dq\<lparr>dq_fcq := (dq_fcq dq)\<lparr>fcq_cons := q\<rparr>\<rparr>, m2)"
    using run got by (simp add: complete_block_def DeviceQueue_complete_def drain_complete_eq ReadComplete_release_def ReadComplete_drop_def)
  with k res run(4) show ?thesis
    by (intro exI[of _ "unat (it_remain it)"]) (auto simp: unat_gt_0)
qed

theorem complete_block_sound_witness:
  "\<exists>k dq' m2. complete_block Release (produce_env enc_u64 8 (sample_ring 0 4294967295) 4096)
      (produce_env enc_u64 8 (sample_ring 0 4294967295) 8192) (sample_mem 1 4294967295)
      (sample_dq (sample_ring 0 4294967295)) 32 =
    Inr (take k (queue dec_u64 8 (sample_mem 1 4294967295) (sample_ring 0 4294967295)), dq', m2) \<and>
    0 < k \<and> k \<le> 2"
proof -
  let ?dq = "sample_dq (sample_ring 0 4294967295)"
  let ?env = "produce_env enc_u64 8 (sample_ring 0 4294967295)"
  have "cons_inv (sample_mem 1 4294967295) (cons_inner (fcq_cons (dq_fcq ?dq)))"
    "ring_layout 8 (cons_inner (fcq_cons (dq_fcq ?dq)))"
    "taken (sample_mem 1 4294967295) (cons_inner (fcq_cons (dq_fcq ?dq))) = 0"
    "env_ok_cons 8 (cons_inner (fcq_cons (dq_fcq ?dq))) (?env 4096)"
    "env_ok_cons 8 (cons_inner (fcq_cons (dq_fcq ?dq))) (?env 8192)"
    by (simp_all add: u64_slot.produce_env_ok sample_dq_def)
  from complete_block_sound[where env = "?env 4096" and env' = "?env 8192", OF this, of 32]
  show ?thesis by (auto simp: sample_dq_def)
qed

end
