(* ===== verification/Iter.thy ===== *)
theory Iter
  imports Batches
begin

text \<open>
  The writers' \<open>insert\<close> takes any iterator.  An iterator is a state with a function \<open>next\<close> that
  yields an item or the end, and moves the state either way; this covers finite lists and
  \<open>core::iter::repeat\<close>, which never ends.  The loop needs no fuel: each turn uses up a slot of the
  cursor.  The list model of \<open>Cursor\<close> is the special case of list iterators, and every run over an
  iterator is a run over the list of what is pulled from it.
\<close>

type_synonym ('s, 'a) iter = "'s \<Rightarrow> 'a option \<times> 's"

subsection \<open>Definitions\<close>

text \<open>\<open>for (item, bufidx) in it.zip(self.idx.by_ref())\<close>: items first, then the cursor.\<close>

function insert_iter ::
  "('s, 'a) iter \<Rightarrow> ('a \<Rightarrow> u8 list) \<Rightarrow> (BufIdx \<Rightarrow> u64) \<Rightarrow> mem \<Rightarrow> BufIdxIter \<Rightarrow> u32 \<Rightarrow> 's \<Rightarrow>
     u32 \<times> 's \<times> BufIdxIter \<times> mem" where
  "insert_iter nxt enc addr m it n s =
     (case nxt s of
        (None, s1) \<Rightarrow> (n, s1, it, m)
      | (Some x, s1) \<Rightarrow>
          (case BufIdxIter_next it of
             (None, it1) \<Rightarrow> (n, s1, it1, m)
           | (Some bufidx, it1) \<Rightarrow>
               insert_iter nxt enc addr (store_bytes m (addr bufidx) (enc x)) it1 (n + 1) s1))"
  by pat_completeness auto
termination
  by (relation "measure (\<lambda>(nxt, enc, addr, m, it, n, s). unat (it_remain it))")
    (auto dest!: next_remain[OF sym])

declare insert_iter.simps [simp del]

definition WriteTx_insert_from ::
  "('s, XdpDesc) iter \<Rightarrow> mem \<Rightarrow> WriteTx \<Rightarrow> 's \<Rightarrow> u32 \<times> 's \<times> WriteTx \<times> mem" where
  "WriteTx_insert_from nxt m w s =
     (case insert_iter nxt enc_desc (tx_desc (wt_queue w)) m (wt_idx w) 0 s of
        (n, s1, it, m1) \<Rightarrow> (n, s1, w\<lparr>wt_idx := it\<rparr>, m1))"

definition WriteFill_insert_from ::
  "('s, u64) iter \<Rightarrow> mem \<Rightarrow> WriteFill \<Rightarrow> 's \<Rightarrow> u32 \<times> 's \<times> WriteFill \<times> mem" where
  "WriteFill_insert_from nxt m w s =
     (case insert_iter nxt enc_u64 (fill_addr (wf_queue w)) m (wf_idx w) 0 s of
        (n, s1, it, m1) \<Rightarrow> (n, s1, w\<lparr>wf_idx := it\<rparr>, m1))"

text \<open>The iterators of the standard library that the clients use.\<close>

fun list_next :: "('a list, 'a) iter" where
  "list_next [] = (None, [])"
| "list_next (x # xs) = (Some x, xs)"

definition repeat_next :: "('a, 'a) iter" where
  "repeat_next x = (Some x, x)"

subsection \<open>Runs over iterators and over lists\<close>

text \<open>What at most \<open>k\<close> calls of \<open>next\<close> yield, stopping at the first end.\<close>

fun pull :: "('s, 'a) iter \<Rightarrow> nat \<Rightarrow> 's \<Rightarrow> 'a list \<times> 's" where
  "pull nxt 0 s = ([], s)"
| "pull nxt (Suc k) s =
     (case nxt s of
        (None, s1) \<Rightarrow> ([], s1)
      | (Some x, s1) \<Rightarrow> apfst ((#) x) (pull nxt k s1))"

lemma insert_iter_pull:
  assumes "pull nxt (Suc (unat (it_remain it))) s = (xs, s1)"
    and "insert_loop enc addr m it n xs = (k, rest, it1, m1)"
  shows "insert_iter nxt enc addr m it n s = (k, s1, it1, m1)"
  using assms
proof (induction nxt enc addr m it n s arbitrary: xs rule: insert_iter.induct)
  case (1 nxt enc addr m it n s)
  obtain y s2 where nx: "nxt s = (y, s2)" by (metis surj_pair)
  show ?case
  proof (cases y)
    case None
    with 1(2,3) nx show ?thesis by (subst insert_iter.simps) auto
  next
    case (Some x)
    show ?thesis
    proof (cases "it_remain it = 0")
      case True
      with 1(2,3) nx Some show ?thesis by (subst insert_iter.simps) auto
    next
      case False
      let ?it = "it\<lparr>it_remain := it_remain it - 1, it_base := it_base it + 1\<rparr>"
      obtain ys where ys: "pull nxt (unat (it_remain it)) s2 = (ys, s1)" "xs = x # ys"
        using 1(2) nx Some by (auto simp: apfst_def map_prod_def split: prod.splits)
      have "Suc (unat (it_remain ?it)) = unat (it_remain it)"
        using unat_pred[OF False] False by (simp add: unat_gt_0)
      then have "pull nxt (Suc (unat (it_remain ?it))) s2 = (ys, s1)" using ys(1) by simp
      from 1(1)[OF nx[symmetric] Some next_Some[OF False, symmetric] refl this] 1(3) ys(2) False
      show ?thesis by (simp add: insert_iter.simps[of nxt enc addr m it n s] nx Some)
    qed
  qed
qed

lemma insert_iter_eq:
  "insert_iter nxt enc addr m it n s =
    (case pull nxt (Suc (unat (it_remain it))) s of (xs, s1) \<Rightarrow>
     case insert_loop enc addr m it n xs of (k, rest, it1, m1) \<Rightarrow> (k, s1, it1, m1))"
  by (auto simp: insert_iter_pull simp del: pull.simps split: prod.splits)

lemma pull_list: "pull list_next k xs = (take k xs, drop k xs)"
proof (induction k arbitrary: xs)
  case (Suc k)
  then show ?case by (cases xs) simp_all
qed simp

lemma pull_repeat: "pull repeat_next k x = (replicate k x, x)"
  by (induction k) (simp_all add: repeat_next_def)

lemma insert_iter_list: "insert_iter list_next enc addr m it n xs = insert_loop enc addr m it n xs"
proof -
  let ?r = "unat (it_remain it)"
  obtain k rest it1 m1 where run: "insert_loop enc addr m it n (take (Suc ?r) xs) = (k, rest, it1, m1)"
    by (metis surj_pair)
  have u: "used it (take (Suc ?r) xs) = used it xs" by (auto simp: used_def)
  have "take (used it xs) (take (Suc ?r) xs) = take (used it xs) xs"
    by (rule append_take_drop_id[THEN subst]) (simp add: used_def min_def)
  moreover have "drop (Suc (used it xs)) xs = drop (Suc ?r) xs" by (simp add: used_def min_def)
  ultimately have "insert_loop enc addr m it n xs = (k, drop (Suc ?r) xs, it1, m1)"
    using run by (simp only: insert_loop_eq u) simp
  with insert_iter_pull[OF pull_list run] show ?thesis by simp
qed

lemma insert_iter_repeat:
  assumes "unat (it_remain it) < j"
  shows "insert_iter repeat_next enc addr m it n x =
    (case insert_loop enc addr m it n (replicate j x) of (k, rest, it1, m1) \<Rightarrow> (k, x, it1, m1))"
proof -
  let ?r = "unat (it_remain it)"
  have u: "used it (replicate j x) = ?r" "used it (replicate (Suc ?r) x) = ?r"
    using assms by (simp_all add: used_def)
  obtain k rest it1 m1 where run: "insert_loop enc addr m it n (replicate (Suc ?r) x) = (k, rest, it1, m1)"
    by (metis surj_pair)
  moreover have "take ?r (replicate j x) = take ?r (replicate (Suc ?r) x)"
    using assms by (simp only: take_replicate) (simp add: min_def)
  ultimately have "insert_loop enc addr m it n (replicate j x) = (k, drop (Suc ?r) (replicate j x), it1, m1)"
    by (simp only: insert_loop_eq u) simp
  with insert_iter_pull[OF pull_repeat run] show ?thesis by simp
qed

subsection \<open>The writers\<close>

text \<open>
  C35. Whatever iterator a writer's \<open>insert\<close> is given, endless ones included, it returns, and does what
  it does for the finite list of the items it pulls: it asks for at most one more item than the
  cursor has slots, and leaves the iterator behind the last one asked for.
\<close>

theorem insert_from_pulls:
  "WriteTx_insert_from txs m w s =
     (case pull txs (Suc (unat (it_remain (wt_idx w)))) s of (xs, s1) \<Rightarrow>
      case WriteTx_insert m w xs of (n, rest, w1, m1) \<Rightarrow> (n, s1, w1, m1)) \<and>
   WriteFill_insert_from fills m f t =
     (case pull fills (Suc (unat (it_remain (wf_idx f)))) t of (ys, t1) \<Rightarrow>
      case WriteFill_insert m f ys of (k, rest, f1, m2) \<Rightarrow> (k, t1, f1, m2))"
  by (simp add: WriteTx_insert_from_def WriteTx_insert_def WriteFill_insert_from_def WriteFill_insert_def
      insert_iter_eq case_prod_unfold del: pull.simps)

lemma WriteTx_insert_from_list: "WriteTx_insert_from list_next m w xs = WriteTx_insert m w xs"
  by (simp add: WriteTx_insert_from_def WriteTx_insert_def insert_iter_list)

lemma WriteFill_insert_from_list: "WriteFill_insert_from list_next m w xs = WriteFill_insert m w xs"
  by (simp add: WriteFill_insert_from_def WriteFill_insert_def insert_iter_list)

lemma WriteTx_insert_from_repeat:
  assumes "unat (it_remain (wt_idx w)) < j"
  shows "WriteTx_insert_from repeat_next m w x =
    (case WriteTx_insert m w (replicate j x) of (n, rest, w1, m1) \<Rightarrow> (n, x, w1, m1))"
  using assms by (simp add: WriteTx_insert_from_def WriteTx_insert_def insert_iter_repeat split: prod.splits)

end
