(* ===== verification/Frames.thy ===== *)
theory Frames
  imports Umem
begin

text \<open>
  The frames of a UMEM and its descriptors (\<open>src/xsk/umem.rs\<close>): which indices are valid, where
  their chunks are, and what \<open>bind\<close> tells the kernel.
\<close>

subsection \<open>Frames\<close>

abbreviation pitch :: "Umem \<Rightarrow> nat" where
  "pitch u \<equiv> unat (frame_size (umem_config u))"

abbreviation area_len :: "Umem \<Rightarrow> nat" where
  "area_len u \<equiv> unat (snd (umem_area u))"

text \<open>What the caller of \<open>Umem::new\<close> promises of the area: it is memory, not at address zero.\<close>

definition area_ok :: "Umem \<Rightarrow> bool" where
  "area_ok u \<longleftrightarrow> fst (umem_area u) \<noteq> 0 \<and> unat (fst (umem_area u)) + area_len u \<le> 2 ^ 64 \<and> 0 < pitch u"

lemma frame_index_bound: "pitch u * unat (idx :: u32) < 2 ^ 64"
proof -
  have "pitch u * unat idx < 2 ^ 32 * 2 ^ 32"
    using unat_u32[of "frame_size (umem_config u)"] unat_u32[of idx] by (intro mult_strict_mono) simp_all
  then show ?thesis by simp
qed

lemma unat_frame_offset: "unat ((ucast (frame_size (umem_config u)) :: u64) * ucast (idx :: u32)) = pitch u * unat idx"
proof -
  have "unat ((ucast (frame_size (umem_config u)) :: u64) * ucast idx) = (pitch u * unat idx) mod 2 ^ 64"
    by (simp add: unat_word_ariths)
  then show ?thesis using frame_index_bound[of u idx] by simp
qed

lemma frame_fits_iff:
  assumes "0 < pitch u"
  shows "(case checked_sub (snd (umem_area u)) (ucast (frame_size (umem_config u))) of None \<Rightarrow> True
      | Some last1 \<Rightarrow> last1 < ucast (frame_size (umem_config u)) * ucast (idx :: u32)) \<longleftrightarrow>
    \<not> unat idx < area_len u div pitch u"
proof (cases "snd (umem_area u) < (ucast (frame_size (umem_config u)) :: u64)")
  case True
  then have "area_len u < pitch u" by (simp add: word_less_nat_alt)
  with True show ?thesis by (simp add: checked_sub_def)
next
  case False
  then have le: "(ucast (frame_size (umem_config u)) :: u64) \<le> snd (umem_area u)" by (simp add: not_less)
  then have sub: "unat (snd (umem_area u) - ucast (frame_size (umem_config u))) = area_len u - pitch u"
    and le': "pitch u \<le> area_len u"
    using unat_sub[OF le] by (simp_all add: word_le_nat_alt)
  have "unat idx < area_len u div pitch u \<longleftrightarrow> Suc (unat idx) * pitch u \<le> area_len u"
    using assms less_eq_div_iff_mult_less_eq[of "pitch u" "Suc (unat idx)" "area_len u"] by (simp add: Suc_le_eq)
  also have "\<dots> \<longleftrightarrow> pitch u * unat idx \<le> area_len u - pitch u"
    using le' by (auto simp: algebra_simps)
  finally show ?thesis
    using False by (simp add: checked_sub_def word_less_nat_alt sub unat_frame_offset not_le)
qed

definition demo_area :: Umem where
  "demo_area = \<lparr>umem_area = (65536, 16384), umem_config = UmemConfig_default, umem_fd = 0, umem_devices = 0\<rparr>"

lemma demo_area [simp]: "area_ok demo_area" "pitch demo_area = 4096" "area_len demo_area = 16384"
  by (simp_all add: area_ok_def demo_area_def UmemConfig_default_def)

text \<open>
  A frame exists exactly for the indices below the number of whole frames in the area; then its
  chunk is that frame: it starts \<open>idx\<close> frame sizes into the area, has one frame size, and lies
  inside.  No build panics, the debug assertion included.
\<close>

theorem frame_valid_iff:
  assumes "area_ok u"
  shows "if unat idx < area_len u div pitch u
    then \<exists>c. Umem_frame pf u idx = Inr (Some c) \<and> unat (chunk_offset c) = unat idx * pitch u \<and>
      unat (fst (chunk_addr c)) = unat (fst (umem_area u)) + unat idx * pitch u \<and>
      unat (snd (chunk_addr c)) = pitch u \<and>
      within (fst (chunk_addr c), pitch u) (fst (umem_area u), area_len u)
    else Umem_frame pf u idx = Inr None"
proof (cases "unat idx < area_len u div pitch u")
  case False
  then show ?thesis
    using assms frame_fits_iff[of u idx] frame_index_bound[of u idx]
    by (simp add: Umem_frame_def Let_def mul_chk_def area_ok_def)
next
  case True
  have pos: "0 < pitch u" and nz: "fst (umem_area u) \<noteq> 0"
    and area: "unat (fst (umem_area u)) + area_len u \<le> 2 ^ 64" using assms by (simp_all add: area_ok_def)
  let ?o = "(ucast (frame_size (umem_config u)) :: u64) * ucast idx"
  have end1: "Suc (unat idx) * pitch u \<le> area_len u"
    using True pos less_eq_div_iff_mult_less_eq[of "pitch u" "Suc (unat idx)" "area_len u"] by (simp add: Suc_le_eq)
  have o: "unat ?o = unat idx * pitch u"
    using unat_frame_offset[of u idx] by (simp only: mult.commute[of "unat idx"])
  have "unat (fst (umem_area u)) + unat ?o < 2 ^ 64" using end1 o area pos by simp
  then have "unat (fst (umem_area u) + ?o) = unat (fst (umem_area u)) + unat ?o"
    using unat_add_lem[of "fst (umem_area u)" ?o] by simp
  then have base: "unat (fst (umem_area u) + ?o) = unat (fst (umem_area u)) + unat idx * pitch u"
    by (simp only: o)
  then have "fst (umem_area u) + ?o \<noteq> 0" using nz by (metis add_is_0 unat_eq_zero unat_0)
  then have "Umem_frame pf u idx = Inr (Some \<lparr>chunk_addr = (fst (umem_area u) + ?o,
      ucast (frame_size (umem_config u))), chunk_offset = ?o\<rparr>)"
    using True frame_fits_iff[OF pos, of idx] frame_index_bound[of u idx]
    by (simp add: Umem_frame_def Let_def mul_chk_def)
  then show ?thesis using True base o end1 by (simp add: within_def)
qed

theorem frame_valid_iff_witness:
  "(\<exists>c. Umem_frame Debug demo_area 3 = Inr (Some c) \<and> unat (chunk_offset c) = 12288) \<and>
   Umem_frame Debug demo_area 4 = Inr None"
proof -
  have "\<exists>c. Umem_frame Debug demo_area 3 = Inr (Some c) \<and> unat (chunk_offset c) = 12288"
    using frame_valid_iff[of demo_area 3 Debug] by (simp split: if_splits) auto
  moreover have "Umem_frame Debug demo_area 4 = Inr None"
    using frame_valid_iff[of demo_area 4 Debug] by (simp split: if_splits)
  ultimately show ?thesis by simp
qed

lemma frame_Some:
  assumes "area_ok u" and "Umem_frame pf u idx = Inr (Some c)"
  shows "unat idx < area_len u div pitch u" and "unat (chunk_offset c) = unat idx * pitch u"
    and "unat (fst (chunk_addr c)) = unat (fst (umem_area u)) + unat idx * pitch u"
    and "unat (snd (chunk_addr c)) = pitch u"
proof -
  have pos: "0 < pitch u" using assms(1) by (simp add: area_ok_def)
  show lt: "unat idx < area_len u div pitch u"
    using assms(2) frame_fits_iff[OF pos, of idx]
    by (auto simp: Umem_frame_def Let_def mul_chk_def split: if_splits)
  let ?o = "(ucast (frame_size (umem_config u)) :: u64) * ucast idx"
  have c: "c = \<lparr>chunk_addr = (fst (umem_area u) + ?o, ucast (frame_size (umem_config u))), chunk_offset = ?o\<rparr>"
    using assms(2) by (auto simp: Umem_frame_def Let_def mul_chk_def split: if_splits)
  have o: "unat ?o = unat idx * pitch u"
    using unat_frame_offset[of u idx] by (simp only: mult.commute[of "unat idx"])
  show "unat (chunk_offset c) = unat idx * pitch u" "unat (snd (chunk_addr c)) = pitch u"
    using o by (simp_all add: c)
  have "Suc (unat idx) * pitch u \<le> area_len u"
    using lt pos less_eq_div_iff_mult_less_eq[of "pitch u" "Suc (unat idx)" "area_len u"] by (simp add: Suc_le_eq)
  then have "unat (fst (umem_area u)) + unat ?o < 2 ^ 64" using o assms(1) pos by (simp add: area_ok_def)
  then have "unat (fst (umem_area u) + ?o) = unat (fst (umem_area u)) + unat ?o"
    using unat_add_lem[of "fst (umem_area u)" ?o] by simp
  then show "unat (fst (chunk_addr c)) = unat (fst (umem_area u)) + unat idx * pitch u"
    by (simp only: c o UmemChunk.select_convs fst_conv)
qed

text \<open>
  C26. Different frames never overlap, and turning a frame into a descriptor (in any build) gives its
  offset and the frame size, a range inside the registered area.
\<close>

theorem frames_disjoint:
  assumes "area_ok u" and "Umem_frame pf u i = Inr (Some c)" and "Umem_frame pf u j = Inr (Some d)" and "i \<noteq> j"
  shows "apart (fst (chunk_addr c), pitch u) (fst (chunk_addr d), pitch u) \<and>
    (\<exists>x. UmemChunk_as_xdp pf c = Inr x \<and> desc_addr x = chunk_offset c \<and> unat (desc_len x) = pitch u \<and>
       unat (desc_addr x) + unat (desc_len x) \<le> area_len u)"
proof -
  note fc = frame_Some[OF assms(1,2)] and fd = frame_Some[OF assms(1,3)]
  have ne: "unat i \<noteq> unat j" using assms(4) by (auto intro: unsigned_word_eqI)
  have lt: "a * pitch u + pitch u \<le> b * pitch u" if "a < b" for a b
    using that mult_le_mono1[of "Suc a" b "pitch u"] by simp
  have "apart (fst (chunk_addr c), pitch u) (fst (chunk_addr d), pitch u)"
    using ne lt[of "unat i" "unat j"] lt[of "unat j" "unat i"] fc(3) fd(3) unfolding apart_def by fastforce
  moreover have pos: "0 < pitch u" using assms(1) by (simp add: area_ok_def)
  have "Suc (unat i) * pitch u \<le> area_len u"
    using fc(1) pos less_eq_div_iff_mult_less_eq[of "pitch u" "Suc (unat i)" "area_len u"] by (simp add: Suc_le_eq)
  moreover have "unat (ucast (snd (chunk_addr c)) :: u32) = pitch u"
    using fc(4) unat_u32[of "frame_size (umem_config u)"] by (simp add: unsigned_ucast_eq take_bit_nat_eq_self)
  ultimately show ?thesis
    using fc(2) by (simp add: UmemChunk_as_xdp_def UmemChunk_as_xdp_with_len_def Let_def)
qed

theorem frames_disjoint_witness:
  "\<exists>c d. Umem_frame Release demo_area 0 = Inr (Some c) \<and> Umem_frame Release demo_area 1 = Inr (Some d) \<and>
    apart (fst (chunk_addr c), 4096) (fst (chunk_addr d), 4096)"
proof -
  obtain c d where cd: "Umem_frame Release demo_area 0 = Inr (Some c)" "Umem_frame Release demo_area 1 = Inr (Some d)"
    by (simp add: Umem_frame_def demo_area_def UmemConfig_default_def checked_sub_def)
  from frames_disjoint[OF demo_area(1) cd] cd show ?thesis by simp
qed

text \<open>
  \<open>len_frames\<close> counts the valid frames: an index is below it exactly when its frame exists, as
  long as the count fits in 32 bits; past that it saturates.
\<close>

theorem len_frames_counts:
  assumes "area_ok u"
  shows "\<exists>n. Umem_len_frames u = Inr n \<and> unat n = min (area_len u div pitch u) (2 ^ 32 - 1) \<and>
    (area_len u div pitch u < 2 ^ 32 \<longrightarrow> (idx < n \<longleftrightarrow> Umem_frame pf u idx \<noteq> Inr None))"
proof -
  have pos: "0 < pitch u" using assms by (simp add: area_ok_def)
  let ?fs = "ucast (frame_size (umem_config u)) :: u64" and ?c = "area_len u div pitch u"
  have nz: "?fs \<noteq> 0" using pos by (metis unat_0 unat_ucast_u64 less_numeral_extra(3))
  have cnt: "unat (snd (umem_area u) div ?fs) = ?c" by (simp add: unat_div)
  let ?n = "if snd (umem_area u) div ?fs \<le> 4294967295 then ucast (snd (umem_area u) div ?fs) else 4294967295 :: u32"
  have run: "Umem_len_frames u = Inr ?n" using nz by (simp add: Umem_len_frames_def Let_def)
  have "unat ?n = min ?c (2 ^ 32 - 1)"
  proof (cases "?c \<le> 4294967295")
    case True
    then have "snd (umem_area u) div ?fs \<le> 4294967295" by (simp add: word_le_nat_alt cnt)
    moreover have "unat (ucast (snd (umem_area u) div ?fs) :: u32) = ?c"
      using True cnt by (simp add: unsigned_ucast_eq take_bit_nat_eq_self)
    ultimately show ?thesis using True by simp
  next
    case False
    then have "\<not> snd (umem_area u) div ?fs \<le> 4294967295" by (simp add: word_le_nat_alt cnt)
    then show ?thesis using False by simp
  qed
  moreover have "idx < ?n \<longleftrightarrow> Umem_frame pf u idx \<noteq> Inr None" if "?c < 2 ^ 32"
    using that calculation frame_valid_iff[OF assms, of idx pf]
    by (auto simp: word_less_nat_alt split: if_splits)
  ultimately show ?thesis using run by blast
qed

theorem len_frames_counts_witness: "Umem_len_frames demo_area = Inr 4 \<and> Umem_frame Release demo_area 3 \<noteq> Inr None"
proof -
  from len_frames_counts[OF demo_area(1), of 3 Release] obtain n where
    n: "Umem_len_frames demo_area = Inr n" "unat n = 4" "3 < n \<longleftrightarrow> Umem_frame Release demo_area 3 \<noteq> Inr None"
    by auto
  from n(2) have "n = 4" by (intro unsigned_word_eqI) simp
  with n show ?thesis by simp
qed

subsection \<open>Binding\<close>

text \<open>
  \<open>bind\<close> hands the kernel the interface and queue of the user and all bind flags of its
  configuration; it adds the shared-UMEM flag and the UMEM's descriptor exactly when the two sockets
  differ.  The address is encoded in 16 bytes.
\<close>

theorem bind_addr_shared:
  "let a = bind_addr p us umem_sock in
    sxdp_ifindex a = IfInfo_ifindex (sock_info (user_socket us)) \<and>
    sxdp_queue_id a = IfInfo_queue_id (sock_info (user_socket us)) \<and> sxdp_family a = 44 \<and>
    sxdp_flags a AND bind_flags (user_config us) = bind_flags (user_config us) \<and>
    (if User_as_raw_fd p us = arc_get p umem_sock
     then sxdp_flags a = bind_flags (user_config us) \<and> sxdp_shared_umem_fd a = 0
     else sxdp_flags a = bind_flags (user_config us) OR XDP_BIND_SHARED_UMEM \<and>
       sxdp_shared_umem_fd a = word_of_int (arc_get p umem_sock)) \<and>
    length (enc_sockaddr a) = 16"
  by (auto simp: bind_addr_def Let_def SockAddrXdp_default_def AF_XDP_def IfInfo_ifindex_def
      IfInfo_queue_id_def User_as_raw_fd_def Socket_as_raw_fd_def bit_eq_iff bit_simps)

end
