(* ===== verification/Commits.thy ===== *)
theory Commits
  imports Batches
begin

text \<open>
  Proxies used in other ways than one batch: dropped without publishing, or publishing several
  times.  The heads stay accounted for in every case; the cursor does not, since \<open>commit_prod\<close> and
  \<open>release_cons\<close> move it on by what \<open>next\<close> has moved it already.
\<close>

subsection \<open>Stores through any index leave the heads alone\<close>

context slot_data begin

lemma write_run_heads:
  assumes "ring_wf i" and "ring_layout sz i"
  shows "load_u32 (write_run enc (slot_addr sz i) m b xs) (producer i) = load_u32 m (producer i) \<and>
    load_u32 (write_run enc (slot_addr sz i) m b xs) (consumer i) = load_u32 m (consumer i)"
  using head_write[OF assms] by (induction xs arbitrary: m b) simp_all

lemma write_run_other:
  assumes "ring_wf i" and "ring_layout sz i"
    and "\<forall>j<length xs. unat (b + of_nat j) mod nslots i \<noteq> unat y mod nslots i"
  shows "slot_at dec sz (write_run enc (slot_addr sz i) m b xs) i y = slot_at dec sz m i y"
  using assms(3)
proof (induction xs arbitrary: m b)
  case (Cons x xs)
  have "\<forall>j<length xs. unat (b + 1 + of_nat j) mod nslots i \<noteq> unat y mod nslots i"
  proof (intro allI impI)
    fix j assume "j < length xs"
    then have "unat (b + of_nat (Suc j)) mod nslots i \<noteq> unat y mod nslots i"
      using Cons.prems by (intro Cons.prems[rule_format]) simp
    then show "unat (b + 1 + of_nat j) mod nslots i \<noteq> unat y mod nslots i"
      by (simp add: add.assoc)
  qed
  moreover have "unat b mod nslots i \<noteq> unat y mod nslots i"
    using Cons.prems[rule_format, of 0] by simp
  ultimately show ?case
    using Cons.IH slot_at_write_other[OF assms(1,2)] by simp
qed simp

end

subsection \<open>Dropping a writer without committing\<close>

text \<open>
  Dropping a transmit proxy that has not committed gives every slot back and publishes nothing,
  however many descriptors were inserted: the queue, both heads and the invariant are as before.
\<close>

theorem abort_send:
  assumes "prod_inv m (prod_inner (tx_ring tx))" and "ring_layout 16 (prod_inner (tx_ring tx))"
    and "staged m (prod_inner (tx_ring tx)) = 0"
    and "RingTx_transmit Release m tx n = Inr w"
    and "WriteTx_insert m w xs = (k, rest, w1, m1)" and "WriteTx_drop Release w1 = Inr q"
  shows "prod_head q = prod_head (tx_ring tx) \<and> prod_inv m1 (prod_inner q) \<and>
    staged m1 (prod_inner q) = 0 \<and>
    queue dec_desc 16 m1 (prod_inner q) = queue dec_desc 16 m (prod_inner (tx_ring tx))"
proof -
  let ?i = "prod_inner (tx_ring tx)"
  obtain it q1 where res: "BufIdxIter_reserve Release m (tx_ring tx) n = Inr (it, q1)"
    and it: "it_remain it = it_buffers it" "it_buffers it = 0 \<or> it_base it = cached_producer ?i"
    and inv: "prod_inv m (prod_inner q1)" and st0: "staged m (prod_inner q1) = staged m ?i + unat (it_buffers it)"
    and q1: "\<exists>cc. prod_inner q1 =
      ?i\<lparr>cached_consumer := cc, cached_producer := cached_producer ?i + it_buffers it\<rparr>"
    by (rule reserve_cursor_inv[OF assms(1), of n])
  have w: "w = \<lparr>wt_idx = it, wt_queue = q1\<rparr>" using assms(4) res by (simp add: RingTx_transmit_def)
  obtain it1 where ins: "insert_loop enc_desc (slot_addr 16 (prod_inner q1)) m it 0 xs = (k, rest, it1, m1)"
    and w1: "w1 = w\<lparr>wt_idx := it1\<rparr>"
    using assms(5) by (auto simp: WriteTx_insert_def w tx_desc_eq[abs_def] split: prod.splits)
  have st: "staged m (prod_inner q1) = unat (it_buffers it)" using st0 assms(3) by simp
  have lay: "ring_layout 16 (prod_inner q1)" using assms(2) q1 by auto
  have "it_buffers it = 0 \<or> it_base it = kprod m (prod_inner q1)"
    using it(2) assms(3) q1 by (auto simp: staged_def)
  note stage = desc_slot.insert_stage[OF inv lay st[symmetric] it(1) this ins]
  have cur: "it_buffers (wt_idx w1) = it_buffers (wt_idx w)" "wt_queue w1 = wt_queue w"
    using stage(3) w w1 by simp_all
  have "rbind (RingTx_transmit Release m tx n) (\<lambda>w. Inr (w, m)) = Inr (w, m)" using assms(4) by simp
  from tx_session.abort(1)[OF this cur(2,1) assms(6)] have head: "prod_head q = prod_head (tx_ring tx)" .
  have "prod_inner q = (prod_inner q1)\<lparr>cached_producer := cached_producer (prod_inner q1) - it_buffers it\<rparr>"
    using assms(6) cur w by (auto simp: WriteTx_drop_def split: if_splits)
  moreover have "staged m1 (prod_inner q1) = unat (it_buffers it)" using stage(6) st by (simp add: staged_def)
  ultimately have "prod_inv m1 (prod_inner q) \<and> staged m1 (prod_inner q) = 0"
    and "queue dec_desc 16 m1 (prod_inner q) = queue dec_desc 16 m ?i"
    using cancel_stage[OF stage(8)] stage(9) q1 by auto
  with head show ?thesis by simp
qed

definition sample_tx_handle :: "XskRing \<Rightarrow> RingTx" where
  "sample_tx_handle i = \<lparr>tx_ring = \<lparr>prod_inner = i, prod_mmap_addr = (4096, 256)\<rparr>, tx_fd = 0\<rparr>"

lemma sample_transmit:
  "RingTx_transmit Release (sample_mem 1 4294967294) (sample_tx_handle (sample_ring 1 2)) 32 =
    Inr \<lparr>wt_idx = \<lparr>it_base = 1, it_buffers = 1, it_remain = 1\<rparr>,
         wt_queue = \<lparr>prod_inner = sample_ring 2 2, prod_mmap_addr = (4096, 256)\<rparr>\<rparr>"
  by (simp add: RingTx_transmit_def BufIdxIter_reserve_def reserve_def count_free_def Let_def
      sample_tx_handle_def sample_ring_def)

theorem abort_send_witness:
  "\<exists>k rest w1 m1 q. WriteTx_insert (sample_mem 1 4294967294)
      \<lparr>wt_idx = \<lparr>it_base = 1, it_buffers = 1, it_remain = 1\<rparr>,
         wt_queue = \<lparr>prod_inner = sample_ring 2 2, prod_mmap_addr = (4096, 256)\<rparr>\<rparr> [sample_desc] =
      (k, rest, w1, m1) \<and> WriteTx_drop Release w1 = Inr q \<and> prod_head q = 1 \<and>
    staged m1 (prod_inner q) = 0"
proof -
  let ?w = "\<lparr>wt_idx = \<lparr>it_base = 1, it_buffers = 1, it_remain = 1\<rparr>,
         wt_queue = \<lparr>prod_inner = sample_ring 2 2, prod_mmap_addr = (4096, 256)\<rparr>\<rparr>"
  obtain k rest w1 m1 where ins: "WriteTx_insert (sample_mem 1 4294967294) ?w [sample_desc] = (k, rest, w1, m1)"
    by (metis surj_pair)
  obtain q where q: "WriteTx_drop Release w1 = Inr q"
    using tx_session.close_law[of w1] by blast
  have "prod_inv (sample_mem 1 4294967294) (prod_inner (tx_ring (sample_tx_handle (sample_ring 1 2))))"
    "ring_layout 16 (prod_inner (tx_ring (sample_tx_handle (sample_ring 1 2))))"
    "staged (sample_mem 1 4294967294) (prod_inner (tx_ring (sample_tx_handle (sample_ring 1 2)))) = 0"
    by (simp_all add: sample_tx_handle_def)
  from abort_send[OF this sample_transmit ins q] ins q show ?thesis by (auto simp: sample_tx_handle_def)
qed

subsection \<open>Any number of inserts and commits\<close>

datatype tx_op = TxInsert "XdpDesc list" | TxCommit

fun run_tx :: "env \<Rightarrow> mem \<Rightarrow> WriteTx \<Rightarrow> tx_op list \<Rightarrow> (WriteTx \<times> mem) res" where
  "run_tx env m w [] = Inr (w, m)"
| "run_tx env m w (TxInsert xs # ops) =
     (case WriteTx_insert m w xs of (n, rest, w1, m1) \<Rightarrow> run_tx env m1 w1 ops)"
| "run_tx env m w (TxCommit # ops) =
     (case WriteTx_commit Release env m w of (w1, m1) \<Rightarrow> rbind w1 (\<lambda>w2. run_tx env m1 w2 ops))"

definition tx_session_ok :: "mem \<Rightarrow> WriteTx \<Rightarrow> bool" where
  "tx_session_ok m w \<longleftrightarrow> prod_inv m (prod_inner (wt_queue w)) \<and> cursor_ok (wt_idx w) \<and>
     staged m (prod_inner (wt_queue w)) = unat (it_buffers (wt_idx w))"

lemma remain_moved_le:
  assumes "it_remain it \<le> it_buffers it"
  shows "it_remain (moved it (used it xs)) \<le> it_buffers (moved it (used it xs))"
  using assms remain_moved[OF used_le(2), of it xs] by (simp add: word_le_nat_alt)

lemma tx_insert_ok:
  assumes "tx_session_ok m w" and "ring_layout 16 (prod_inner (wt_queue w))"
    and "WriteTx_insert m w xs = (n, rest, w1, m1)"
  shows "tx_session_ok m1 w1" and "wt_queue w1 = wt_queue w"
    and "it_buffers (wt_idx w1) = it_buffers (wt_idx w)"
    and "prod_committed m1 (wt_queue w) = prod_committed m (wt_queue w)"
proof -
  let ?i = "prod_inner (wt_queue w)"
  have inv: "prod_inv m ?i" using assms(1) by (simp add: tx_session_ok_def)
  have w1: "w1 = w\<lparr>wt_idx := moved (wt_idx w) (used (wt_idx w) xs)\<rparr>"
    and m1: "m1 = write_run enc_desc (slot_addr 16 ?i) m (it_base (wt_idx w)) (take (used (wt_idx w) xs) xs)"
    using assms(3) by (simp_all add: WriteTx_insert_def insert_loop_eq tx_desc_eq[abs_def])
  show "wt_queue w1 = wt_queue w" "it_buffers (wt_idx w1) = it_buffers (wt_idx w)"
    by (simp_all add: w1)
  have h: "kprod m1 ?i = kprod m ?i" "kcons m1 ?i = kcons m ?i"
    unfolding m1 using desc_slot.write_run_heads[OF prod_invD(1)[OF inv] assms(2)] by auto
  then show "prod_committed m1 (wt_queue w) = prod_committed m (wt_queue w)" by simp
  show "tx_session_ok m1 w1"
    using assms(1) remain_moved_le[of "wt_idx w" xs]
    by (simp add: tx_session_ok_def cursor_ok_def w1 prod_inv_heads[OF h] staged_def h)
qed

lemma tx_commit_ok:
  assumes "tx_session_ok m w" and "ring_layout 16 (prod_inner (wt_queue w))"
    and "env_ok_prod 16 (prod_inner (wt_queue w)) env"
    and "WriteTx_commit Release env m w = (w1, m1)"
  shows "\<exists>w2. w1 = Inr w2 \<and> tx_session_ok m1 w2 \<and> wt_queue w2 = wt_queue w \<and>
    it_buffers (wt_idx w2) = it_remain (wt_idx w) \<and>
    prod_committed m1 (wt_queue w) =
      prod_committed m (wt_queue w) + (it_buffers (wt_idx w) - it_remain (wt_idx w))"
proof -
  let ?i = "prod_inner (wt_queue w)"
  have rem: "it_remain (wt_idx w) \<le> it_buffers (wt_idx w)"
    using assms(1) by (simp add: tx_session_ok_def cursor_ok_def)
  have inv: "prod_inv m ?i" and st: "unat (it_buffers (wt_idx w)) = staged m ?i"
    using assms(1) by (simp_all add: tx_session_ok_def)
  have rely: "prod_rely 16 ?i m (env m)" using assms(3) by (simp add: env_ok_prod_def)
  then have "prod_committed (env m) (wt_queue w) = prod_committed m (wt_queue w)"
    by (simp add: prod_rely_def)
  from tx_session.publish_law[OF assms(4) rem this]
  obtain w2 where w2: "w1 = Inr w2" "wt_queue w2 = wt_queue w"
    "it_buffers (wt_idx w2) = it_remain (wt_idx w)" "it_remain (wt_idx w2) = it_remain (wt_idx w)"
    "prod_committed m1 (wt_queue w) =
      prod_committed m (wt_queue w) + (it_buffers (wt_idx w) - it_remain (wt_idx w))" by auto
  obtain it' where com: "commit_prod Release env m (wt_idx w) (wt_queue w) = (it', m1)"
    using assms(4) by (auto simp: WriteTx_commit_def split: prod.splits)
  have "prod_inv m1 ?i \<and> staged m1 ?i = unat (it_remain (wt_idx w))"
    by (rule desc_slot.commit_stage[OF inv assms(2) rely st rem com]) simp
  with w2 show ?thesis by (simp add: tx_session_ok_def cursor_ok_def)
qed

lemma run_tx_ok:
  assumes "tx_session_ok m w" and "ring_layout 16 (prod_inner (wt_queue w))"
    and "env_ok_prod 16 (prod_inner (wt_queue w)) env"
  shows "\<exists>w' m'. run_tx env m w ops = Inr (w', m') \<and> tx_session_ok m' w' \<and> wt_queue w' = wt_queue w \<and>
    it_buffers (wt_idx w') \<le> it_buffers (wt_idx w) \<and>
    prod_committed m' (wt_queue w) =
      prod_committed m (wt_queue w) + (it_buffers (wt_idx w) - it_buffers (wt_idx w'))"
  using assms
proof (induction env m w ops rule: run_tx.induct)
  case (1 env m w)
  then show ?case by simp
next
  case (2 env m w xs ops)
  obtain n rest w1 m1 where ins: "WriteTx_insert m w xs = (n, rest, w1, m1)" by (metis surj_pair)
  note ok = tx_insert_ok[OF 2(2,3) ins]
  show ?case using 2(1)[OF ins[symmetric] refl refl] ok 2(3,4) ins by simp
next
  case (3 env m w ops)
  obtain w1 m1 where com: "WriteTx_commit Release env m w = (w1, m1)" by (metis surj_pair)
  from tx_commit_ok[OF 3(2,3,4) com] obtain w2 where w2: "w1 = Inr w2" "tx_session_ok m1 w2"
    "wt_queue w2 = wt_queue w" "it_buffers (wt_idx w2) = it_remain (wt_idx w)"
    "prod_committed m1 (wt_queue w) =
      prod_committed m (wt_queue w) + (it_buffers (wt_idx w) - it_remain (wt_idx w))" by auto
  have "it_remain (wt_idx w) \<le> it_buffers (wt_idx w)"
    using 3(2) by (simp add: tx_session_ok_def cursor_ok_def)
  moreover obtain w' m' where "run_tx env m1 w2 ops = Inr (w', m')" "tx_session_ok m' w'"
    "wt_queue w' = wt_queue w" "it_buffers (wt_idx w') \<le> it_remain (wt_idx w)"
    "prod_committed m' (wt_queue w) =
      prod_committed m1 (wt_queue w) + (it_remain (wt_idx w) - it_buffers (wt_idx w'))"
    using 3(1)[OF com[symmetric], of w2] w2(2-4) 3(3,4) by auto
  ultimately show ?case using w2(1,5) com by simp
qed

text \<open>
  C24. Whatever sequence of inserts and commits is run on a transmit proxy in a release build, it
  completes; the kernel is told about exactly the slots committed, never more than were reserved;
  dropping the proxy gives back exactly the rest and leaves the ring in order.
\<close>

theorem tx_session_accounts:
  assumes "prod_inv m (prod_inner (tx_ring tx))" and "ring_layout 16 (prod_inner (tx_ring tx))"
    and "staged m (prod_inner (tx_ring tx)) = 0" and "env_ok_prod 16 (prod_inner (tx_ring tx)) env"
    and "RingTx_transmit Release m tx n = Inr w"
  shows "\<exists>w' m' q. run_tx env m w ops = Inr (w', m') \<and> WriteTx_drop Release w' = Inr q \<and>
    WriteTx_capacity w' \<le> WriteTx_capacity w \<and>
    kprod m' (prod_inner q) =
      kprod m (prod_inner (tx_ring tx)) + (WriteTx_capacity w - WriteTx_capacity w') \<and>
    prod_inv m' (prod_inner q) \<and> staged m' (prod_inner q) = 0"
proof -
  let ?i = "prod_inner (tx_ring tx)"
  obtain it q1 where res: "BufIdxIter_reserve Release m (tx_ring tx) n = Inr (it, q1)"
    and it: "it_remain it = it_buffers it"
    and inv: "prod_inv m (prod_inner q1)" and st0: "staged m (prod_inner q1) = staged m ?i + unat (it_buffers it)"
    and q1: "\<exists>cc. prod_inner q1 =
      ?i\<lparr>cached_consumer := cc, cached_producer := cached_producer ?i + it_buffers it\<rparr>"
    by (rule reserve_cursor_inv[OF assms(1), of n])
  have w: "w = \<lparr>wt_idx = it, wt_queue = q1\<rparr>" using assms(5) res by (simp add: RingTx_transmit_def)
  have ok: "tx_session_ok m w" using inv st0 it assms(3) w by (simp add: tx_session_ok_def cursor_ok_def)
  have lay: "ring_layout 16 (prod_inner (wt_queue w))" and env: "env_ok_prod 16 (prod_inner (wt_queue w)) env"
    and same: "producer (prod_inner q1) = producer ?i"
    using assms(2,4) q1 w by (auto simp: env_ok_prod_def)
  obtain w' m' where run: "run_tx env m w ops = Inr (w', m')" "tx_session_ok m' w'" "wt_queue w' = q1"
    "it_buffers (wt_idx w') \<le> it_buffers (wt_idx w)"
    "kprod m' (prod_inner q1) = kprod m (prod_inner q1) + (it_buffers (wt_idx w) - it_buffers (wt_idx w'))"
    using run_tx_ok[OF ok lay env, of ops] w by auto
  let ?q = "q1\<lparr>prod_inner := (prod_inner q1)\<lparr>cached_producer :=
      cached_producer (prod_inner q1) - it_buffers (wt_idx w')\<rparr>\<rparr>"
  have "WriteTx_drop Release w' = Inr ?q" using run(3) by (simp add: WriteTx_drop_def)
  moreover have "prod_inv m' (prod_inner ?q) \<and> staged m' (prod_inner ?q) = 0"
    using run(2,3) cancel_stage[of m' q1 "it_buffers (wt_idx w')"] by (simp add: tx_session_ok_def)
  ultimately show ?thesis
    using run same by (intro exI[of _ w'] exI[of _ m'] exI[of _ ?q]) (simp add: WriteTx_capacity_def)
qed

theorem tx_session_accounts_witness:
  "\<exists>w' m' q. run_tx (consume_env (sample_ring 1 2)) (sample_mem 1 4294967294)
      \<lparr>wt_idx = \<lparr>it_base = 1, it_buffers = 1, it_remain = 1\<rparr>,
         wt_queue = \<lparr>prod_inner = sample_ring 2 2, prod_mmap_addr = (4096, 256)\<rparr>\<rparr>
      [TxCommit, TxInsert [sample_desc, sample_desc], TxCommit] = Inr (w', m') \<and>
    WriteTx_drop Release w' = Inr q \<and> staged m' (prod_inner q) = 0"
proof -
  have "prod_inv (sample_mem 1 4294967294) (prod_inner (tx_ring (sample_tx_handle (sample_ring 1 2))))"
    "ring_layout 16 (prod_inner (tx_ring (sample_tx_handle (sample_ring 1 2))))"
    "staged (sample_mem 1 4294967294) (prod_inner (tx_ring (sample_tx_handle (sample_ring 1 2)))) = 0"
    "env_ok_prod 16 (prod_inner (tx_ring (sample_tx_handle (sample_ring 1 2)))) (consume_env (sample_ring 1 2))"
    by (simp_all add: sample_tx_handle_def consume_env_ok)
  from tx_session_accounts[where env = "consume_env (sample_ring 1 2)", OF this sample_transmit,
      of "[TxCommit, TxInsert [sample_desc, sample_desc], TxCommit]"]
  show ?thesis by blast
qed

subsection \<open>A second commit\<close>

text \<open>
  C25. After a partial commit of \<open>k\<close> of the reserved slots, the next descriptor inserted does not go
  to the next free slot but \<open>k\<close> slots further on (\<open>commit_prod\<close> adds to \<open>base\<close> what \<open>next\<close> has added
  already).  The commit after it hands the kernel the slot skipped, with whatever it held before.
\<close>

theorem second_commit_publishes_stale:
  fixes w :: WriteTx
  defines "i \<equiv> prod_inner (wt_queue w)"
  assumes "tx_session_ok m w" and "ring_layout 16 i" and "env_ok_prod 16 i env"
    and "it_remain (wt_idx w) = it_buffers (wt_idx w)" and "it_base (wt_idx w) = kprod m i"
    and "0 < length xs" and "length xs < unat (it_buffers (wt_idx w))"
    and "WriteTx_insert m w xs = (k, rest, w1, m1)"
    and "WriteTx_commit Release env m1 w1 = (Inr w2, m2)"
    and "WriteTx_insert_once m2 w2 x = (ok, w3, m3)"
    and "WriteTx_commit Release env m3 w3 = (w4, m4)"
  shows "ok \<and> kprod m2 i = kprod m i + k \<and> kprod m4 i = kprod m2 i + 1 \<and>
    m3 = store_bytes m2 (tx_desc (wt_queue w) (kprod m2 i + k)) (enc_desc x) \<and>
    slot_at dec_desc 16 m4 i (kprod m2 i) = slot_at dec_desc 16 m i (kprod m2 i)"
proof -
  let ?it = "wt_idx w" and ?n = "length xs"
  have inv: "prod_inv m i" and st: "staged m i = unat (it_buffers ?it)"
    using assms(2) by (simp_all add: tx_session_ok_def i_def)
  have wf: "ring_wf i" using inv by (rule prod_invD)
  have lt: "?n < nslots i" "nslots i \<le> 2 ^ 31"
    using assms(8) st prod_inv_split(2)[OF inv] nslots_bounds[OF wf] by simp_all
  have used: "used ?it xs = ?n" using assms(5,8) by (simp add: used_def)
  have k: "k = of_nat ?n" and w1: "w1 = w\<lparr>wt_idx := moved ?it ?n\<rparr>"
    and m1: "m1 = write_run enc_desc (slot_addr 16 i) m (kprod m i) xs"
    using assms(9) by (simp_all add: WriteTx_insert_def insert_loop_eq used tx_desc_eq[abs_def] i_def
        assms(6)[unfolded i_def])
  have uk: "unat k = ?n" using lt by (simp add: k unat_of_nat)
  have b: "it_buffers ?it \<noteq> 0" using assms(8) by auto
  have rem: "it_remain (moved ?it ?n) = it_buffers ?it - k" by (simp add: k assms(5))
  have rem0: "it_buffers ?it - k \<noteq> 0" using assms(8) uk by auto
  note ok1 = tx_insert_ok[OF assms(2) assms(3)[unfolded i_def] assms(9)]
  have all: "it\<lparr>it_remain := a, it_buffers := c, it_base := d\<rparr> =
      \<lparr>it_base = d, it_buffers = c, it_remain = a\<rparr>" for it :: BufIdxIter and a c d
    by (cases it) simp
  have w2: "w2 = w\<lparr>wt_idx := \<lparr>it_base = kprod m i + k + k, it_buffers = it_buffers ?it - k,
      it_remain = it_buffers ?it - k\<rparr>\<rparr>" and m2: "m2 = submit env m1 k (wt_queue w)"
    using assms(10) b rem assms(6)
    by (auto simp: WriteTx_commit_def commit_prod_Release w1 k moved_def all)
  have rely: "prod_rely 16 i x (env x)" for x using assms(4) by (simp add: env_ok_prod_def)
  have p2: "kprod m2 i = kprod m i + k"
    using ok1(4) by (simp add: m2 submit_def Let_def i_def)
  have m3: "m3 = store_bytes m2 (slot_addr 16 i (kprod m2 i + k)) (enc_desc x)"
    and ok: ok and w3: "w3 = w2\<lparr>wt_idx := \<lparr>it_base = kprod m i + k + k + 1, it_buffers = it_buffers ?it - k,
      it_remain = it_buffers ?it - k - 1\<rparr>\<rparr>"
    using assms(11) rem0
    by (auto simp: WriteTx_insert_once_def WriteTx_insert_def w2 tx_desc_eq p2[unfolded i_def] i_def)
  have m4: "m4 = submit env m3 1 (wt_queue w)"
    using assms(12) rem0 by (simp add: WriteTx_commit_def commit_prod_Release w3 w2)
  have "kprod m3 i = kprod m2 i" unfolding m3 by (rule desc_slot.head_write[OF wf assms(3)])
  then have p4: "kprod m4 i = kprod m2 i + 1" by (simp add: m4 submit_def Let_def i_def)
  have skip: "slot_at dec_desc 16 (submit env y j (wt_queue w)) i z = slot_at dec_desc 16 y i z" for y j z
  proof -
    have "slot_at dec_desc 16 (submit env y j (wt_queue w)) i z = slot_at dec_desc 16 (env y) i z"
      unfolding submit_def Let_def i_def[symmetric] by (rule slot_at_store_head[OF wf assms(3)]) simp
    then show ?thesis using rely[of y] by (simp add: slot_at_def prod_rely_def)
  qed
  have other: "unat (kprod m i + of_nat j) mod nslots i \<noteq> unat (kprod m i + of_nat ?n) mod nslots i"
    if "j < ?n" for j
    using that lt by (intro index_window[OF wf]) simp_all
  have "unat (kprod m2 i + of_nat ?n) mod nslots i \<noteq> unat (kprod m2 i + of_nat 0) mod nslots i"
    using lt assms(7) by (intro index_window[OF wf]) simp_all
  then have "slot_at dec_desc 16 m3 i (kprod m2 i) = slot_at dec_desc 16 m2 i (kprod m2 i)"
    unfolding m3 k by (intro desc_slot.slot_at_write_other[OF wf assms(3)]) simp
  also have "\<dots> = slot_at dec_desc 16 m1 i (kprod m2 i)" unfolding m2 by (rule skip)
  also have "\<dots> = slot_at dec_desc 16 m i (kprod m2 i)"
    unfolding m1 p2 k using other by (intro desc_slot.write_run_other[OF wf assms(3)]) simp
  finally have "slot_at dec_desc 16 m4 i (kprod m2 i) = slot_at dec_desc 16 m i (kprod m2 i)"
    unfolding m4 by (simp add: skip)
  with ok p2 p4 m3 show ?thesis by (simp add: tx_desc_eq i_def)
qed

definition sample_writer :: WriteTx where
  "sample_writer = \<lparr>wt_idx = \<lparr>it_base = 0, it_buffers = 4, it_remain = 4\<rparr>,
     wt_queue = \<lparr>prod_inner = sample_ring 4 4, prod_mmap_addr = (4096, 256)\<rparr>\<rparr>"

theorem second_commit_publishes_stale_witness:
  "\<exists>k rest w1 m1 w2 m2 ok w3 m3 w4 m4.
    WriteTx_insert (sample_mem 0 0) sample_writer [sample_desc] = (k, rest, w1, m1) \<and>
    WriteTx_commit Release id m1 w1 = (Inr w2, m2) \<and>
    WriteTx_insert_once m2 w2 sample_desc = (ok, w3, m3) \<and>
    WriteTx_commit Release id m3 w3 = (w4, m4) \<and> load_u32 m4 4096 = 2 \<and>
    slot_at dec_desc 16 m4 (sample_ring 4 4) 1 = slot_at dec_desc 16 (sample_mem 0 0) (sample_ring 4 4) 1"
proof -
  let ?i = "prod_inner (wt_queue sample_writer)"
  have ok: "tx_session_ok (sample_mem 0 0) sample_writer"
    by (simp add: tx_session_ok_def cursor_ok_def sample_writer_def prod_inv_def Let_def cdist_def staged_def)
  have lay: "ring_layout 16 ?i" and env: "env_ok_prod 16 ?i id"
    by (simp_all add: sample_writer_def env_ok_prod_def prod_rely_def)
  obtain k rest w1 m1 where ins: "WriteTx_insert (sample_mem 0 0) sample_writer [sample_desc] = (k, rest, w1, m1)"
    by (metis surj_pair)
  have k: "k = 1"
    using ins by (simp add: WriteTx_insert_def insert_loop_eq used_def sample_writer_def)
  note ok1 = tx_insert_ok[OF ok lay ins]
  obtain w2 m2 where com: "WriteTx_commit Release id m1 w1 = (Inr w2, m2)"
    using tx_commit_ok[where env = id, OF ok1(1), unfolded ok1(2), OF lay env] by (metis surj_pair)
  obtain b w3 m3 where ins2: "WriteTx_insert_once m2 w2 sample_desc = (b, w3, m3)" by (metis surj_pair)
  obtain w4 m4 where com2: "WriteTx_commit Release id m3 w3 = (w4, m4)" by (metis surj_pair)
  have "it_remain (wt_idx sample_writer) = it_buffers (wt_idx sample_writer)"
    "it_base (wt_idx sample_writer) = kprod (sample_mem 0 0) ?i" "0 < length [sample_desc]"
    "length [sample_desc] < unat (it_buffers (wt_idx sample_writer))"
    by (simp_all add: sample_writer_def)
  from second_commit_publishes_stale[where env = id, OF ok lay env this ins com ins2 com2] k
  have "load_u32 m4 4096 = 2" and
    "slot_at dec_desc 16 m4 (sample_ring 4 4) 1 = slot_at dec_desc 16 (sample_mem 0 0) (sample_ring 4 4) 1"
    by (auto simp: sample_writer_def)
  with ins com ins2 com2 show ?thesis by blast
qed

text \<open>
  C31. After one read and a partial release a reader does not go on with the entry that is now the oldest but
  with the one behind it (\<open>release_cons\<close> adds to \<open>base\<close> what \<open>next\<close> has added already).  The release after
  it gives the kernel back the slot of the entry skipped, which was never read.
\<close>

theorem second_release_skips:
  fixes w :: ReadRx
  defines "i \<equiv> cons_inner (rr_queue w)"
  assumes "cons_inv m i" and "ring_layout 16 i" and "env_ok_cons 16 i env"
    and "taken m i = unat (it_buffers (rr_idx w))" and "it_base (rr_idx w) = kcons m i"
    and "it_remain (rr_idx w) = it_buffers (rr_idx w)" and "2 \<le> unat (it_buffers (rr_idx w))"
    and "ReadRx_read m w = (Some d, w1)" and "ReadRx_release Release env m w1 = (Inr w2, m2)"
    and "ReadRx_read m2 w2 = (Some e, w3)" and "ReadRx_release Release env m2 w3 = (w4, m4)"
  shows "d = slot_at dec_desc 16 m i (kcons m i) \<and> kcons m2 i = kcons m i + 1 \<and>
    e = slot_at dec_desc 16 m2 i (kcons m2 i + 1) \<and> kcons m4 i = kcons m2 i + 1"
proof -
  let ?b = "it_buffers (rr_idx w)"
  have b: "?b \<noteq> 0" "?b - 1 \<noteq> 0" using assms(8) by auto
  have w1: "w1 = w\<lparr>rr_idx := (rr_idx w)\<lparr>it_remain := ?b - 1, it_base := kcons m i + 1\<rparr>\<rparr>"
    and d: "d = slot_at dec_desc 16 m i (kcons m i)"
    using assms(9) b assms(6,7) by (auto simp: ReadRx_read_def rx_desc_eq slot_at_def i_def)
  have all: "it\<lparr>it_remain := a, it_base := x, it_buffers := c, it_base := y\<rparr> =
      \<lparr>it_base = y, it_buffers = c, it_remain = a\<rparr>" for it :: BufIdxIter and a c x y
    by (cases it) simp
  have w2: "w2 = w\<lparr>rr_idx := \<lparr>it_base = kcons m i + 1 + 1, it_buffers = ?b - 1, it_remain = ?b - 1\<rparr>\<rparr>"
    and m2: "m2 = release env m 1 (rr_queue w)"
    using assms(10) b by (auto simp: ReadRx_release_def release_cons_Release w1 all)
  have inv2: "cons_inv m2 i" and c2: "kcons m2 i = kcons m i + 1"
    using release_rely(1,5)[of m "rr_queue w" 16 env 1] assms(2-5,8) cons_invD(4)[OF assms(2)]
    by (auto simp: m2 i_def env_ok_cons_def)
  have e: "e = slot_at dec_desc 16 m2 i (kcons m2 i + 1)"
    and w3: "w3 = w2\<lparr>rr_idx := \<lparr>it_base = kcons m i + 1 + 1 + 1, it_buffers = ?b - 1, it_remain = ?b - 1 - 1\<rparr>\<rparr>"
    using assms(11) b by (auto simp: ReadRx_read_def rx_desc_eq slot_at_def i_def w2 c2[unfolded i_def])
  have "m4 = release env m2 1 (rr_queue w)"
    using assms(12) b by (simp add: ReadRx_release_def release_cons_Release w3 w2)
  then have "kcons m4 i = kcons m2 i + 1" by (simp add: release_def Let_def i_def)
  with d c2 e show ?thesis by simp
qed

definition sample_reader :: ReadRx where
  "sample_reader = \<lparr>rr_idx = \<lparr>it_base = 0, it_buffers = 2, it_remain = 2\<rparr>,
     rr_queue = \<lparr>cons_inner = sample_ring 4 2, cons_mmap_addr = (4096, 256)\<rparr>\<rparr>"

theorem second_release_skips_witness:
  "\<exists>d w1 w2 m2 e w3 w4 m4. ReadRx_read (sample_mem 4 0) sample_reader = (Some d, w1) \<and>
    ReadRx_release Release id (sample_mem 4 0) w1 = (Inr w2, m2) \<and>
    ReadRx_read m2 w2 = (Some e, w3) \<and> ReadRx_release Release id m2 w3 = (w4, m4) \<and>
    e = slot_at dec_desc 16 m2 (sample_ring 4 2) 2 \<and> load_u32 m4 4160 = 2"
proof -
  let ?i = "cons_inner (rr_queue sample_reader)"
  have inv: "cons_inv (sample_mem 4 0) ?i" and lay: "ring_layout 16 ?i" and env: "env_ok_cons 16 ?i id"
    and tk: "taken (sample_mem 4 0) ?i = unat (it_buffers (rr_idx sample_reader))"
    and idx: "it_base (rr_idx sample_reader) = kcons (sample_mem 4 0) ?i"
      "it_remain (rr_idx sample_reader) = it_buffers (rr_idx sample_reader)"
      "2 \<le> unat (it_buffers (rr_idx sample_reader))"
    by (simp_all add: sample_reader_def cons_inv_def Let_def cdist_def taken_def env_ok_cons_def cons_rely_def)
  obtain d w1 where r1: "ReadRx_read (sample_mem 4 0) sample_reader = (Some d, w1)"
    by (simp add: ReadRx_read_def sample_reader_def)
  then have w1: "it_buffers (rr_idx w1) = 2" "it_remain (rr_idx w1) = 1"
    by (auto simp: ReadRx_read_def sample_reader_def)
  obtain w2 m2 where r2: "ReadRx_release Release id (sample_mem 4 0) w1 = (Inr w2, m2)"
    using w1 by (simp add: ReadRx_release_def release_cons_Release)
  then have w2: "it_remain (rr_idx w2) = 1"
    using w1 by (auto simp: ReadRx_release_def release_cons_Release)
  obtain e w3 where r3: "ReadRx_read m2 w2 = (Some e, w3)" using w2 by (simp add: ReadRx_read_def)
  obtain w4 m4 where r4: "ReadRx_release Release id m2 w3 = (w4, m4)" by (metis surj_pair)
  from second_release_skips[where env = id, OF inv lay env tk idx r1 r2 r3 r4]
  have "e = slot_at dec_desc 16 m2 (sample_ring 4 2) 2" and "load_u32 m4 4160 = 2"
    by (auto simp: sample_reader_def)
  with r1 r2 r3 r4 show ?thesis by blast
qed

subsection \<open>Builds with overflow checks\<close>

text \<open>
  With overflow checks a commit publishes the same slots and then panics exactly when the
  cursor's base passes \<open>2^32\<close>: the head has moved although \<open>commit\<close> does not return.
\<close>

theorem commit_debug_panics_late:
  assumes "cursor_ok it"
  shows "commit_prod Debug env m it q =
    (if it_buffers it \<noteq> 0 \<and> 2 ^ 32 \<le> unat (it_base it) + (unat (it_buffers it) - unat (it_remain it))
     then Inl ArithOverflow else fst (commit_prod Release env m it q),
     snd (commit_prod Release env m it q))"
proof -
  have le: "it_remain it \<le> it_buffers it" using assms by (simp add: cursor_ok_def)
  have c: "unat (it_buffers it - it_remain it) = unat (it_buffers it) - unat (it_remain it)"
    using le by (rule unat_sub)
  then have "it_buffers it - it_remain it \<le> it_buffers it" by (simp add: word_le_nat_alt)
  with le c show ?thesis
    by (simp add: commit_prod_def commit_prod_Release sub_chk_fits add_chk_def word_neq_0_conv[symmetric])
qed

theorem commit_debug_panics_late_witness:
  "fst (commit_prod Debug id (sample_mem 4294967292 4294967292)
     \<lparr>it_base = 4294967295, it_buffers = 3, it_remain = 0\<rparr>
     \<lparr>prod_inner = sample_ring 4294967295 0, prod_mmap_addr = (4096, 256)\<rparr>) = Inl ArithOverflow"
  using commit_debug_panics_late[of "\<lparr>it_base = 4294967295, it_buffers = 3, it_remain = 0\<rparr>"]
  by (simp add: cursor_ok_def)

end
