(* ===== verification/Spsc.thy ===== *)
theory Spsc
  imports Commits
begin

text \<open>
  Each ring as a single-producer single-consumer channel, with user space and the kernel taking
  turns in any order.  User space moves through the phases of a proxy (idle, filling or reading,
  published or released) and may call every operation of the proxy in every phase, any number of times; the
  kernel moves at any moment, also in the middle of an operation, within what \<open>prod_rely\<close> and \<open>cons_rely\<close>
  allow it.  Ghost components record what was handed over.

  One use is kept apart.  A proxy that has published something but not all it holds goes on at the wrong slot
  (\<open>second_commit_publishes_stale\<close>, \<open>second_release_skips\<close>); from the next item it takes on, nothing is said, and
  the system is \<open>TxSpoilt\<close> or \<open>RxSpoilt\<close>.
\<close>

subsection \<open>Sending\<close>

datatype tx_phase =
    TxIdle (tx_handle: RingTx)
  | TxFilling (tx_handle: RingTx) (tx_writer: WriteTx) (tx_written: "XdpDesc list")
  | TxPublished (tx_handle: RingTx) (tx_writer: WriteTx)

datatype tx_sys = TxSys tx_phase mem (sent: "XdpDesc list") (got: "XdpDesc list") | TxSpoilt

fun tx_view :: "tx_phase \<Rightarrow> XskRing" where
  "tx_view (TxIdle tx) = prod_inner (tx_ring tx)"
| "tx_view (TxFilling tx w xs) = prod_inner (wt_queue w)"
| "tx_view (TxPublished tx w) = prod_inner (wt_queue w)"

text \<open>What the kernel has taken in going from one memory to another.\<close>

definition consumed :: "XskRing \<Rightarrow> mem \<Rightarrow> mem \<Rightarrow> XdpDesc list" where
  "consumed i m m' = take (cdist (kcons m i) (kcons m' i)) (queue dec_desc 16 m i)"

text \<open>A commit that publishes nothing leaves the writer as it was.\<close>

inductive tx_step :: "tx_sys \<Rightarrow> tx_sys \<Rightarrow> bool" where
  tx_open: "RingTx_transmit Release m tx n = Inr w \<Longrightarrow>
    tx_step (TxSys (TxIdle tx) m s g) (TxSys (TxFilling tx w []) m s g)"
| tx_insert: "WriteTx_insert_once m w x = (b, w1, m1) \<Longrightarrow>
    tx_step (TxSys (TxFilling tx w xs) m s g)
      (TxSys (TxFilling tx w1 (if b then xs @ [x] else xs)) m1 s g)"
| tx_commit: "prod_rely 16 (prod_inner (wt_queue w)) m (env m) \<Longrightarrow>
    WriteTx_commit Release env m w = (Inr w1, m1) \<Longrightarrow>
    tx_step (TxSys (TxFilling tx w xs) m s g)
      (TxSys (if xs = [] then TxFilling tx w1 [] else TxPublished tx w1) m1 (s @ xs)
        (g @ consumed (prod_inner (wt_queue w)) m m1))"
| tx_insert_more: "WriteTx_insert_once m w x = (b, w1, m1) \<Longrightarrow>
    tx_step (TxSys (TxPublished tx w) m s g) (if b then TxSpoilt else TxSys (TxPublished tx w1) m1 s g)"
| tx_commit_more: "prod_rely 16 (prod_inner (wt_queue w)) m (env m) \<Longrightarrow>
    WriteTx_commit Release env m w = (Inr w1, m1) \<Longrightarrow>
    tx_step (TxSys (TxPublished tx w) m s g)
      (TxSys (TxPublished tx w1) m1 s (g @ consumed (prod_inner (wt_queue w)) m m1))"
| tx_close: "WriteTx_drop Release w = Inr q \<Longrightarrow>
    tx_step (TxSys (TxPublished tx w) m s g) (TxSys (TxIdle (tx\<lparr>tx_ring := q\<rparr>)) m s g)"
| tx_abort: "WriteTx_drop Release w = Inr q \<Longrightarrow>
    tx_step (TxSys (TxFilling tx w xs) m s g) (TxSys (TxIdle (tx\<lparr>tx_ring := q\<rparr>)) m s g)"
| tx_kernel: "prod_rely 16 (tx_view p) m m1 \<Longrightarrow>
    tx_step (TxSys p m s g) (TxSys p m1 s (g @ consumed (tx_view p) m m1))"

inductive_cases tx_stepE: "tx_step (TxSys p m s g) y"

inductive_cases tx_spoiltE: "tx_step TxSpoilt y"

text \<open>The invariant of each phase.\<close>

fun tx_phase_ok :: "mem \<Rightarrow> tx_phase \<Rightarrow> bool" where
  "tx_phase_ok m (TxIdle tx) \<longleftrightarrow> staged m (prod_inner (tx_ring tx)) = 0"
| "tx_phase_ok m (TxFilling tx w xs) \<longleftrightarrow>
     staged m (prod_inner (wt_queue w)) = unat (it_buffers (wt_idx w)) \<and>
     unat (it_remain (wt_idx w)) + length xs = unat (it_buffers (wt_idx w)) \<and>
     (it_buffers (wt_idx w) = 0 \<or>
       it_base (wt_idx w) = kprod m (prod_inner (wt_queue w)) + of_nat (length xs)) \<and>
     pre_queue dec_desc 16 m (prod_inner (wt_queue w)) (length xs) = xs"
| "tx_phase_ok m (TxPublished tx w) \<longleftrightarrow>
     staged m (prod_inner (wt_queue w)) = unat (it_buffers (wt_idx w)) \<and> it_remain (wt_idx w) = it_buffers (wt_idx w)"

fun tx_ok :: "tx_sys \<Rightarrow> bool" where
  "tx_ok (TxSys p m s g) \<longleftrightarrow> prod_inv m (tx_view p) \<and> ring_layout 16 (tx_view p) \<and>
     tx_phase_ok m p \<and> s = g @ queue dec_desc 16 m (tx_view p)"
| "tx_ok TxSpoilt \<longleftrightarrow> True"

context slot_data begin

lemma insert_next:
  fixes x :: 'a
  assumes "prod_inv m i" and "ring_layout sz i" and "j < staged m i"
    and m1_def: "m1 = store_bytes m (slot_addr sz i (kprod m i + of_nat j)) (enc x)"
  shows "kprod m1 i = kprod m i" and "kcons m1 i = kcons m i" and "prod_inv m1 i"
    and "queue dec sz m1 i = queue dec sz m i"
    and "pre_queue dec sz m1 i (Suc j) = pre_queue dec sz m i j @ [x]"
proof -
  note wf = prod_invD(1)[OF assms(1)]
  let ?f = "in_flight m i"
  show h: "kprod m1 i = kprod m i" "kcons m1 i = kcons m i"
    unfolding m1_def by (rule head_write[OF wf assms(2)])+
  then show "prod_inv m1 i" using prod_inv_heads assms(1) by blast
  have "?f + j < nslots i" using prod_inv_split(2)[OF assms(1)] assms(3) by simp
  from items_write_next[OF wf assms(2) this, of m "kcons m i" x]
  have "items dec sz m1 i (kcons m i) (?f + Suc j) = items dec sz m i (kcons m i) (?f + j) @ [x]"
    using kcons_in_flight[of m i] by (simp add: m1_def add.assoc[symmetric])
  then have "items dec sz m1 i (kcons m i) ?f @ items dec sz m1 i (kprod m i) (Suc j) =
      queue dec sz m i @ (pre_queue dec sz m i j @ [x])"
    by (simp only: items_append kcons_in_flight queue_def pre_queue_def append_assoc)
  moreover have "in_flight m1 i = ?f" by (simp add: in_flight_def h)
  ultimately show "queue dec sz m1 i = queue dec sz m i"
    and "pre_queue dec sz m1 i (Suc j) = pre_queue dec sz m i j @ [x]"
    by (simp_all add: queue_def pre_queue_def h append_eq_append_conv)
qed

end

lemma consumed_queue:
  assumes "prod_rely 16 i m m1"
  shows "queue dec_desc 16 m i = consumed i m m1 @ queue dec_desc 16 m1 i"
  using prod_rely_queue[OF assms, of dec_desc] by (simp add: consumed_def)

lemma pre_queue_rely: "prod_rely sz i m m1 \<Longrightarrow> pre_queue dec sz m1 i n = pre_queue dec sz m i n"
  unfolding pre_queue_def by (auto simp: prod_rely_def slot_at_def intro!: items_cong)

lemma tx_open_ok:
  assumes "tx_ok (TxSys (TxIdle tx) m s g)" and "RingTx_transmit Release m tx n = Inr w"
  shows "tx_ok (TxSys (TxFilling tx w []) m s g)"
proof -
  let ?i = "prod_inner (tx_ring tx)"
  have a: "prod_inv m ?i" "ring_layout 16 ?i" "staged m ?i = 0" "s = g @ queue dec_desc 16 m ?i"
    using assms(1) by simp_all
  obtain it q where res: "BufIdxIter_reserve Release m (tx_ring tx) n = Inr (it, q)"
    and it: "it_remain it = it_buffers it" "it_buffers it = 0 \<or> it_base it = cached_producer ?i"
    and inv: "prod_inv m (prod_inner q)" and st: "staged m (prod_inner q) = staged m ?i + unat (it_buffers it)"
    and q: "\<exists>cc. prod_inner q =
      ?i\<lparr>cached_consumer := cc, cached_producer := cached_producer ?i + it_buffers it\<rparr>"
    by (rule reserve_cursor_inv[OF a(1), of n])
  have w: "w = \<lparr>wt_idx = it, wt_queue = q\<rparr>" using assms(2) res by (simp add: RingTx_transmit_def)
  have "cached_producer ?i = kprod m ?i" using a(3) by (simp add: staged_def)
  then have "it_buffers it = 0 \<or> it_base it = kprod m (prod_inner q)" using it(2) q by auto
  moreover have "ring_layout 16 (prod_inner q)"
    "queue dec_desc 16 m (prod_inner q) = queue dec_desc 16 m ?i" using q a(2) by auto
  ultimately show ?thesis using a inv st it(1) w by (simp add: pre_queue_def)
qed

lemma tx_insert_step_ok:
  assumes "tx_ok (TxSys (TxFilling tx w xs) m s g)" and "WriteTx_insert_once m w x = (b, w1, m1)"
  shows "tx_ok (TxSys (TxFilling tx w1 (if b then xs @ [x] else xs)) m1 s g)"
proof -
  let ?i = "prod_inner (wt_queue w)" and ?it = "wt_idx w"
  have a: "prod_inv m ?i" "ring_layout 16 ?i" "staged m ?i = unat (it_buffers ?it)"
    "unat (it_remain ?it) + length xs = unat (it_buffers ?it)"
    "it_buffers ?it = 0 \<or> it_base ?it = kprod m ?i + of_nat (length xs)"
    "pre_queue dec_desc 16 m ?i (length xs) = xs" "s = g @ queue dec_desc 16 m ?i"
    using assms(1) by simp_all
  show ?thesis
  proof (cases "it_remain ?it = 0")
    case True
    with assms(2) have "\<not> b \<and> w1 = w \<and> m1 = m"
      by (auto simp: WriteTx_insert_once_def WriteTx_insert_def)
    with assms(1) show ?thesis by (simp del: tx_ok.simps)
  next
    case False
    then have pos: "0 < unat (it_remain ?it)" by (simp add: unat_gt_0)
    with a(4) have "it_buffers ?it \<noteq> 0" and j: "length xs < staged m ?i" using a(3) by auto
    with a(5) have base: "it_base ?it = kprod m ?i + of_nat (length xs)" by simp
    note nxt = desc_slot.insert_next[OF a(1,2) j refl, of x]
    have "b" and w1: "w1 = w\<lparr>wt_idx := ?it\<lparr>it_remain := it_remain ?it - 1, it_base := it_base ?it + 1\<rparr>\<rparr>"
      and "m1 = store_bytes m (slot_addr 16 ?i (kprod m ?i + of_nat (length xs))) (enc_desc x)"
      using assms(2) False base by (auto simp: WriteTx_insert_once_def WriteTx_insert_def tx_desc_eq)
    then show ?thesis
      using nxt a base unat_pred[OF False] pos by (simp add: staged_def)
  qed
qed

text \<open>A commit of the first \<open>xs\<close> of what is reserved, whichever phase it happens in.\<close>

lemma tx_commit_stage:
  assumes "prod_inv m (prod_inner (wt_queue w))" and "ring_layout 16 (prod_inner (wt_queue w))"
    and "staged m (prod_inner (wt_queue w)) = unat (it_buffers (wt_idx w))"
    and "unat (it_remain (wt_idx w)) + length xs = unat (it_buffers (wt_idx w))"
    and "pre_queue dec_desc 16 m (prod_inner (wt_queue w)) (length xs) = xs"
    and "s = g @ queue dec_desc 16 m (prod_inner (wt_queue w))"
    and "prod_rely 16 (prod_inner (wt_queue w)) m (env m)" and "WriteTx_commit Release env m w = (Inr w1, m1)"
  shows "prod_inv m1 (prod_inner (wt_queue w1))" and "ring_layout 16 (prod_inner (wt_queue w1))"
    and "staged m1 (prod_inner (wt_queue w1)) = unat (it_buffers (wt_idx w1))"
    and "it_remain (wt_idx w1) = it_buffers (wt_idx w1)"
    and "s @ xs = (g @ consumed (prod_inner (wt_queue w)) m m1) @ queue dec_desc 16 m1 (prod_inner (wt_queue w1))"
    and "xs = [] \<Longrightarrow> w1 = w \<and> kprod m1 (prod_inner (wt_queue w1)) = kprod m (prod_inner (wt_queue w))"
proof -
  let ?i = "prod_inner (wt_queue w)" and ?it = "wt_idx w"
  have rem: "it_remain ?it \<le> it_buffers ?it" using assms(4) by (simp add: word_le_nat_alt)
  have n: "unat (it_buffers ?it - it_remain ?it) = length xs" using assms(4) unat_sub[OF rem] by simp
  obtain it' where com: "commit_prod Release env m ?it (wt_queue w) = (Inr it', m1)"
    and w1: "w1 = w\<lparr>wt_idx := it'\<rparr>"
    using assms(8) by (auto simp: WriteTx_commit_def res_simps split: prod.splits)
  have st: "it_buffers it' = it_remain ?it \<and> prod_inv m1 ?i \<and> staged m1 ?i = unat (it_remain ?it) \<and>
    queue dec_desc 16 m1 ?i = drop (cdist (kcons m ?i) (kcons m1 ?i)) (queue dec_desc 16 m ?i) @ xs"
    by (rule desc_slot.commit_stage[OF assms(1,2,7) assms(3)[symmetric] rem com]) (simp add: n assms(5))
  have it': "it' = (if it_buffers ?it = 0 then ?it
      else ?it\<lparr>it_buffers := it_remain ?it, it_base := it_base ?it + (it_buffers ?it - it_remain ?it)\<rparr>)"
    using com by (auto simp: commit_prod_Release split: if_splits)
  show "prod_inv m1 (prod_inner (wt_queue w1))" "ring_layout 16 (prod_inner (wt_queue w1))"
    "staged m1 (prod_inner (wt_queue w1)) = unat (it_buffers (wt_idx w1))"
    "s @ xs = (g @ consumed ?i m m1) @ queue dec_desc 16 m1 (prod_inner (wt_queue w1))"
    using st assms(2,6) w1 by (simp_all add: consumed_def)
  have "it_buffers ?it = 0 \<Longrightarrow> it_remain ?it = 0" using assms(4) by (simp add: unat_eq_0[symmetric])
  then show "it_remain (wt_idx w1) = it_buffers (wt_idx w1)" by (simp add: w1 it')
  assume "xs = []"
  then have eq: "it_remain ?it = it_buffers ?it" using assms(4) by (simp add: word_unat_eq_iff)
  then have "cdist (kprod m1 ?i) (cached_producer ?i) = cdist (kprod m ?i) (cached_producer ?i)"
    using st assms(3) by (simp add: staged_def)
  then have "cached_producer ?i - kprod m1 ?i = cached_producer ?i - kprod m ?i"
    by (simp add: cdist_def word_unat_eq_iff)
  then have "kprod m1 ?i = kprod m ?i" by simp
  then show "w1 = w \<and> kprod m1 (prod_inner (wt_queue w1)) = kprod m ?i" using eq by (simp add: w1 it')
qed

lemma tx_commit_step_ok:
  assumes "tx_ok (TxSys (TxFilling tx w xs) m s g)"
    and "prod_rely 16 (prod_inner (wt_queue w)) m (env m)"
    and "WriteTx_commit Release env m w = (Inr w1, m1)"
  shows "tx_ok (TxSys (if xs = [] then TxFilling tx w1 [] else TxPublished tx w1) m1 (s @ xs)
    (g @ consumed (prod_inner (wt_queue w)) m m1))"
proof -
  have a: "prod_inv m (prod_inner (wt_queue w))" "ring_layout 16 (prod_inner (wt_queue w))"
    "staged m (prod_inner (wt_queue w)) = unat (it_buffers (wt_idx w))"
    "unat (it_remain (wt_idx w)) + length xs = unat (it_buffers (wt_idx w))"
    "pre_queue dec_desc 16 m (prod_inner (wt_queue w)) (length xs) = xs"
    "s = g @ queue dec_desc 16 m (prod_inner (wt_queue w))" using assms(1) by simp_all
  note st = tx_commit_stage[OF a assms(2,3)]
  show ?thesis
  proof (cases "xs = []")
    case True
    then have w1: "w1 = w" using st(6) by simp
    then have kp: "kprod m1 (prod_inner (wt_queue w)) = kprod m (prod_inner (wt_queue w))"
      using conjunct2[OF st(6)[OF True]] by simp
    have "it_buffers (wt_idx w) = 0 \<or> it_base (wt_idx w) = kprod m1 (prod_inner (wt_queue w))"
      using assms(1) True kp by simp
    with st(1-5) True show ?thesis by (simp add: w1 pre_queue_def)
  next
    case False
    with st(1-5) show ?thesis by simp
  qed
qed

lemma tx_commit_more_ok:
  assumes "tx_ok (TxSys (TxPublished tx w) m s g)"
    and "prod_rely 16 (prod_inner (wt_queue w)) m (env m)"
    and "WriteTx_commit Release env m w = (Inr w1, m1)"
  shows "tx_ok (TxSys (TxPublished tx w1) m1 s (g @ consumed (prod_inner (wt_queue w)) m m1))"
proof -
  have a: "prod_inv m (prod_inner (wt_queue w))" "ring_layout 16 (prod_inner (wt_queue w))"
    "staged m (prod_inner (wt_queue w)) = unat (it_buffers (wt_idx w))"
    "unat (it_remain (wt_idx w)) + length ([] :: XdpDesc list) = unat (it_buffers (wt_idx w))"
    "pre_queue dec_desc 16 m (prod_inner (wt_queue w)) (length ([] :: XdpDesc list)) = []"
    "s = g @ queue dec_desc 16 m (prod_inner (wt_queue w))" using assms(1) by (simp_all add: pre_queue_def)
  from tx_commit_stage[OF a assms(2,3)] show ?thesis by simp
qed

lemma tx_drop_ok:
  assumes "prod_inv m (prod_inner (wt_queue w))" and "ring_layout 16 (prod_inner (wt_queue w))"
    and "staged m (prod_inner (wt_queue w)) = unat (it_buffers (wt_idx w))"
    and "s = g @ queue dec_desc 16 m (prod_inner (wt_queue w))" and "WriteTx_drop Release w = Inr q"
  shows "tx_ok (TxSys (TxIdle (tx\<lparr>tx_ring := q\<rparr>)) m s g)"
proof -
  have "prod_inner q = (prod_inner (wt_queue w))\<lparr>cached_producer :=
      cached_producer (prod_inner (wt_queue w)) - it_buffers (wt_idx w)\<rparr>"
    using assms(5) by (auto simp: WriteTx_drop_def split: if_splits)
  with cancel_stage[OF assms(1,3)] assms(2,4) show ?thesis by simp
qed

lemma tx_kernel_ok:
  assumes "tx_ok (TxSys p m s g)" and "prod_rely 16 (tx_view p) m m1"
  shows "tx_ok (TxSys p m1 s (g @ consumed (tx_view p) m m1))"
proof -
  have "kprod m1 (tx_view p) = kprod m (tx_view p)" using assms(2) by (simp add: prod_rely_def)
  then have "tx_phase_ok m1 p"
    using assms by (cases p) (auto simp: staged_def pre_queue_rely)
  with assms show ?thesis
    using prod_inv_rely[OF _ assms(2)] consumed_queue[OF assms(2)] by simp
qed

lemma tx_step_ok: "tx_step x y \<Longrightarrow> tx_ok x \<Longrightarrow> tx_ok y"
proof (induction rule: tx_step.induct)
  case (tx_close w q tx m s g)
  then show ?case by (intro tx_drop_ok) simp_all
next
  case (tx_abort w q tx xs m s g)
  then show ?case by (intro tx_drop_ok) simp_all
next
  case (tx_insert_more m w x b w1 m1 tx s g)
  show ?case
  proof (cases "it_remain (wt_idx w) = 0")
    case True
    with tx_insert_more(1) have "\<not> b \<and> w1 = w \<and> m1 = m"
      by (auto simp: WriteTx_insert_once_def WriteTx_insert_def)
    with tx_insert_more(2) show ?thesis by (simp del: tx_ok.simps)
  next
    case False
    with tx_insert_more(1) have b by (auto simp: WriteTx_insert_once_def WriteTx_insert_def)
    then show ?thesis by simp
  qed
qed (blast intro: tx_open_ok tx_insert_step_ok tx_commit_step_ok tx_commit_more_ok tx_kernel_ok)+

lemma tx_steps_ok: "tx_step\<^sup>*\<^sup>* x y \<Longrightarrow> tx_ok x \<Longrightarrow> tx_ok y"
  by (induction rule: rtranclp_induct) (blast intro: tx_step_ok)+

text \<open>History only grows: nothing sent or taken is taken back.\<close>

lemma tx_spoilt_stays: "tx_step\<^sup>*\<^sup>* TxSpoilt y \<Longrightarrow> y = TxSpoilt"
  by (induction rule: rtranclp_induct) (auto elim: tx_spoiltE)

lemma tx_step_grows:
  "tx_step x y \<Longrightarrow> y \<noteq> TxSpoilt \<Longrightarrow> (\<exists>a. sent y = sent x @ a) \<and> (\<exists>b. got y = got x @ b)"
  by (cases x) (auto elim!: tx_stepE elim: tx_spoiltE split: if_splits)

lemma tx_steps_grow:
  "tx_step\<^sup>*\<^sup>* x y \<Longrightarrow> y \<noteq> TxSpoilt \<Longrightarrow> (\<exists>a. sent y = sent x @ a) \<and> (\<exists>b. got y = got x @ b)"
proof (induction rule: converse_rtranclp_induct)
  case (step x z)
  then have "z \<noteq> TxSpoilt" using tx_spoilt_stays by blast
  with step tx_step_grows show ?case by fastforce
qed simp

subsection \<open>Receiving\<close>

datatype rx_phase =
    RxIdle (rx_handle: RingRx)
  | RxReading (rx_handle: RingRx) (rx_reader: ReadRx) (rx_read: "XdpDesc list")
  | RxReleased (rx_handle: RingRx) (rx_reader: ReadRx)

datatype rx_sys = RxSys rx_phase mem (produced: "XdpDesc list") (received: "XdpDesc list") | RxSpoilt

fun rx_view :: "rx_phase \<Rightarrow> XskRing" where
  "rx_view (RxIdle rx) = cons_inner (rx_ring rx)"
| "rx_view (RxReading rx w xs) = cons_inner (rr_queue w)"
| "rx_view (RxReleased rx w) = cons_inner (rr_queue w)"

text \<open>What the kernel has added in going from one memory to another.\<close>

definition added :: "XskRing \<Rightarrow> mem \<Rightarrow> mem \<Rightarrow> XdpDesc list" where
  "added i m m' = drop (in_flight m i - cdist (kcons m i) (kcons m' i)) (queue dec_desc 16 m' i)"

text \<open>A release of nothing leaves the reader as it was.\<close>

inductive rx_step :: "rx_sys \<Rightarrow> rx_sys \<Rightarrow> bool" where
  rx_open: "cons_rely 16 (cons_inner (rx_ring rx)) m (env m) \<Longrightarrow>
    RingRx_receive Release env m rx n = Inr (w, m1) \<Longrightarrow>
    rx_step (RxSys (RxIdle rx) m p d)
      (RxSys (RxReading rx w []) m1 (p @ added (cons_inner (rx_ring rx)) m m1) d)"
| rx_next: "ReadRx_read m w = (r, w1) \<Longrightarrow>
    rx_step (RxSys (RxReading rx w xs) m p d)
      (RxSys (RxReading rx w1 (xs @ (case r of None \<Rightarrow> [] | Some x \<Rightarrow> [x]))) m p d)"
| rx_release: "cons_rely 16 (cons_inner (rr_queue w)) m (env m) \<Longrightarrow>
    ReadRx_release Release env m w = (Inr w1, m1) \<Longrightarrow>
    rx_step (RxSys (RxReading rx w xs) m p d)
      (RxSys (if xs = [] then RxReading rx w1 [] else RxReleased rx w1) m1
        (p @ added (cons_inner (rr_queue w)) m m1) (d @ xs))"
| rx_next_more: "ReadRx_read m w = (r, w1) \<Longrightarrow>
    rx_step (RxSys (RxReleased rx w) m p d)
      (case r of None \<Rightarrow> RxSys (RxReleased rx w1) m p d | Some x \<Rightarrow> RxSpoilt)"
| rx_release_more: "cons_rely 16 (cons_inner (rr_queue w)) m (env m) \<Longrightarrow>
    ReadRx_release Release env m w = (Inr w1, m1) \<Longrightarrow>
    rx_step (RxSys (RxReleased rx w) m p d)
      (RxSys (RxReleased rx w1) m1 (p @ added (cons_inner (rr_queue w)) m m1) d)"
| rx_close: "ReadRx_drop Release w = Inr q \<Longrightarrow>
    rx_step (RxSys (RxReleased rx w) m p d) (RxSys (RxIdle (rx\<lparr>rx_ring := q\<rparr>)) m p d)"
| rx_abort: "ReadRx_drop Release w = Inr q \<Longrightarrow>
    rx_step (RxSys (RxReading rx w xs) m p d) (RxSys (RxIdle (rx\<lparr>rx_ring := q\<rparr>)) m p d)"
| rx_kernel: "cons_rely 16 (rx_view ph) m m1 \<Longrightarrow>
    rx_step (RxSys ph m p d) (RxSys ph m1 (p @ added (rx_view ph) m m1) d)"

inductive_cases rx_stepE: "rx_step (RxSys ph m p d) y"

inductive_cases rx_spoiltE: "rx_step RxSpoilt y"

fun rx_phase_ok :: "mem \<Rightarrow> rx_phase \<Rightarrow> bool" where
  "rx_phase_ok m (RxIdle rx) \<longleftrightarrow> taken m (cons_inner (rx_ring rx)) = 0"
| "rx_phase_ok m (RxReading rx w xs) \<longleftrightarrow>
     taken m (cons_inner (rr_queue w)) = unat (it_buffers (rr_idx w)) \<and>
     unat (it_remain (rr_idx w)) + length xs = unat (it_buffers (rr_idx w)) \<and>
     (it_buffers (rr_idx w) = 0 \<or>
       it_base (rr_idx w) = kcons m (cons_inner (rr_queue w)) + of_nat (length xs)) \<and>
     items dec_desc 16 m (cons_inner (rr_queue w)) (kcons m (cons_inner (rr_queue w))) (length xs) = xs"
| "rx_phase_ok m (RxReleased rx w) \<longleftrightarrow>
     taken m (cons_inner (rr_queue w)) = unat (it_buffers (rr_idx w)) \<and> it_remain (rr_idx w) = it_buffers (rr_idx w)"

fun rx_ok :: "rx_sys \<Rightarrow> bool" where
  "rx_ok (RxSys ph m p d) \<longleftrightarrow> cons_inv m (rx_view ph) \<and> ring_layout 16 (rx_view ph) \<and>
     rx_phase_ok m ph \<and> p = d @ queue dec_desc 16 m (rx_view ph)"
| "rx_ok RxSpoilt \<longleftrightarrow> True"

lemma added_queue:
  assumes "cons_rely 16 i m m1"
  shows "queue dec_desc 16 m1 i = queue dec_desc 16 m i @ added i m m1"
proof -
  obtain new where "queue dec_desc 16 m1 i = queue dec_desc 16 m i @ new"
    using cons_rely_queue[OF assms, of dec_desc] by auto
  moreover have "kcons m1 i = kcons m i" using assms by (simp add: cons_rely_def)
  ultimately show ?thesis by (simp add: added_def)
qed

lemma added_view [simp]:
  "added (i\<lparr>cached_producer := a\<rparr>) m m1 = added i m m1"
  "added (i\<lparr>cached_consumer := a\<rparr>) m m1 = added i m m1"
  by (simp_all add: added_def)

lemma rx_open_ok:
  assumes "rx_ok (RxSys (RxIdle rx) m p d)" and "cons_rely 16 (cons_inner (rx_ring rx)) m (env m)"
    and "RingRx_receive Release env m rx n = Inr (w, m1)"
  shows "rx_ok (RxSys (RxReading rx w []) m1 (p @ added (cons_inner (rx_ring rx)) m m1) d)"
proof -
  let ?i = "cons_inner (rx_ring rx)"
  have a: "cons_inv m ?i" "ring_layout 16 ?i" "taken m ?i = 0" "p = d @ queue dec_desc 16 m ?i"
    using assms(1) by simp_all
  obtain it q m' where res: "BufIdxIter_peek Release env m (rx_ring rx) n = Inr (it, q, m')"
    and it: "it_remain it = it_buffers it" "it_buffers it = 0 \<or> it_base it = cached_consumer ?i"
    and m': "m' = m \<or> m' = env m" and inv: "cons_inv m' (cons_inner q)"
    and tk: "taken m' (cons_inner q) = taken m ?i + unat (it_buffers it)"
    and q: "\<exists>cp. cons_inner q =
      ?i\<lparr>cached_producer := cp, cached_consumer := cached_consumer ?i + it_buffers it\<rparr>"
    by (rule peek_cursor_inv[of m "rx_ring rx" 16 env n, OF a(1) assms(2)])
  have w: "w = \<lparr>rr_idx = it, rr_queue = q\<rparr>" and m1: "m1 = m'"
    using assms(3) res by (auto simp: RingRx_receive_def)
  have rely: "cons_rely 16 ?i m m1" using m1 m' assms(2) cons_rely_refl[OF a(1)] by auto
  then have "kcons m1 ?i = kcons m ?i" by (simp add: cons_rely_def)
  then have "it_buffers it = 0 \<or> it_base it = kcons m1 (cons_inner q)"
    using it(2) a(3) q by (auto simp: taken_def)
  moreover have "ring_layout 16 (cons_inner q)"
    "queue dec_desc 16 m1 (cons_inner q) = queue dec_desc 16 m1 ?i" using q a(2) by auto
  ultimately show ?thesis using a inv tk it(1) w m1 added_queue[OF rely] by simp
qed

lemma rx_next_ok:
  assumes "rx_ok (RxSys (RxReading rx w xs) m p d)" and "ReadRx_read m w = (r, w1)"
  shows "rx_ok (RxSys (RxReading rx w1 (xs @ (case r of None \<Rightarrow> [] | Some x \<Rightarrow> [x]))) m p d)"
proof (cases "it_remain (rr_idx w) = 0")
  case True
  with assms(2) have "r = None \<and> w1 = w" by (simp add: ReadRx_read_def)
  with assms(1) show ?thesis by (simp del: rx_ok.simps)
next
  case False
  let ?i = "cons_inner (rr_queue w)" and ?it = "rr_idx w"
  have a: "unat (it_remain ?it) + length xs = unat (it_buffers ?it)"
    "it_buffers ?it = 0 \<or> it_base ?it = kcons m ?i + of_nat (length xs)"
    using assms(1) by simp_all
  from False have pos: "0 < unat (it_remain ?it)" by (simp add: unat_gt_0)
  with a have base: "it_base ?it = kcons m ?i + of_nat (length xs)" by auto
  have "r = Some (slot_at dec_desc 16 m ?i (kcons m ?i + of_nat (length xs)))"
    and "w1 = w\<lparr>rr_idx := ?it\<lparr>it_remain := it_remain ?it - 1, it_base := it_base ?it + 1\<rparr>\<rparr>"
    using assms(2) False base by (simp_all add: ReadRx_read_def rx_desc_eq slot_at_def)
  then show ?thesis
    using assms(1) base unat_pred[OF False] pos by (simp add: items_Suc_back)
qed

text \<open>A release of the first \<open>xs\<close> of what was taken, whichever phase it happens in.\<close>

lemma rx_release_stage:
  assumes "cons_inv m (cons_inner (rr_queue w))" and "ring_layout 16 (cons_inner (rr_queue w))"
    and "taken m (cons_inner (rr_queue w)) = unat (it_buffers (rr_idx w))"
    and "unat (it_remain (rr_idx w)) + length xs = unat (it_buffers (rr_idx w))"
    and "items dec_desc 16 m (cons_inner (rr_queue w)) (kcons m (cons_inner (rr_queue w))) (length xs) = xs"
    and "p = d @ queue dec_desc 16 m (cons_inner (rr_queue w))"
    and "cons_rely 16 (cons_inner (rr_queue w)) m (env m)"
    and "ReadRx_release Release env m w = (Inr w1, m1)"
  shows "cons_inv m1 (cons_inner (rr_queue w1))" and "ring_layout 16 (cons_inner (rr_queue w1))"
    and "taken m1 (cons_inner (rr_queue w1)) = unat (it_buffers (rr_idx w1))"
    and "it_remain (rr_idx w1) = it_buffers (rr_idx w1)"
    and "p @ added (cons_inner (rr_queue w)) m m1 = (d @ xs) @ queue dec_desc 16 m1 (cons_inner (rr_queue w1))"
    and "xs = [] \<Longrightarrow> w1 = w \<and> kcons m1 (cons_inner (rr_queue w)) = kcons m (cons_inner (rr_queue w))"
    and "env m = m \<Longrightarrow> added (cons_inner (rr_queue w)) m m1 = []"
proof -
  let ?i = "cons_inner (rr_queue w)" and ?it = "rr_idx w"
  let ?n = "it_buffers ?it - it_remain ?it"
  have rem: "it_remain ?it \<le> it_buffers ?it" using assms(4) by (simp add: word_le_nat_alt)
  have n: "unat ?n = length xs" using assms(4) unat_sub[OF rem] by simp
  have zero: "it_buffers ?it = 0 \<Longrightarrow> it_remain ?it = 0" using assms(4) by (simp add: unat_eq_0[symmetric])
  have w1: "w1 = w\<lparr>rr_idx := (if it_buffers ?it = 0 then ?it
      else ?it\<lparr>it_buffers := it_remain ?it, it_base := it_base ?it + ?n\<rparr>)\<rparr>"
    using assms(8) by (auto simp: ReadRx_release_def release_cons_Release split: if_splits)
  show "it_remain (rr_idx w1) = it_buffers (rr_idx w1)" using zero by (simp add: w1)
  have st: "cons_inv m1 ?i \<and> taken m1 ?i = unat (it_remain ?it) \<and>
    cdist (kcons m ?i) (kcons m1 ?i) = length xs \<and>
    p @ added ?i m m1 = (d @ xs) @ queue dec_desc 16 m1 ?i \<and>
    (env m = m \<longrightarrow> added ?i m m1 = [])"
  proof (cases "it_buffers ?it = 0")
    case True
    then have "m1 = m" and "xs = []" and "added ?i m m = []"
      using assms(4,8) by (auto simp: ReadRx_release_def release_cons_Release added_def)
    then show ?thesis using assms(1,3,6) zero[OF True] True by (simp add: cdist_def)
  next
    case False
    have m1: "m1 = release env m ?n (rr_queue w)"
      using assms(8) False by (auto simp: ReadRx_release_def release_cons_Release)
    have le: "unat ?n \<le> taken m ?i" using n assms(3,4) by simp
    note r = release_rely[of m "rr_queue w" 16 env ?n, OF assms(1,2,7) le, folded m1]
    have "queue dec_desc 16 (env m) ?i = items dec_desc 16 m ?i (kcons m ?i) (unat ?n) @
        queue dec_desc 16 m1 ?i"
      using release_rely(3)[of m "rr_queue w" 16 env ?n dec_desc, OF assms(1,2,7) le] m1 by simp
    with n assms(5) added_queue[OF assms(7)]
    have split: "xs @ queue dec_desc 16 m1 ?i = queue dec_desc 16 m ?i @ added ?i m (env m)" by simp
    have "length xs \<le> in_flight m ?i" using le n cons_inv_split(1)[OF assms(1)] by simp
    moreover have d: "cdist (kcons m ?i) (kcons m1 ?i) = length xs" using r(5) n by simp
    ultimately have "added ?i m m1 = added ?i m (env m)"
      using arg_cong[OF split, of "drop (in_flight m ?i)"] by (simp add: added_def[of ?i m m1])
    moreover have "env m = m \<longrightarrow> added ?i m (env m) = []" using added_queue[OF assms(7)] by force
    ultimately show ?thesis using r d assms(3,4,6) n split by simp
  qed
  then show "cons_inv m1 (cons_inner (rr_queue w1))" "ring_layout 16 (cons_inner (rr_queue w1))"
    "taken m1 (cons_inner (rr_queue w1)) = unat (it_buffers (rr_idx w1))"
    "p @ added ?i m m1 = (d @ xs) @ queue dec_desc 16 m1 (cons_inner (rr_queue w1))"
    using assms(2) zero by (simp_all add: w1)
  show "env m = m \<Longrightarrow> added ?i m m1 = []" using st by simp
  assume "xs = []"
  then have "it_remain ?it = it_buffers ?it" using assms(4) by (simp add: word_unat_eq_iff)
  moreover have "kcons m1 ?i = kcons m ?i" using st \<open>xs = []\<close> by (simp add: cdist_def unat_eq_0)
  ultimately show "w1 = w \<and> kcons m1 ?i = kcons m ?i" by (simp add: w1)
qed

lemma rx_release_ok:
  assumes "rx_ok (RxSys (RxReading rx w xs) m p d)"
    and "cons_rely 16 (cons_inner (rr_queue w)) m (env m)"
    and "ReadRx_release Release env m w = (Inr w1, m1)"
  shows "rx_ok (RxSys (if xs = [] then RxReading rx w1 [] else RxReleased rx w1) m1
    (p @ added (cons_inner (rr_queue w)) m m1) (d @ xs))"
proof -
  have a: "cons_inv m (cons_inner (rr_queue w))" "ring_layout 16 (cons_inner (rr_queue w))"
    "taken m (cons_inner (rr_queue w)) = unat (it_buffers (rr_idx w))"
    "unat (it_remain (rr_idx w)) + length xs = unat (it_buffers (rr_idx w))"
    "items dec_desc 16 m (cons_inner (rr_queue w)) (kcons m (cons_inner (rr_queue w))) (length xs) = xs"
    "p = d @ queue dec_desc 16 m (cons_inner (rr_queue w))" using assms(1) by simp_all
  note st = rx_release_stage[OF a assms(2,3)]
  show ?thesis
  proof (cases "xs = []")
    case True
    then have w1: "w1 = w" and kc: "kcons m1 (cons_inner (rr_queue w)) = kcons m (cons_inner (rr_queue w))"
      using st(6) by simp_all
    have "it_buffers (rr_idx w) = 0 \<or> it_base (rr_idx w) = kcons m1 (cons_inner (rr_queue w))"
      using assms(1) True kc by simp
    with st(1-5) True show ?thesis by (simp add: w1)
  next
    case False
    with st(1-5) show ?thesis by simp
  qed
qed

lemma rx_release_more_ok:
  assumes "rx_ok (RxSys (RxReleased rx w) m p d)"
    and "cons_rely 16 (cons_inner (rr_queue w)) m (env m)"
    and "ReadRx_release Release env m w = (Inr w1, m1)"
  shows "rx_ok (RxSys (RxReleased rx w1) m1 (p @ added (cons_inner (rr_queue w)) m m1) d)"
proof -
  have a: "cons_inv m (cons_inner (rr_queue w))" "ring_layout 16 (cons_inner (rr_queue w))"
    "taken m (cons_inner (rr_queue w)) = unat (it_buffers (rr_idx w))"
    "unat (it_remain (rr_idx w)) + length ([] :: XdpDesc list) = unat (it_buffers (rr_idx w))"
    "items dec_desc 16 m (cons_inner (rr_queue w)) (kcons m (cons_inner (rr_queue w)))
      (length ([] :: XdpDesc list)) = []"
    "p = d @ queue dec_desc 16 m (cons_inner (rr_queue w))" using assms(1) by simp_all
  from rx_release_stage[OF a assms(2,3)] show ?thesis by simp
qed

lemma rx_next_more_ok:
  assumes "rx_ok (RxSys (RxReleased rx w) m p d)" and "ReadRx_read m w = (r, w1)"
  shows "rx_ok (case r of None \<Rightarrow> RxSys (RxReleased rx w1) m p d | Some x \<Rightarrow> RxSpoilt)"
proof (cases "it_remain (rr_idx w) = 0")
  case True
  with assms(2) have "r = None \<and> w1 = w" by (simp add: ReadRx_read_def)
  with assms(1) show ?thesis by (simp del: rx_ok.simps)
next
  case False
  with assms(2) have "r \<noteq> None" by (auto simp: ReadRx_read_def)
  then show ?thesis by (auto split: option.splits)
qed

lemma rx_drop_ok:
  assumes "cons_inv m (cons_inner (rr_queue w))" and "ring_layout 16 (cons_inner (rr_queue w))"
    and "taken m (cons_inner (rr_queue w)) = unat (it_buffers (rr_idx w))"
    and "p = d @ queue dec_desc 16 m (cons_inner (rr_queue w))" and "ReadRx_drop Release w = Inr q"
  shows "rx_ok (RxSys (RxIdle (rx\<lparr>rx_ring := q\<rparr>)) m p d)"
proof -
  have "cons_inner q = (cons_inner (rr_queue w))\<lparr>cached_consumer :=
      cached_consumer (cons_inner (rr_queue w)) - it_buffers (rr_idx w)\<rparr>"
    using assms(5) by (auto simp: ReadRx_drop_def split: if_splits)
  with cons_inv_retreat[OF assms(1), of "it_buffers (rr_idx w)"] assms(2-4) show ?thesis by simp
qed

lemma rx_kernel_ok:
  assumes "rx_ok (RxSys ph m p d)" and "cons_rely 16 (rx_view ph) m m1"
  shows "rx_ok (RxSys ph m1 (p @ added (rx_view ph) m m1) d)"
proof -
  have a: "cons_inv m (rx_view ph)" "rx_phase_ok m ph" using assms(1) by simp_all
  have c: "kcons m1 (rx_view ph) = kcons m (rx_view ph)" and tk: "taken m1 (rx_view ph) = taken m (rx_view ph)"
    using assms(2) avail_rely(1)[OF a(1) assms(2)] by (simp_all add: cons_rely_def)
  have "rx_phase_ok m1 ph"
  proof (cases ph)
    case (RxReading rx w xs)
    then have "length xs \<le> in_flight m (rx_view ph)"
      using a cons_inv_split(1)[OF a(1)] by simp
    from cons_rely_items[OF assms(2) this, of dec_desc] show ?thesis
      using a c tk RxReading by simp
  qed (use a c tk in simp_all)
  then show ?thesis
    using assms(1) cons_inv_rely[OF a(1) assms(2)] added_queue[OF assms(2)] by simp
qed

lemma rx_step_ok: "rx_step x y \<Longrightarrow> rx_ok x \<Longrightarrow> rx_ok y"
proof (induction rule: rx_step.induct)
  case (rx_close w q rx m p d)
  then show ?case by (intro rx_drop_ok) simp_all
next
  case (rx_abort w q rx xs m p d)
  then show ?case by (intro rx_drop_ok) simp_all
qed (blast intro: rx_open_ok rx_next_ok rx_release_ok rx_next_more_ok rx_release_more_ok rx_kernel_ok)+

lemma rx_steps_ok: "rx_step\<^sup>*\<^sup>* x y \<Longrightarrow> rx_ok x \<Longrightarrow> rx_ok y"
  by (induction rule: rtranclp_induct) (blast intro: rx_step_ok)+

lemma rx_spoilt_stays: "rx_step\<^sup>*\<^sup>* RxSpoilt y \<Longrightarrow> y = RxSpoilt"
  by (induction rule: rtranclp_induct) (auto elim: rx_spoiltE)

lemma rx_step_grows:
  "rx_step x y \<Longrightarrow> y \<noteq> RxSpoilt \<Longrightarrow> (\<exists>a. produced y = produced x @ a) \<and> (\<exists>b. received y = received x @ b)"
  by (cases x) (auto elim!: rx_stepE elim: rx_spoiltE split: if_splits option.splits)

lemma rx_steps_grow:
  "rx_step\<^sup>*\<^sup>* x y \<Longrightarrow> y \<noteq> RxSpoilt \<Longrightarrow>
   (\<exists>a. produced y = produced x @ a) \<and> (\<exists>b. received y = received x @ b)"
proof (induction rule: converse_rtranclp_induct)
  case (step x z)
  then have "z \<noteq> RxSpoilt" using rx_spoilt_stays by blast
  with step rx_step_grows show ?case by fastforce
qed simp

subsection \<open>Properties\<close>

text \<open>
  However user space (opening, inserting, committing, closing or abandoning transmit proxies)
  and the kernel interleave in a release build, what the kernel has taken is a prefix of what was
  committed, in order, what waited at first before what was committed since;
  the rest of it is what the ring holds, at most one ring length; nothing uncommitted is ever seen.
\<close>

theorem tx_fifo:
  assumes "prod_inv m (prod_inner (tx_ring tx))" and "ring_layout 16 (prod_inner (tx_ring tx))"
    and "staged m (prod_inner (tx_ring tx)) = 0"
    and "tx_step\<^sup>*\<^sup>* (TxSys (TxIdle tx) m (queue dec_desc 16 m (prod_inner (tx_ring tx))) [])
      (TxSys p m' s g)"
  shows "s = g @ queue dec_desc 16 m' (tx_view p) \<and> length s \<le> length g + nslots (tx_view p) \<and>
    prod_inv m' (tx_view p) \<and> tx_phase_ok m' p \<and>
    (\<exists>more. s = queue dec_desc 16 m (prod_inner (tx_ring tx)) @ more)"
proof -
  have "tx_ok (TxSys p m' s g)" using tx_steps_ok[OF assms(4)] assms(1-3) by simp
  then show ?thesis using prod_inv_split(2)[of m' "tx_view p"] tx_steps_grow[OF assms(4) tx_sys.distinct(1)] by auto
qed

lemma sample_tx_ok:
  "prod_inv (sample_mem 1 4294967294) (prod_inner (tx_ring (sample_tx_handle (sample_ring 1 2))))"
  "ring_layout 16 (prod_inner (tx_ring (sample_tx_handle (sample_ring 1 2))))"
  "staged (sample_mem 1 4294967294) (prod_inner (tx_ring (sample_tx_handle (sample_ring 1 2)))) = 0"
  by (simp_all add: sample_tx_handle_def)

lemma sample_in_flight [simp]: "in_flight (sample_mem 1 4294967294) (sample_ring p c) = 3"
  by (simp add: in_flight_def cdist_def)

lemma sample_run:
  "tx_step\<^sup>*\<^sup>* (TxSys (TxIdle (sample_tx_handle (sample_ring 1 2))) (sample_mem 1 4294967294)
      (queue dec_desc 16 (sample_mem 1 4294967294) (sample_ring 1 2)) [])
    (TxSys (TxFilling (sample_tx_handle (sample_ring 1 2))
        \<lparr>wt_idx = \<lparr>it_base = 1, it_buffers = 1, it_remain = 1\<rparr>,
         wt_queue = \<lparr>prod_inner = sample_ring 2 2, prod_mmap_addr = (4096, 256)\<rparr>\<rparr> [])
      (kernel_consume (sample_ring 2 2) (sample_mem 1 4294967294))
      (queue dec_desc 16 (sample_mem 1 4294967294) (sample_ring 1 2))
      (consumed (sample_ring 2 2) (sample_mem 1 4294967294)
        (kernel_consume (sample_ring 2 2) (sample_mem 1 4294967294))))"
proof -
  have "prod_rely 16 (sample_ring 2 2) (sample_mem 1 4294967294)
      (kernel_consume (sample_ring 2 2) (sample_mem 1 4294967294))"
    by (rule kernel_consume_rely) simp_all
  then have "prod_rely 16 (tx_view (TxFilling (sample_tx_handle (sample_ring 1 2))
        \<lparr>wt_idx = \<lparr>it_base = 1, it_buffers = 1, it_remain = 1\<rparr>,
         wt_queue = \<lparr>prod_inner = sample_ring 2 2, prod_mmap_addr = (4096, 256)\<rparr>\<rparr> []))
      (sample_mem 1 4294967294) (kernel_consume (sample_ring 2 2) (sample_mem 1 4294967294))" by simp
  note kernel = tx_kernel[OF this, of "queue dec_desc 16 (sample_mem 1 4294967294) (sample_ring 1 2)" "[]"]
  show ?thesis
    by (rule converse_rtranclp_into_rtranclp[where r = tx_step, OF tx_open[OF sample_transmit]],
        rule r_into_rtranclp) (use kernel in simp)
qed

theorem tx_fifo_witness:
  "\<exists>w g m'. tx_step\<^sup>*\<^sup>* (TxSys (TxIdle (sample_tx_handle (sample_ring 1 2))) (sample_mem 1 4294967294)
      (queue dec_desc 16 (sample_mem 1 4294967294) (sample_ring 1 2)) [])
    (TxSys (TxFilling (sample_tx_handle (sample_ring 1 2)) w []) m'
      (queue dec_desc 16 (sample_mem 1 4294967294) (sample_ring 1 2)) g) \<and>
    queue dec_desc 16 (sample_mem 1 4294967294) (sample_ring 1 2) =
      g @ queue dec_desc 16 m' (prod_inner (wt_queue w)) \<and> length g = 1"
proof -
  have "length (consumed (sample_ring 2 2) (sample_mem 1 4294967294)
        (kernel_consume (sample_ring 2 2) (sample_mem 1 4294967294))) = 1"
    by (simp add: consumed_def kernel_consume_def cdist_def)
  moreover have i: "prod_inner (tx_ring (sample_tx_handle (sample_ring 1 2))) = sample_ring 1 2"
    by (simp add: sample_tx_handle_def)
  note fifo = tx_fifo[OF sample_tx_ok, unfolded i, OF sample_run]
  ultimately show ?thesis
    by - (rule exI, rule exI, rule exI, rule conjI[OF sample_run], use fifo in simp)
qed

lemma tx_take_all:
  assumes "tx_ok (TxSys p m' s g)"
  shows "tx_step (TxSys p m' s g)
    (TxSys p (store_u32 m' (consumer (tx_view p)) (kprod m' (tx_view p))) s s)"
proof -
  let ?i = "tx_view p" and ?m = "store_u32 m' (consumer (tx_view p)) (kprod m' (tx_view p))"
  have wf: "ring_wf ?i" and lay: "ring_layout 16 ?i" using assms by (auto dest: prod_invD(1))
  have "slot_at id 16 ?m ?i x = slot_at id 16 m' ?i x" for x
    by (rule slot_at_store_head[OF wf lay]) simp
  then have rely: "prod_rely 16 ?i m' ?m"
    using ring_layoutD[OF lay]
    by (simp add: prod_rely_def in_flight_def slot_at_def load_u32_store_u32)
  have "in_flight ?m ?i = 0"
    using ring_layoutD[OF lay] by (simp add: in_flight_def load_u32_store_u32)
  then have "queue dec_desc 16 ?m ?i = []" by (simp add: queue_def)
  then have "g @ consumed ?i m' ?m = s" using assms consumed_queue[OF rely] by simp
  with tx_kernel[OF rely, of s g] show ?thesis by simp
qed

text \<open>
  Nothing is stuck: from every reachable state, whatever phase user space is in, the kernel can
  take everything committed and not yet taken in one go, after which it has all of it.
\<close>

theorem tx_drains:
  assumes "prod_inv m (prod_inner (tx_ring tx))" and "ring_layout 16 (prod_inner (tx_ring tx))"
    and "staged m (prod_inner (tx_ring tx)) = 0"
    and "tx_step\<^sup>*\<^sup>* (TxSys (TxIdle tx) m (queue dec_desc 16 m (prod_inner (tx_ring tx))) [])
      (TxSys p m' s g)"
  shows "tx_step (TxSys p m' s g)
    (TxSys p (store_u32 m' (consumer (tx_view p)) (kprod m' (tx_view p))) s s)"
  by (rule tx_take_all[OF tx_steps_ok[OF assms(4)]]) (use assms(1-3) in simp)

theorem tx_drains_witness:
  "\<exists>w m' g. tx_step (TxSys (TxFilling (sample_tx_handle (sample_ring 1 2)) w []) m'
      (queue dec_desc 16 (sample_mem 1 4294967294) (sample_ring 1 2)) g)
    (TxSys (TxFilling (sample_tx_handle (sample_ring 1 2)) w []) (store_u32 m' 4160 1)
      (queue dec_desc 16 (sample_mem 1 4294967294) (sample_ring 1 2))
      (queue dec_desc 16 (sample_mem 1 4294967294) (sample_ring 1 2)))"
proof -
  have i: "prod_inner (tx_ring (sample_tx_handle (sample_ring 1 2))) = sample_ring 1 2"
    by (simp add: sample_tx_handle_def)
  have "kprod (kernel_consume (sample_ring 2 2) (sample_mem 1 4294967294)) (sample_ring 2 2) =
      kprod (sample_mem 1 4294967294) (sample_ring 2 2)"
    by (rule kernel_consume_queue(3)[where sz = 16]) simp_all
  with tx_drains[OF sample_tx_ok, unfolded i, OF sample_run] show ?thesis by auto
qed

text \<open>
  However user space and the kernel interleave on a receive ring in a release build, what was
  received and released
  is a prefix of what the kernel produced, in order and without loss or repetition; the rest is in
  the ring; what the reader has read and not yet released is the next part of it.
\<close>

theorem rx_fifo:
  assumes "cons_inv m (cons_inner (rx_ring rx))" and "ring_layout 16 (cons_inner (rx_ring rx))"
    and "taken m (cons_inner (rx_ring rx)) = 0"
    and "rx_step\<^sup>*\<^sup>* (RxSys (RxIdle rx) m (queue dec_desc 16 m (cons_inner (rx_ring rx))) [])
      (RxSys ph m' p d)"
  shows "p = d @ queue dec_desc 16 m' (rx_view ph) \<and> cons_inv m' (rx_view ph) \<and>
    (case ph of RxReading h w xs \<Rightarrow> xs = take (length xs) (queue dec_desc 16 m' (rx_view ph))
     | _ \<Rightarrow> True) \<and>
    (\<exists>more. p = queue dec_desc 16 m (cons_inner (rx_ring rx)) @ more)"
proof -
  have ok: "rx_ok (RxSys ph m' p d)" using rx_steps_ok[OF assms(4)] assms(1-3) by simp
  have "xs = take (length xs) (queue dec_desc 16 m' (rx_view ph))" if "ph = RxReading h w xs" for h w xs
  proof -
    have "length xs \<le> in_flight m' (cons_inner (rr_queue w))"
      using ok that cons_inv_split(1)[of m' "cons_inner (rr_queue w)"] by simp
    from take_items[OF this, of dec_desc 16 m' "cons_inner (rr_queue w)"] show ?thesis
      using ok that by (simp add: queue_def)
  qed
  with ok rx_steps_grow[OF assms(4) rx_sys.distinct(1)] show ?thesis by (auto split: rx_phase.splits)
qed

definition sample_rx_handle :: "XskRing \<Rightarrow> RingRx" where
  "sample_rx_handle i = \<lparr>rx_ring = \<lparr>cons_inner = i, cons_mmap_addr = (4096, 256)\<rparr>, rx_fd = 0\<rparr>"

theorem rx_fifo_witness:
  "\<exists>m'. rx_step\<^sup>*\<^sup>* (RxSys (RxIdle (sample_rx_handle (sample_ring 0 4294967295))) (sample_mem 1 4294967295)
      (queue dec_desc 16 (sample_mem 1 4294967295) (sample_ring 0 4294967295)) [])
    (RxSys (RxIdle (sample_rx_handle (sample_ring 0 4294967295))) m'
      (queue dec_desc 16 m' (sample_ring 0 4294967295)) []) \<and>
    cons_inv m' (sample_ring 0 4294967295) \<and> length (queue dec_desc 16 m' (sample_ring 0 4294967295)) = 3"
proof -
  let ?i = "sample_ring 0 4294967295" and ?m = "sample_mem 1 4294967295"
  let ?m' = "kernel_produce enc_desc 16 ?i sample_desc ?m"
  have i: "cons_inner (rx_ring (sample_rx_handle ?i)) = ?i" by (simp add: sample_rx_handle_def)
  have fl: "in_flight ?m ?i = 2" by (simp add: in_flight_def cdist_def)
  have inv: "cons_inv ?m (cons_inner (rx_ring (sample_rx_handle ?i)))"
    "ring_layout 16 (cons_inner (rx_ring (sample_rx_handle ?i)))"
    "taken ?m (cons_inner (rx_ring (sample_rx_handle ?i))) = 0" by (simp_all add: i)
  have "cons_rely 16 ?i ?m ?m'" by (rule desc_slot.kernel_produce_rely) (simp_all add: fl)
  then have step: "rx_step (RxSys (RxIdle (sample_rx_handle ?i)) ?m (queue dec_desc 16 ?m ?i) [])
      (RxSys (RxIdle (sample_rx_handle ?i)) ?m' (queue dec_desc 16 ?m ?i @ added ?i ?m ?m') [])"
    using rx_kernel[of "RxIdle (sample_rx_handle ?i)"] i by simp
  then have run: "rx_step\<^sup>*\<^sup>* (RxSys (RxIdle (sample_rx_handle ?i)) ?m (queue dec_desc 16 ?m ?i) [])
      (RxSys (RxIdle (sample_rx_handle ?i)) ?m' (queue dec_desc 16 ?m ?i @ added ?i ?m ?m') [])" by blast
  have "in_flight ?m' ?i = 3" using desc_slot.kernel_produce_queue(1)[of ?i ?m] fl by simp
  with rx_fifo[OF inv, unfolded i, OF run] run show ?thesis by (auto simp: i)
qed

subsection \<open>Whole runs\<close>

text \<open>
  From any good state with a free slot: user space opens a proxy, commits nothing, inserts, commits, commits
  once more, the kernel takes what there is, and the proxy is closed.
\<close>

lemma tx_commits:
  "\<exists>w1 m1. WriteTx_commit Release id m w = (Inr w1, m1)"
  by (cases "it_buffers (wt_idx w) = 0") (auto simp: WriteTx_commit_def commit_prod_Release)

lemma prod_rely_refl: "prod_rely sz i m m"
  by (simp add: prod_rely_def)

lemma tx_sends_one:
  assumes ok: "tx_ok (TxSys (TxIdle tx) m s g)" and free: "0 < free_slots m (prod_inner (tx_ring tx))"
  shows "\<exists>tx' m'. tx_step\<^sup>*\<^sup>* (TxSys (TxIdle tx) m s g) (TxSys (TxIdle tx') m' (s @ [x]) (s @ [x]))"
proof -
  have rely: "prod_rely 16 i m m" for i m by (rule prod_rely_refl)
  have "prod_inv m (prod_inner (tx_ring tx))" using ok by simp
  then obtain it q where res: "BufIdxIter_reserve Release m (tx_ring tx) 1 = Inr (it, q)"
    and it: "it_buffers it \<noteq> 0" "it_remain it = it_buffers it"
    by (rule reserve_cursor_inv[of m "tx_ring tx" 1]) (use free in auto)
  define w where "w = \<lparr>wt_idx = it, wt_queue = q\<rparr>"
  have open1: "RingTx_transmit Release m tx 1 = Inr w" using res by (simp add: RingTx_transmit_def w_def)
  note ok1 = tx_open_ok[OF ok open1]
  obtain w1 m1 where c1: "WriteTx_commit Release id m w = (Inr w1, m1)" using tx_commits by blast
  note s2 = tx_commit[where env = id and xs = "[]" and s = s and g = g and tx = tx, OF _ c1, simplified, OF rely]
  have "w1 = w" using ok1 tx_commit_stage(6)[where env = id and xs = "[]", OF _ _ _ _ _ _ _ c1] rely
    by (simp add: pre_queue_def)
  note ok2 = tx_step_ok[OF s2 ok1]
  obtain w2 m2 where ins: "WriteTx_insert_once m1 w1 x = (True, w2, m2)"
    using it \<open>w1 = w\<close> by (simp add: w_def WriteTx_insert_once_def WriteTx_insert_def)
  note s3 = tx_insert[where s = s and xs = "[]" and tx = tx, OF ins, simplified]
  note ok3 = tx_step_ok[OF s3 ok2]
  obtain w3 m3 where c2: "WriteTx_commit Release id m2 w2 = (Inr w3, m3)" using tx_commits by blast
  note s4 = tx_commit[where env = id and xs = "[x]" and s = s and tx = tx, OF _ c2, simplified, OF rely]
  note ok4 = tx_step_ok[OF s4 ok3]
  obtain w4 m4 where c3: "WriteTx_commit Release id m3 w3 = (Inr w4, m4)" using tx_commits by blast
  note s5 = tx_commit_more[where env = id and tx = tx and s = "s @ [x]", OF _ c3, simplified, OF rely]
  note ok5 = tx_step_ok[OF s5 ok4]
  note s6 = tx_take_all[OF ok5]
  obtain r where "WriteTx_drop Release w4 = Inr r"
    by (cases "it_buffers (wt_idx w4) = 0") (auto simp: WriteTx_drop_def)
  note s7 = tx_close[OF this, where s = "s @ [x]" and g = "s @ [x]" and tx = tx]
  note run1 = r_into_rtranclp[of tx_step, OF tx_open[OF open1]]
  note run4 = rtranclp.rtrancl_into_rtrancl[OF rtranclp.rtrancl_into_rtrancl[OF
      rtranclp.rtrancl_into_rtrancl[OF run1 s2] s3] s4]
  note run7 = rtranclp.rtrancl_into_rtrancl[OF rtranclp.rtrancl_into_rtrancl[OF
      rtranclp.rtrancl_into_rtrancl[OF run4 s5] s6] s7]
  from run7 show ?thesis by blast
qed

text \<open>
  From any good state with nothing waiting: the kernel produces a descriptor; user space opens a proxy, releases
  nothing, reads the descriptor, releases it and closes the proxy.
\<close>

lemma rx_releases:
  "\<exists>w1 m1. ReadRx_release Release id m w = (Inr w1, m1)"
  by (cases "it_buffers (rr_idx w) = 0") (auto simp: ReadRx_release_def release_cons_Release)

lemma rx_receives_one:
  assumes ok: "rx_ok (RxSys (RxIdle rx) m p p)"
  shows "\<exists>rx' m'. rx_step\<^sup>*\<^sup>* (RxSys (RxIdle rx) m p p) (RxSys (RxIdle rx') m' (p @ [x]) (p @ [x]))"
proof -
  let ?i = "cons_inner (rx_ring rx)" and ?m = "kernel_produce enc_desc 16 (cons_inner (rx_ring rx)) x m"
  have a: "cons_inv m ?i" "ring_layout 16 ?i" "taken m ?i = 0" "queue dec_desc 16 m ?i = []" using ok by simp_all
  then have "in_flight m ?i = 0" by (metis length_queue list.size(3))
  then have free: "in_flight m ?i < nslots ?i" using nslots_bounds(1)[OF cons_invD(1)[OF a(1)]] by simp
  note wf = cons_invD(1)[OF a(1)]
  have rely1: "cons_rely 16 ?i m ?m" by (rule desc_slot.kernel_produce_rely[OF wf a(2) free])
  have "added ?i m ?m = [x]"
    using added_queue[OF rely1] desc_slot.kernel_produce_queue(2)[OF wf a(2) free] a(4) by simp
  with rx_kernel[of "RxIdle rx" m ?m p p] rely1
  have s1: "rx_step (RxSys (RxIdle rx) m p p) (RxSys (RxIdle rx) ?m (p @ [x]) p)" by simp
  note ok1 = rx_step_ok[OF s1 ok]
  have inv1: "cons_inv ?m ?i" using ok1 by simp
  have av: "0 < avail ?m ?i"
    using cons_inv_split(1)[OF inv1] ok1 desc_slot.kernel_produce_queue(1)[OF wf a(2) free] by simp
  have rely: "cons_inv m i \<Longrightarrow> cons_rely 16 i m (id m)" for i m by (simp add: cons_rely_refl)
  have quiet: "cons_inv m i \<Longrightarrow> added i m m = []" for i m
    using added_queue[OF cons_rely_refl[of m i 16]] by simp
  obtain it q where res: "BufIdxIter_peek Release id ?m (rx_ring rx) 1 = Inr (it, q, ?m)"
    and it: "it_buffers it \<noteq> 0" "it_remain it = it_buffers it"
    by (rule peek_cursor_inv[of ?m "rx_ring rx" 16 id 1, OF inv1 rely[OF inv1]]) (use av in auto)
  define w where "w = \<lparr>rr_idx = it, rr_queue = q\<rparr>"
  have open1: "RingRx_receive Release id ?m rx 1 = Inr (w, ?m)" using res by (simp add: RingRx_receive_def w_def)
  have n1: "added ?i ?m ?m = []" by (rule quiet[OF inv1])
  have s2: "rx_step (RxSys (RxIdle rx) ?m (p @ [x]) p) (RxSys (RxReading rx w []) ?m (p @ [x]) p)"
    using rx_open[where env = id and p = "p @ [x]" and d = p, OF rely[OF inv1] open1] by (simp add: n1)
  note ok2 = rx_step_ok[OF s2 ok1]
  obtain w1 m1 where r1: "ReadRx_release Release id ?m w = (Inr w1, m1)" using rx_releases by blast
  have inv2: "cons_inv ?m (cons_inner (rr_queue w))" using ok2 by simp
  note st3 = rx_release_stage[where env = id and xs = "[]" and d = p, OF _ _ _ _ _ _ rely[OF inv2] r1]
  have "w1 = w" and n3: "added (cons_inner (rr_queue w)) ?m m1 = []" using ok2 st3(6,7) by simp_all
  note s3 = rx_release[where env = id and xs = "[]" and p = "p @ [x]" and d = p and rx = rx,
      OF rely[OF inv2] r1, unfolded n3 if_P[OF refl] append_Nil2]
  note ok3 = rx_step_ok[OF s3 ok2]
  obtain y w2 where rd: "ReadRx_read m1 w1 = (Some y, w2)"
    using it \<open>w1 = w\<close> by (simp add: w_def ReadRx_read_def)
  note s4 = rx_next[where xs = "[]" and p = "p @ [x]" and d = p and rx = rx, OF rd, simplified]
  note ok4 = rx_step_ok[OF s4 ok3]
  obtain w3 m2 where r2: "ReadRx_release Release id m1 w2 = (Inr w3, m2)" using rx_releases by blast
  have inv4: "cons_inv m1 (cons_inner (rr_queue w2))" using ok4 by simp
  note st5 = rx_release_stage[where env = id and xs = "[y]" and d = p, OF _ _ _ _ _ _ rely[OF inv4] r2]
  have n5: "added (cons_inner (rr_queue w2)) m1 m2 = []" using ok4 st5(7) by simp
  have "[y] \<noteq> []" by simp
  note s5 = rx_release[where env = id and xs = "[y]" and p = "p @ [x]" and d = p and rx = rx,
      OF rely[OF inv4] r2, unfolded n5 if_not_P[OF this] append_Nil2]
  note ok5 = rx_step_ok[OF s5 ok4]
  have y: "y = x" using ok5 by simp
  obtain r where "ReadRx_drop Release w3 = Inr r"
    by (cases "it_buffers (rr_idx w3) = 0") (auto simp: ReadRx_drop_def)
  note s6 = rx_close[OF this, where p = "p @ [x]" and d = "p @ [x]" and rx = rx]
  note run3 = rtranclp.rtrancl_into_rtrancl[OF rtranclp.rtrancl_into_rtrancl[OF
      r_into_rtranclp[of rx_step, OF s1] s2] s3]
  note run6 = rtranclp.rtrancl_into_rtrancl[OF rtranclp.rtrancl_into_rtrancl[OF
      rtranclp.rtrancl_into_rtrancl[OF run3 s4[unfolded y]] s5[unfolded y]] s6]
  from run6 show ?thesis by blast
qed

end
