(* ===== verification/Bringup.thy ===== *)
theory Bringup
  imports Setup Frames Spsc
begin

text \<open>
  From the socket to a working ring: what \<open>XskRing::map\<close> builds from the kernel's offsets meets
  what the rings were verified under, and freshly mapped handles start in the states from which the
  channels of \<open>Spsc\<close> are correct.
\<close>

subsection \<open>What the kernel's offsets promise\<close>

text \<open>
  Heads and flags are separate words in front of the slots, and the whole fits the address space.
\<close>

definition offsets_ok :: "nat \<Rightarrow> u32 \<Rightarrow> XdpRingOffsets \<Rightarrow> bool" where
  "offsets_ok sz n off \<longleftrightarrow> unat (off_desc off) + sz * unat n < 2 ^ 64 \<and>
     unat (off_producer off) + 4 \<le> unat (off_desc off) \<and>
     unat (off_consumer off) + 4 \<le> unat (off_desc off) \<and>
     unat (off_flags off) + 4 \<le> unat (off_desc off) \<and>
     apart (off_producer off, 4) (off_consumer off, 4) \<and>
     apart (off_producer off, 4) (off_flags off, 4) \<and> apart (off_consumer off, 4) (off_flags off, 4)"

lemma unat_add_fits: "unat a + unat (b :: u64) < 2 ^ 64 \<Longrightarrow> unat (a + b) = unat a + unat b"
  using unat_add_lem[of a b] by simp

lemma map_shape:
  assumes "XskRing_map S pf fd off n szw pgoff k = (Ok (i, addr), k1)"
    and "offsets_ok (unat szw) n off"
  shows "XskRing_new pf (sys_memory S k1) (fst addr) off n = Inr i"
    and "unat (snd addr) = unat (off_desc off) + unat szw * unat n"
proof -
  obtain len where len: "rbind (mul_chk pf (ucast n) szw) (add_chk pf (off_desc off)) = Inr len"
    using assms(1) by (auto simp: XskRing_map_def split: sum.splits)
  have bound: "unat (off_desc off) + unat szw * unat n < 2 ^ 64" using assms(2) by (simp add: offsets_ok_def)
  then have "unat ((ucast n :: u64) * szw) = unat szw * unat n"
    by (simp add: unat_word_ariths mult.commute)
  moreover have "len = off_desc off + ucast n * szw"
    using len by (auto simp: res_simps dest!: mul_chk_InrD add_chk_InrD)
  ultimately have ulen: "unat len = unat (off_desc off) + unat szw * unat n"
    using unat_add_fits[of "off_desc off" "ucast n * szw"] bound by simp
  obtain a k2 where mm: "sys_mmap S 0 len PROT_READ_WRITE MAP_SHARED_POPULATE fd pgoff k = (a, k2)"
    by (metis surj_pair)
  show "XskRing_new pf (sys_memory S k1) (fst addr) off n = Inr i"
    using assms(1) len mm
    by (cases "XskRing_new pf (sys_memory S k2) a off n") (auto simp: XskRing_map_def split: if_splits)
  have "snd addr = len"
    using assms(1) len mm
    by (cases "XskRing_new pf (sys_memory S k2) a off n") (auto simp: XskRing_map_def split: if_splits)
  with ulen show "unat (snd addr) = unat (off_desc off) + unat szw * unat n" by simp
qed

lemma new_fields:
  assumes "XskRing_new pf m a off n = Inr i"
  shows "producer i = a + off_producer off" "consumer i = a + off_consumer off"
    "flags_ptr i = a + off_flags off" "ring_ptr i = a + off_desc off" "ring_size i = n" "ring_mask i = n - 1"
    "cached_producer i = kprod m i" "cached_consumer i = kcons m i"
  using assms by (auto simp: XskRing_new_def Let_def res_simps dest!: sub_chk_InrD split: if_splits)

lemma map_layout:
  assumes "XskRing_map S pf fd off n szw pgoff k = (Ok (i, addr), k1)"
    and "offsets_ok (unat szw) n off" and "is_power_of_two n"
    and "unat (fst addr) + unat (snd addr) < 2 ^ 64"
  shows "ring_wf i" and "ring_layout (unat szw) i"
    and "within (slots_region (unat szw) i) (fst addr, unat (snd addr))"
    and "within (producer i, 4) (fst addr, unat (snd addr))"
    and "within (consumer i, 4) (fst addr, unat (snd addr))"
    and "within (flags_ptr i, 4) (fst addr, unat (snd addr))"
proof -
  note sh = map_shape[OF assms(1,2)] and f = new_fields[OF map_shape(1)[OF assms(1,2)]]
  note o = assms(2)[unfolded offsets_ok_def]
  show "ring_wf i" using f assms(3) by (simp add: ring_wf_def)
  have at: "unat (fst addr + x) = unat (fst addr) + unat x" if "unat x \<le> unat (snd addr)" for x
    using that assms(4) by (intro unat_add_fits) simp
  have p: "unat (producer i) = unat (fst addr) + unat (off_producer off)"
    and c: "unat (consumer i) = unat (fst addr) + unat (off_consumer off)"
    and g: "unat (flags_ptr i) = unat (fst addr) + unat (off_flags off)"
    and r: "unat (ring_ptr i) = unat (fst addr) + unat (off_desc off)"
    using at sh(2) o by (simp_all add: f)
  show "ring_layout (unat szw) i"
    using p c g r o sh(2) assms(4) f(5)
    by (auto simp: ring_layout_def fits_def apart_def slots_region_def)
  show "within (slots_region (unat szw) i) (fst addr, unat (snd addr))"
    "within (producer i, 4) (fst addr, unat (snd addr))"
    "within (consumer i, 4) (fst addr, unat (snd addr))"
    "within (flags_ptr i, 4) (fst addr, unat (snd addr))"
    using p c g r o sh(2) f(5) by (simp_all add: within_def slots_region_def)
qed

lemma demo_ring_ok: "offsets_ok (unat (16 :: u64)) 4 demo_ring"
  by (simp add: offsets_ok_def demo_ring_def apart_def)

definition demo_user :: User where
  "demo_user = \<lparr>user_socket = demo_socket,
     user_config = \<lparr>rx_size = Some 4, tx_size = Some 4, bind_flags = 0\<rparr>,
     user_map = \<lparr>smo_inner = demo_offsets\<rparr>\<rparr>"

lemmas demo_map = demo_user_def demo_socket_def demo_proc_def demo_kernel_def demo_state_def demo_libc_def
  demo_offsets_def demo_ring_def User_map_tx_def User_map_rx_def on_os_def RingProd_tx_def RingCons_rx_def
  XskRing_map_def XskRing_new_def Let_def MAP_FAILED_def XDP_PGOFF_TX_RING_def XDP_PGOFF_RX_RING_def
  XDP_UMEM_PGOFF_COMPLETION_RING_def arc_get_def arc_clone_def

lemma demo_map_tx:
  "\<exists>i p'. User_map_tx demo_libc Release demo_user (demo_proc []) =
      (Ok \<lparr>tx_ring = \<lparr>prod_inner = i, prod_mmap_addr = (2147487744, 256)\<rparr>, tx_fd = 0\<rparr>, p') \<and>
    d_mem (os p') = (\<lambda>_. 0)"
  by (simp add: demo_map)

lemma demo_map_rx:
  "\<exists>i p'. User_map_rx demo_libc Release demo_user (demo_proc []) =
      (Ok \<lparr>rx_ring = \<lparr>cons_inner = i, cons_mmap_addr = (4096, 256)\<rparr>, rx_fd = 0\<rparr>, p') \<and>
    d_mem (os p') = (\<lambda>_. 0)"
  by (simp add: demo_map)

subsection \<open>Properties\<close>

text \<open>
  A ring mapped with offsets as the kernel gives them lies entirely inside its mapping and has
  the layout every ring operation was verified under; in particular an access through any 32-bit
  index whatever stays inside the slots.
\<close>

theorem ring_map_sound:
  assumes "XskRing_map S pf fd off n szw pgoff k = (Ok (i, addr), k1)"
    and "offsets_ok (unat szw) n off" and "is_power_of_two n"
    and "unat (fst addr) + unat (snd addr) < 2 ^ 64"
  shows "ring_wf i \<and> ring_layout (unat szw) i \<and>
    within (slot_addr (unat szw) i idx, unat szw) (fst addr, unat (snd addr)) \<and>
    within (producer i, 4) (fst addr, unat (snd addr)) \<and> within (consumer i, 4) (fst addr, unat (snd addr)) \<and>
    within (flags_ptr i, 4) (fst addr, unat (snd addr))"
proof -
  note l = map_layout[OF assms]
  have "within (slot_addr (unat szw) i idx, unat szw) (slots_region (unat szw) i)"
    using slot_within[OF l(1) ring_layoutD(4)[OF l(2)]] .
  with l show ?thesis by (auto simp: within_def)
qed

theorem ring_map_sound_witness:
  "\<exists>i addr k1. XskRing_map demo_libc Release 3 demo_ring 4 16 0 (demo_kernel []) = (Ok (i, addr), k1) \<and>
    ring_wf i \<and> ring_layout 16 i \<and> within (slot_addr 16 i 4294967295, 16) (fst addr, unat (snd addr))"
proof -
  obtain i k1 where run: "XskRing_map demo_libc Release 3 demo_ring 4 16 0 (demo_kernel []) = (Ok (i, (4096, 256)), k1)"
    by (simp add: XskRing_map_def XskRing_new_def demo_libc_def demo_kernel_def demo_state_def demo_ring_def
        Let_def MAP_FAILED_def XDP_UMEM_PGOFF_COMPLETION_RING_def)
  have off: "offsets_ok (unat (16 :: u64)) 4 demo_ring" by (rule demo_ring_ok)
  have "unat (fst (4096 :: u64, 256 :: u64)) + unat (snd (4096 :: u64, 256 :: u64)) < 2 ^ 64" by simp
  from ring_map_sound[OF run off pow2_4 this, of 4294967295] run show ?thesis by auto
qed

subsection \<open>Handles as \<open>map_tx\<close> and \<open>map_rx\<close> return them\<close>

text \<open>
  A transmit handle that \<open>map_tx\<close> returns for a ring the kernel has just set up (heads equal) is
  ready: it satisfies the invariant, has nothing reserved or in flight, and every slot is free.
\<close>

lemma map_tx_ready:
  assumes "User_map_tx S pf us p = (Ok tx, p')" and "tx_size (user_config us) = Some n"
    and "is_power_of_two n" and "offsets_ok 16 n (mo_tx (smo_inner (user_map us)))"
    and "unat (fst (prod_mmap_addr (tx_ring tx))) + unat (snd (prod_mmap_addr (tx_ring tx))) < 2 ^ 64"
    and "kprod (sys_memory S (os p')) (prod_inner (tx_ring tx)) =
      kcons (sys_memory S (os p')) (prod_inner (tx_ring tx))"
  shows "prod_inv (sys_memory S (os p')) (prod_inner (tx_ring tx)) \<and>
    ring_layout 16 (prod_inner (tx_ring tx)) \<and>
    staged (sys_memory S (os p')) (prod_inner (tx_ring tx)) = 0 \<and>
    free_slots (sys_memory S (os p')) (prod_inner (tx_ring tx)) = unat n"
proof -
  let ?fd = "arc_get p (sock_fd (user_socket us))" and ?i = "prod_inner (tx_ring tx)"
  obtain r k1 where m0: "XskRing_map S pf ?fd (mo_tx (smo_inner (user_map us))) n 16 XDP_PGOFF_TX_RING (os p) =
      (r, k1)" by (metis surj_pair)
  then have m: "XskRing_map S pf ?fd (mo_tx (smo_inner (user_map us))) n 16 XDP_PGOFF_TX_RING (os p) =
      (Ok (?i, prod_mmap_addr (tx_ring tx)), k1)" and p': "os p' = k1"
    using assms(1,2) by (cases r; auto simp: User_map_tx_def on_os_def RingProd_tx_def)+
  have o: "offsets_ok (unat (16 :: u64)) n (mo_tx (smo_inner (user_map us)))" using assms(4) by simp
  note l = map_layout[OF m o assms(3,5)] and f = new_fields[OF map_shape(1)[OF m o]]
  have st: "staged (sys_memory S (os p')) ?i = 0" using f(7) p' by (simp add: staged_def)
  have "cached_consumer ?i = cached_producer ?i" using f(7,8) p' assms(6) by simp
  moreover have "cdist (cached_consumer ?i - ring_size ?i) (cached_consumer ?i) = nslots ?i"
    by (simp add: cdist_def)
  ultimately have "prod_inv (sys_memory S (os p')) ?i"
    using l(1) f(7,8) p' assms(6) by (simp add: prod_inv_def Let_def)
  with st l(2) f(5,7) p' assms(6) show ?thesis by (simp add: free_slots_def)
qed

text \<open>
  A receive handle that \<open>map_rx\<close> returns is ready whatever the kernel has produced already, as
  long as that fits the ring: it satisfies the invariant, nothing is taken and all of it is available.
\<close>

lemma map_rx_ready:
  assumes "User_map_rx S pf us p = (Ok rx, p')" and "rx_size (user_config us) = Some n"
    and "is_power_of_two n" and "offsets_ok 16 n (mo_rx (smo_inner (user_map us)))"
    and "unat (fst (cons_mmap_addr (rx_ring rx))) + unat (snd (cons_mmap_addr (rx_ring rx))) < 2 ^ 64"
    and "in_flight (sys_memory S (os p')) (cons_inner (rx_ring rx)) \<le> unat n"
  shows "cons_inv (sys_memory S (os p')) (cons_inner (rx_ring rx)) \<and>
    ring_layout 16 (cons_inner (rx_ring rx)) \<and> taken (sys_memory S (os p')) (cons_inner (rx_ring rx)) = 0 \<and>
    avail (sys_memory S (os p')) (cons_inner (rx_ring rx)) =
      in_flight (sys_memory S (os p')) (cons_inner (rx_ring rx))"
proof -
  let ?fd = "arc_get p (sock_fd (user_socket us))" and ?i = "cons_inner (rx_ring rx)"
  obtain r k1 where m0: "XskRing_map S pf ?fd (mo_rx (smo_inner (user_map us))) n 16 XDP_PGOFF_RX_RING (os p) =
      (r, k1)" by (metis surj_pair)
  then have m: "XskRing_map S pf ?fd (mo_rx (smo_inner (user_map us))) n 16 XDP_PGOFF_RX_RING (os p) =
      (Ok (?i, cons_mmap_addr (rx_ring rx)), k1)" and p': "os p' = k1"
    using assms(1,2) by (cases r; auto simp: User_map_rx_def on_os_def RingCons_rx_def)+
  have o: "offsets_ok (unat (16 :: u64)) n (mo_rx (smo_inner (user_map us)))" using assms(4) by simp
  note l = map_layout[OF m o assms(3,5)] and f = new_fields[OF map_shape(1)[OF m o]]
  show ?thesis
    using l(1,2) f(5,7,8) p' assms(6)
    by (simp add: cons_inv_def Let_def taken_def avail_def in_flight_def)
qed

end
