(* ===== verification/Flood.thy ===== *)
theory Flood
  imports Iter Bringup
begin

text \<open>
  The client \<open>examples/flood.rs\<close>: it sets up one socket with a transmit ring, writes one packet into
  a frame, and sends its descriptor \<open>total\<close> times, counting completions, in a loop that polls both
  rings.  The set-up runs on the process state; the loop runs on the shared memory, with the kernel's
  share of each round as an argument.  Timing and argument parsing are left out; \<open>Report\<close> has what is printed.
\<close>

subsection \<open>Integers the client counts with\<close>

text \<open>The counters of the statistics are \<open>i32\<close>, by the defaults of integer literals.\<close>

type_synonym i32 = "32 word"

definition incr_i32 :: "profile \<Rightarrow> i32 \<Rightarrow> i32 res" where
  "incr_i32 pf w = (if pf = Debug \<and> w = 0x7FFFFFFF then Inl ArithOverflow else Inr (w + 1))"

definition saturating_sub :: "u32 \<Rightarrow> u32 \<Rightarrow> u32" where
  "saturating_sub a b = (if a < b then 0 else a - b)"

fun bit_len :: "nat \<Rightarrow> nat" where
  "bit_len n = (if n = 0 then 0 else Suc (bit_len (n div 2)))"

declare bit_len.simps [simp del]

definition leading_zeros :: "u32 \<Rightarrow> u32" where
  "leading_zeros w = of_nat (32 - bit_len (unat w))"

text \<open>\<open>log[32 - n.leading_zeros() as usize] += 1\<close>, on an array of 33 counters.\<close>

definition log_batch :: "profile \<Rightarrow> u32 \<Rightarrow> i32 list \<Rightarrow> i32 list res" where
  "log_batch pf n log =
     rbind (sub_chk pf (32 :: u64) (ucast (leading_zeros n))) (\<lambda>idx.
       if length log \<le> unat idx then Inl OutOfRange
       else rbind (incr_i32 pf (log ! unat idx)) (\<lambda>v. Inr (log[unat idx := v])))"

subsection \<open>Arguments, interface and packet\<close>

record Args =
  arg_ifname :: "u8 list"
  arg_queue_id :: "u32 option"
  arg_batch :: "u32 option"
  arg_total :: "u32 option"
  arg_length :: "u32 option"

text \<open>\<open>unwrap\<close> in \<open>main\<close>: an error ends the process.\<close>

definition unwrap :: "'a outcome \<times> 's \<Rightarrow> 'a outcome \<times> 's" where
  "unwrap x = (case x of (Err e, s) \<Rightarrow> (Panic Unwrapped, s) | y \<Rightarrow> y)"

text \<open>
  A local with a destructor is dropped when the rest of its function fails, in \<open>main\<close> when a panic
  unwinds through it.  \<open>process::exit\<close> runs no destructors.
\<close>

definition unwind :: "('s \<Rightarrow> 's) \<Rightarrow> 'a outcome \<times> 's \<Rightarrow> 'a outcome \<times> 's" where
  "unwind d x = (case x of (Panic Exited, s) \<Rightarrow> (Panic Exited, s) | y \<Rightarrow> on_fail d y)"

lemma unwind_simps [simp]:
  "unwind d (Ok a, s) = (Ok a, s)" "unwind d (Err e, s) = (Err e, d s)"
  "unwind d (Panic q, s) = (Panic q, if q = Exited then s else d s)"
  by (simp_all add: unwind_def split: panic.splits)

lemma unwind_eq_Ok [simp]: "unwind d x = (Ok a, s) \<longleftrightarrow> x = (Ok a, s)"
  by (cases x; cases "fst x") auto

text \<open>
  \<open>CStr::from_bytes_with_nul\<close> fails, and is unwrapped, if the name contains a nul; \<open>from_name\<close> then
  starts from \<open>IfInfo::invalid()\<close>.
\<close>

definition ifinfo_of :: "'k libc \<Rightarrow> u8 list \<Rightarrow> u32 option \<Rightarrow> 'k \<Rightarrow> IfInfo outcome \<times> 'k" where
  "ifinfo_of S ifname q k =
     (if List.member ifname 0 then (Panic Unwrapped, k)
      else case IfInfo_from_name S ifname IfInfo_invalid k of (r, info, k1) \<Rightarrow>
        obind (r, k1) (\<lambda>_ k2.
          (Ok (case q of None \<Rightarrow> info | Some qid \<Rightarrow> IfInfo_set_queue qid info), k2)))"

definition ifinfo :: "'k libc \<Rightarrow> Args \<Rightarrow> 'k \<Rightarrow> IfInfo outcome \<times> 'k" where
  "ifinfo S args k = ifinfo_of S (arg_ifname args) (arg_queue_id args) k"

definition ARP :: "u8 list" where
  "ARP = [
    0x11, 0x12, 0x13, 0x14, 0x15, 0x16,
    0x31, 0x32, 0x33, 0x34, 0x35, 0x36,
    0x08, 0x06,
    0x00, 0x01,
    0x08, 0x00, 0x06, 0x04,
    0x00, 0x01,
    0x11, 0x12, 0x13, 0x14, 0x15, 0x16,
    0x21, 0x22, 0x23, 0x24,
    0x31, 0x32, 0x33, 0x34, 0x35, 0x36,
    0x41, 0x42, 0x43, 0x44]"

text \<open>The buffer is a slice in the memory; slicing and copying are checked against its length.\<close>

definition prepare_buffer ::
  "profile \<Rightarrow> u64 \<Rightarrow> slice \<Rightarrow> u32 option \<Rightarrow> mem \<Rightarrow> (XdpDesc \<times> mem) res" where
  "prepare_buffer pf offset buffer len m =
     (if unat (snd buffer) < length ARP then Inl OutOfRange
      else
        let m1 = store_bytes m (fst buffer) ARP;
            extra = saturating_sub (case len of None \<Rightarrow> 0 | Some l \<Rightarrow> l) (of_nat (length ARP))
        in rbind (add_chk pf (of_nat (length ARP)) extra) (\<lambda>n.
             Inr (\<lparr>desc_addr = offset, desc_len = n, desc_options = 0\<rparr>, m1)))"

subsection \<open>Set-up\<close>

record flood_setup =
  su_umem :: Umem
  su_sock :: Socket
  su_device :: DeviceQueue
  su_rxtx :: User
  su_tx :: RingTx
  su_desc :: XdpDesc
  su_mem :: mem

text \<open>The socket configuration, and \<open>assert!(rxtx.map_rx().is_err())\<close>.\<close>

definition flood_config :: SocketConfig where
  "flood_config = \<lparr>rx_size = None, tx_size = Some (push_bit 14 1), bind_flags = XDP_BIND_NEED_WAKEUP\<rparr>"

definition assert_no_rx :: "'k libc \<Rightarrow> profile \<Rightarrow> User \<Rightarrow> 'k proc \<Rightarrow> unit outcome \<times> 'k proc" where
  "assert_no_rx S pf rxtx p =
     (case User_map_rx S pf rxtx p of
        (Ok rx, p1) \<Rightarrow> (Panic AssertFailed, RingRx_drop S rx p1)
      | (Err e, p1) \<Rightarrow> (Ok (), p1)
      | (Panic e, p1) \<Rightarrow> (Panic e, p1))"

definition prepare_frame ::
  "profile \<Rightarrow> Umem \<Rightarrow> BufIdx \<Rightarrow> u32 option \<Rightarrow> mem \<Rightarrow> (XdpDesc \<times> mem) res" where
  "prepare_frame pf umem idx len m =
     rbind (Umem_frame pf umem idx) (\<lambda>fr.
       case fr of
         None \<Rightarrow> Inl Unwrapped
       | Some frame \<Rightarrow> prepare_buffer pf (chunk_offset frame) (chunk_addr frame) len m)"

definition flood_set_up ::
  "'k libc \<Rightarrow> profile \<Rightarrow> Args \<Rightarrow> slice \<Rightarrow> 'k proc \<Rightarrow> flood_setup outcome \<times> 'k proc" where
  "flood_set_up S pf args area p0 =
     obind (unwrap (Umem_new S pf UmemConfig_default area p0)) (\<lambda>umem p1. unwind (Umem_drop S umem) (
     obind (unwrap (on_os (ifinfo S args) p1)) (\<lambda>info p2.
     obind (unwrap (Socket_with_shared S info umem p2)) (\<lambda>sock p3. unwind (Socket_drop S sock) (
     obind (unwrap (Umem_fq_cq S pf umem sock p3)) (\<lambda>device p4. unwind (DeviceQueue_drop S device) (
     obind (unwrap (Umem_rx_tx S pf sock flood_config p4)) (\<lambda>rxtx p5. unwind (User_drop S rxtx) (
     obind (assert_no_rx S pf rxtx p5) (\<lambda>_ p6.
     obind (unwrap (User_map_tx S pf rxtx p6)) (\<lambda>tx p7. unwind (RingTx_drop S tx) (
     obind (unwrap (Umem_bind S umem rxtx p7)) (\<lambda>_ p8.
     obind (of_res (prepare_frame pf umem 1 (arg_length args) (sys_memory S (os p8))), p8) (\<lambda>(desc, m) p9.
       (Ok \<lparr>su_umem = umem, su_sock = sock, su_device = device, su_rxtx = rxtx, su_tx = tx,
            su_desc = desc, su_mem = m\<rparr>, p9)))))))))))))))"

subsection \<open>The loop\<close>

text \<open>
  What the kernel does to the shared memory during one round, at every point where the client's
  accesses leave it a chance.  After the wake-up was considered it may depend on whether the client
  issued it.
\<close>

record kround =
  kr_start :: env
  kr_submit :: env
  kr_flags :: env
  kr_wait :: "bool \<Rightarrow> env"
  kr_peek :: env
  kr_release :: env

record 'k flood =
  fl_proc :: "'k proc"
  fl_mem :: mem
  fl_tx :: RingTx
  fl_device :: DeviceQueue
  fl_sent :: u32
  fl_completed :: u32
  fl_loops :: i32
  fl_stall :: i32
  fl_woken :: i32
  fl_tx_log :: "i32 list"
  fl_cq_log :: "i32 list"

text \<open>The sending scope: the writer is dropped at its end.\<close>

definition flood_send ::
  "profile \<Rightarrow> env \<Rightarrow> mem \<Rightarrow> RingTx \<Rightarrow> u32 \<Rightarrow> XdpDesc \<Rightarrow> (u32 \<times> RingTx \<times> mem) res" where
  "flood_send pf env m tx n desc =
     rbind (RingTx_transmit pf m tx n) (\<lambda>writer.
       case WriteTx_insert_from repeat_next m writer desc of (sent_now, bufs, writer1, m1) \<Rightarrow>
       case WriteTx_commit pf env m1 writer1 of (writer2, m2) \<Rightarrow>
         rbind writer2 (\<lambda>w. rbind (WriteTx_drop pf w) (\<lambda>q. Inr (sent_now, tx\<lparr>tx_ring := q\<rparr>, m2))))"

text \<open>\<open>while reader.read().is_some() { comp_temp += 1; }\<close>\<close>

function count_reads :: "profile \<Rightarrow> mem \<Rightarrow> ReadComplete \<Rightarrow> u32 \<Rightarrow> (u32 \<times> ReadComplete) res" where
  "count_reads pf m w n =
     (case ReadComplete_read m w of
        (None, w1) \<Rightarrow> Inr (n, w1)
      | (Some x, w1) \<Rightarrow> rbind (add_chk pf n 1) (\<lambda>n1. count_reads pf m w1 n1))"
  by pat_completeness auto
termination
  by (relation "measure (\<lambda>(pf, m, w, n). unat (it_remain (rc_idx w)))")
    (auto simp: ReadComplete_read_def split: prod.splits option.splits dest!: next_remain)

declare count_reads.simps [simp del]

definition flood_reap ::
  "profile \<Rightarrow> env \<Rightarrow> env \<Rightarrow> mem \<Rightarrow> DeviceQueue \<Rightarrow> u32 \<Rightarrow> (u32 \<times> DeviceQueue \<times> mem) res" where
  "flood_reap pf env env' m dq n =
     rbind (DeviceQueue_complete pf env m dq n) (\<lambda>(reader, m1).
       rbind (count_reads pf m1 reader 0) (\<lambda>(comp_now, reader1).
         case ReadComplete_release pf env' m1 reader1 of (reader2, m2) \<Rightarrow>
           rbind reader2 (\<lambda>w. rbind (ReadComplete_drop pf w) (\<lambda>q.
             Inr (comp_now, dq\<lparr>dq_fcq := (dq_fcq dq)\<lparr>fcq_cons := q\<rparr>\<rparr>, m2)))))"

definition flood_wake :: "'k libc \<Rightarrow> profile \<Rightarrow> bool \<Rightarrow> RingTx \<Rightarrow> 'k proc \<times> i32 \<Rightarrow> ('k proc \<times> i32) res" where
  "flood_wake S pf needed tx x =
     (case x of (p, woken) \<Rightarrow>
        if needed then rbind (incr_i32 pf woken) (\<lambda>n. Inr (RingTx_wake S tx p, n)) else Inr (p, woken))"

text \<open>The last part of a round: counters and statistics.\<close>

definition flood_stats :: "profile \<Rightarrow> u32 \<Rightarrow> u32 \<Rightarrow> 'k flood \<Rightarrow> 'k flood res" where
  "flood_stats pf sent_now comp_now st =
     rbind (if sent_now = 0 \<and> comp_now = 0 then incr_i32 pf (fl_stall st) else Inr (fl_stall st)) (\<lambda>stall.
     rbind (add_chk pf (fl_sent st) sent_now) (\<lambda>sent.
     rbind (add_chk pf (fl_completed st) comp_now) (\<lambda>completed.
     rbind (incr_i32 pf (fl_loops st)) (\<lambda>loops.
     rbind (log_batch pf sent_now (fl_tx_log st)) (\<lambda>tx_log.
     rbind (log_batch pf comp_now (fl_cq_log st)) (\<lambda>cq_log.
       Inr (st\<lparr>fl_stall := stall, fl_sent := sent, fl_completed := completed, fl_loops := loops,
              fl_tx_log := tx_log, fl_cq_log := cq_log\<rparr>)))))))"

definition flood_round ::
  "'k libc \<Rightarrow> profile \<Rightarrow> u32 \<Rightarrow> u32 \<Rightarrow> XdpDesc \<Rightarrow> kround \<Rightarrow> 'k flood \<Rightarrow> 'k flood res" where
  "flood_round S pf batch tot desc r st =
     (let send_batch = min (saturating_sub tot (fl_sent st)) batch
      in rbind (flood_send pf (kr_submit r) (kr_start r (fl_mem st)) (fl_tx st) send_batch desc)
           (\<lambda>(sent_now, tx, m1).
         let m2 = kr_flags r m1; needed = RingTx_needs_wakeup m2 tx
         in rbind (flood_wake S pf needed tx (fl_proc st, fl_woken st)) (\<lambda>(p, woken).
         let comp_batch = min (saturating_sub (fl_sent st) (fl_completed st)) batch
         in rbind (flood_reap pf (kr_peek r) (kr_release r) (kr_wait r needed m2) (fl_device st) comp_batch)
              (\<lambda>(comp_now, device, m3).
            flood_stats pf sent_now comp_now
              (st\<lparr>fl_proc := p, fl_mem := m3, fl_tx := tx, fl_device := device, fl_woken := woken\<rparr>)))))"

definition flood_done :: "u32 \<Rightarrow> 'k flood \<Rightarrow> bool" where
  "flood_done tot st \<longleftrightarrow> fl_sent st = fl_completed st \<and> fl_sent st = tot"

text \<open>The loop may run forever: \<open>None\<close>.\<close>

partial_function (option) flood_loop ::
  "'k libc \<Rightarrow> profile \<Rightarrow> u32 \<Rightarrow> u32 \<Rightarrow> XdpDesc \<Rightarrow> (nat \<Rightarrow> kround) \<Rightarrow> nat \<Rightarrow> 'k flood \<Rightarrow> 'k flood res option"
where
  "flood_loop S pf batch tot desc ks n st =
     (if flood_done tot st then Some (Inr st)
      else case flood_round S pf batch tot desc (ks n) st of
        Inl e \<Rightarrow> Some (Inl e)
      | Inr st1 \<Rightarrow> flood_loop S pf batch tot desc ks (Suc n) st1)"

definition flood_init :: "'k proc \<Rightarrow> flood_setup \<Rightarrow> 'k flood" where
  "flood_init p su = \<lparr>fl_proc = p, fl_mem = su_mem su, fl_tx = su_tx su, fl_device = su_device su,
     fl_sent = 0, fl_completed = 0, fl_loops = 0, fl_stall = 0, fl_woken = 0,
     fl_tx_log = replicate 33 0, fl_cq_log = replicate 33 0\<rparr>"

text \<open>The end of \<open>main\<close>: its locals are dropped, the last one first.\<close>

definition flood_exit :: "'k libc \<Rightarrow> flood_setup \<Rightarrow> 'k flood \<Rightarrow> 'k proc" where
  "flood_exit S su st =
     Umem_drop S (su_umem su) (Socket_drop S (su_sock su) (User_drop S (su_rxtx su)
       (RingTx_drop S (fl_tx st) (DeviceQueue_drop S (fl_device st) (fl_proc st)))))"

definition flood_batch :: "Args \<Rightarrow> u32" where
  "flood_batch args = (case arg_batch args of None \<Rightarrow> push_bit 10 1 | Some b \<Rightarrow> b)"

definition flood_total :: "Args \<Rightarrow> u32" where
  "flood_total args = (case arg_total args of None \<Rightarrow> push_bit 20 1 | Some t \<Rightarrow> t)"

definition flood_main ::
  "'k libc \<Rightarrow> profile \<Rightarrow> Args \<Rightarrow> slice \<Rightarrow> (nat \<Rightarrow> kround) \<Rightarrow> 'k proc \<Rightarrow> 'k flood res option" where
  "flood_main S pf args area ks p =
     (case flood_set_up S pf args area p of
        (Ok su, p1) \<Rightarrow>
          flood_loop S pf (flood_batch args) (flood_total args) (su_desc su) ks 0 (flood_init p1 su)
      | (Err e, p1) \<Rightarrow> Some (Inl Unwrapped)
      | (Panic e, p1) \<Rightarrow> Some (Inl e))"

end
