(* ===== verification/FloodMt.thy ===== *)
theory FloodMt
  imports Flood
begin

text \<open>
  The client \<open>examples/flood-mt.rs\<close>: one completion queue per interface and one transmit ring per
  thread, all on one UMEM.  The set-up runs on the process state.  The threads run as a step relation
  in which every access to a shared counter is a step of its own, in any order; each thread is a
  small program counter with its local variables.  Timing and argument parsing are left out; \<open>Report\<close> has what is printed.
\<close>

subsection \<open>Arguments\<close>

text \<open>\<open>threads\<close> is an \<open>Option<NonZeroU32>\<close>: a number that is given is not zero, by its type.\<close>

record MtArgs =
  mt_ifname :: "u8 list list"
  mt_queue_id :: "u32 option"
  mt_batch :: "u32 option"
  mt_total :: "u32 option"
  mt_length :: "u32 option"
  mt_threads :: "u32 option"

fun ifinfos :: "'k libc \<Rightarrow> u32 option \<Rightarrow> u8 list list \<Rightarrow> 'k \<Rightarrow> IfInfo list outcome \<times> 'k" where
  "ifinfos S q [] k = (Ok [], k)"
| "ifinfos S q (name # names) k =
     obind (ifinfo_of S name q k) (\<lambda>info k1.
     obind (ifinfos S q names k1) (\<lambda>infos k2. (Ok (info # infos), k2)))"

definition mt_ifinfo :: "'k libc \<Rightarrow> MtArgs \<Rightarrow> 'k \<Rightarrow> IfInfo list outcome \<times> 'k" where
  "mt_ifinfo S args k =
     (if mt_ifname args = [] then (Panic Exited, k) else ifinfos S (mt_queue_id args) (mt_ifname args) k)"

definition mt_num_threads :: "MtArgs \<Rightarrow> u32" where
  "mt_num_threads args = (case mt_threads args of None \<Rightarrow> 1 | Some n \<Rightarrow> n)"

subsection \<open>The packet\<close>

text \<open>The file carries its own copy of the packet and of the function that writes it.\<close>

definition mt_ARP :: "u8 list" where
  "mt_ARP = [
    0x11, 0x12, 0x13, 0x14, 0x15, 0x16,
    0x31, 0x32, 0x33, 0x34, 0x35, 0x36,
    0x08, 0x06,
    0x00, 0x01,
    0x08, 0x00, 0x06, 0x04,
    0x00, 0x01,
    0x11, 0x12, 0x13, 0x14, 0x15, 0x16,
    0x21, 0x22, 0x23, 0x24,
    0x31, 0x32, 0x33, 0x34, 0x35, 0x36,
    0x41, 0x42, 0x43, 0x44]"

definition mt_prepare_buffer ::
  "profile \<Rightarrow> u64 \<Rightarrow> slice \<Rightarrow> MtArgs \<Rightarrow> mem \<Rightarrow> (XdpDesc \<times> mem) res" where
  "mt_prepare_buffer pf offset buffer args m =
     (if unat (snd buffer) < length mt_ARP then Inl OutOfRange
      else
        let m1 = store_bytes m (fst buffer) mt_ARP;
            extra = saturating_sub (case mt_length args of None \<Rightarrow> 0 | Some l \<Rightarrow> l) (of_nat (length mt_ARP))
        in rbind (add_chk pf (of_nat (length mt_ARP)) extra) (\<lambda>n.
             Inr (\<lparr>desc_addr = offset, desc_len = n, desc_options = 0\<rparr>, m1)))"

text \<open>The one frame, number 0.\<close>

definition mt_prepare_frame :: "profile \<Rightarrow> Umem \<Rightarrow> MtArgs \<Rightarrow> mem \<Rightarrow> (XdpDesc \<times> mem) res" where
  "mt_prepare_frame pf umem args m =
     rbind (Umem_frame pf umem 0) (\<lambda>fr.
       case fr of
         None \<Rightarrow> Inl Unwrapped
       | Some frame \<Rightarrow> mt_prepare_buffer pf (chunk_offset frame) (chunk_addr frame) args m)"

text \<open>Both copies agree.\<close>

lemma mt_prepare_buffer_eq: "mt_prepare_buffer pf off buf args m = prepare_buffer pf off buf (mt_length args) m"
  by (simp add: mt_prepare_buffer_def prepare_buffer_def mt_ARP_def ARP_def)

lemma mt_prepare_frame_eq [simp]: "mt_prepare_frame pf umem args m = prepare_frame pf umem 0 (mt_length args) m"
  by (simp add: mt_prepare_frame_def prepare_frame_def mt_prepare_buffer_eq cong: option.case_cong)

subsection \<open>Set-up\<close>

text \<open>
  \<open>repeat(xs.iter().enumerate()).flatten()\<close> as far as its first \<open>n\<close> items go, for \<open>xs\<close> not empty.
\<close>

definition cycled :: "'a list \<Rightarrow> nat \<Rightarrow> (nat \<times> 'a) list" where
  "cycled xs n = take n (concat (replicate n (enumerate 0 xs)))"

definition mt_config :: SocketConfig where
  "mt_config = \<lparr>rx_size = None, tx_size = Some (push_bit 12 1), bind_flags = 0\<rparr>"

text \<open>
  What a panic during the set-up drops: the vectors, the last one declared first, each from its front.
\<close>

definition mt_unwind ::
  "'k libc \<Rightarrow> DeviceQueue list \<Rightarrow> Socket list \<Rightarrow> User list \<Rightarrow> RingTx list \<Rightarrow> 'k proc \<Rightarrow> 'k proc" where
  "mt_unwind S devices socks to_binds tx_queues p =
     fold (RingTx_drop S) tx_queues (fold (User_drop S) to_binds
       (fold (DeviceQueue_drop S) devices (fold (Socket_drop S) socks p)))"

text \<open>
  The first loop: sockets, device queues and users, collected in the vectors \<open>ds\<close>, \<open>ss\<close> and \<open>bs\<close>.
  Its items are \<open>(idx, (dev_idx, info))\<close>.
\<close>

fun mt_open ::
  "'k libc \<Rightarrow> profile \<Rightarrow> Umem \<Rightarrow> (nat \<times> nat \<times> IfInfo) list \<Rightarrow> DeviceQueue list \<Rightarrow> Socket list \<Rightarrow> User list \<Rightarrow>
     'k proc \<Rightarrow> (DeviceQueue list \<times> Socket list \<times> User list) outcome \<times> 'k proc" where
  "mt_open S pf umem [] ds ss bs p = (Ok (ds, ss, bs), p)"
| "mt_open S pf umem ((idx, dev_idx, info) # todo) ds ss bs p =
     obind (unwind (mt_unwind S ds ss bs [])
       (unwrap (if idx = 0 then Socket_with_shared S info umem p else Socket_new S info p))) (\<lambda>sock p1.
     obind (unwind (\<lambda>q. mt_unwind S ds ss bs [] (Socket_drop S sock q))
       (if idx = dev_idx then obind (unwrap (Umem_fq_cq S pf umem sock p1)) (\<lambda>dq q. (Ok (ds @ [dq]), q))
        else (Ok ds, p1))) (\<lambda>ds1 p2.
     obind (unwind (\<lambda>q. mt_unwind S ds1 ss bs [] (Socket_drop S sock q))
       (unwrap (Umem_rx_tx S pf sock mt_config p2))) (\<lambda>rxtx p3.
     mt_open S pf umem todo ds1 (ss @ [sock]) (bs @ [rxtx]) p3)))"

text \<open>The second loop: binding.  Its items are \<open>(idx, ((dev_idx, queue), rxtx))\<close>.\<close>

fun mt_bind ::
  "'k libc \<Rightarrow> Umem \<Rightarrow> (nat \<times> (nat \<times> DeviceQueue) \<times> User) list \<Rightarrow> 'k proc \<Rightarrow> unit outcome \<times> 'k proc" where
  "mt_bind S umem [] p = (Ok (), p)"
| "mt_bind S umem ((idx, (dev_idx, dq), rxtx) # todo) p =
     obind (unwrap (if idx = dev_idx then Umem_bind S umem rxtx p else DeviceQueue_bind S dq rxtx p))
       (\<lambda>_ p1. mt_bind S umem todo p1)"

text \<open>
  The third loop: mapping, collected in \<open>txs\<close>.  \<open>undo\<close> is what a panic drops of the vectors, given
  those mapped so far.
\<close>

fun mt_map ::
  "'k libc \<Rightarrow> profile \<Rightarrow> (RingTx list \<Rightarrow> 'k proc \<Rightarrow> 'k proc) \<Rightarrow> User list \<Rightarrow> RingTx list \<Rightarrow> 'k proc \<Rightarrow>
     RingTx list outcome \<times> 'k proc" where
  "mt_map S pf undo [] txs p = (Ok txs, p)"
| "mt_map S pf undo (rxtx # todo) txs p =
     obind (unwind (undo txs) (unwrap (User_map_tx S pf rxtx p))) (\<lambda>tx p1.
     obind (unwind (\<lambda>q. undo txs (RingTx_drop S tx q)) (assert_no_rx S pf rxtx p1)) (\<lambda>_ p2.
     mt_map S pf undo todo (txs @ [tx]) p2))"

record mt_setup =
  ms_umem :: Umem
  ms_infos :: "IfInfo list"
  ms_devices :: "DeviceQueue list"
  ms_socks :: "Socket list"
  ms_to_binds :: "User list"
  ms_txs :: "RingTx list"
  ms_desc :: XdpDesc
  ms_mem :: mem

definition mt_set_up ::
  "'k libc \<Rightarrow> profile \<Rightarrow> MtArgs \<Rightarrow> slice \<Rightarrow> 'k proc \<Rightarrow> mt_setup outcome \<times> 'k proc" where
  "mt_set_up S pf args area p0 =
     obind (unwrap (Umem_new S pf UmemConfig_default area p0)) (\<lambda>umem p1. unwind (Umem_drop S umem) (
     obind (unwrap (on_os (mt_ifinfo S args) p1)) (\<lambda>infos p2.
     obind (mt_open S pf umem (enumerate 0 (cycled infos (unat (mt_num_threads args)))) [] [] [] p2)
       (\<lambda>(devices, socks, to_binds) p3.
     obind (unwind (mt_unwind S devices socks to_binds [])
         (mt_bind S umem (enumerate 0 (zip (cycled devices (length to_binds)) to_binds)) p3)) (\<lambda>_ p4.
     obind (mt_map S pf (mt_unwind S devices socks to_binds) to_binds [] p4) (\<lambda>txs p5.
     obind (unwind (mt_unwind S devices socks to_binds txs)
         (of_res (mt_prepare_frame pf umem args (sys_memory S (os p5))), p5)) (\<lambda>(desc, m) p6.
       (Ok \<lparr>ms_umem = umem, ms_infos = infos, ms_devices = devices, ms_socks = socks, ms_to_binds = to_binds,
            ms_txs = txs, ms_desc = desc, ms_mem = m\<rparr>, p6))))))))"

subsection \<open>What the threads share\<close>

text \<open>The counters are \<open>AtomicU32\<close>, which wrap around; the memory holds the rings.\<close>

record 'k shared =
  sh_proc :: "'k proc"
  sh_mem :: mem
  sent_reserved :: u32
  sent :: u32
  completed :: u32
  stall_count :: u32
  stat_loops :: u32
  stat_stall :: u32
  stat_woken :: u32
  tx_log_batch :: "u32 list"
  cq_log_batch :: "u32 list"
  tx_by_sock :: "u32 list"
  cq_by_queue :: "u32 list"

definition WAKE_THRESHOLD :: u32 where
  "WAKE_THRESHOLD = push_bit 4 1"

text \<open>\<open>log[32 - n.leading_zeros() as usize].fetch_add(1)\<close>.\<close>

definition log_atomic :: "profile \<Rightarrow> u32 \<Rightarrow> u32 list \<Rightarrow> u32 list res" where
  "log_atomic pf n log =
     rbind (sub_chk pf (32 :: u64) (ucast (leading_zeros n))) (\<lambda>idx.
       if length log \<le> unat idx then Inl OutOfRange
       else Inr (log[unat idx := log ! unat idx + 1]))"

subsection \<open>The completing threads\<close>

text \<open>
  The next thing a thread does, with the variables it still needs.  The thread owns its queue, so no
  other thread's ring operation concerns it: the scope that reaps is one step, in which the
  environment does anything to the memory between the scope's accesses.
\<close>

datatype comp_pc =
    CLoad
  | CLoadSent u32
  | CReap u32
  | CStall
  | CStatStall
  | CCompleted u32
  | CCounter u32
  | CLoops u32
  | CLog u32
  | CEnd

record completer =
  cp_queue :: DeviceQueue
  cp_ctr :: nat
  cp_pc :: comp_pc

definition completer_step ::
  "'k libc \<Rightarrow> profile \<Rightarrow> u32 \<Rightarrow> u32 \<Rightarrow> env \<Rightarrow> env \<Rightarrow> 'k shared \<Rightarrow> completer \<Rightarrow> ('k shared \<times> completer) res"
where
  "completer_step S pf batch tot env env' sh th =
     (case cp_pc th of
        CLoad \<Rightarrow>
          if completed sh = tot
          then Inr (sh\<lparr>sh_proc := DeviceQueue_drop S (cp_queue th) (sh_proc sh)\<rparr>, th\<lparr>cp_pc := CEnd\<rparr>)
          else Inr (sh, th\<lparr>cp_pc := CLoadSent (completed sh)\<rparr>)
      | CLoadSent current \<Rightarrow>
          Inr (sh, th\<lparr>cp_pc := CReap (min (saturating_sub (sent sh) current) batch)\<rparr>)
      | CReap comp_batch \<Rightarrow>
          rbind (flood_reap pf env env' (sh_mem sh) (cp_queue th) comp_batch) (\<lambda>(comp_now, dq, m).
            Inr (sh\<lparr>sh_mem := m\<rparr>,
              th\<lparr>cp_queue := dq, cp_pc := if comp_now = 0 then CStall else CCompleted comp_now\<rparr>))
      | CStall \<Rightarrow> Inr (sh\<lparr>stall_count := stall_count sh + 1\<rparr>, th\<lparr>cp_pc := CStatStall\<rparr>)
      | CStatStall \<Rightarrow> Inr (sh\<lparr>stat_stall := stat_stall sh + 1\<rparr>, th\<lparr>cp_pc := CCompleted 0\<rparr>)
      | CCompleted comp_now \<Rightarrow>
          Inr (sh\<lparr>completed := completed sh + comp_now\<rparr>, th\<lparr>cp_pc := CCounter comp_now\<rparr>)
      | CCounter comp_now \<Rightarrow>
          Inr (sh\<lparr>cq_by_queue := (cq_by_queue sh)[cp_ctr th := cq_by_queue sh ! cp_ctr th + comp_now]\<rparr>,
            th\<lparr>cp_pc := CLoops comp_now\<rparr>)
      | CLoops comp_now \<Rightarrow> Inr (sh\<lparr>stat_loops := stat_loops sh + 1\<rparr>, th\<lparr>cp_pc := CLog comp_now\<rparr>)
      | CLog comp_now \<Rightarrow>
          rbind (log_atomic pf comp_now (cq_log_batch sh)) (\<lambda>log.
            Inr (sh\<lparr>cq_log_batch := log\<rparr>, th\<lparr>cp_pc := CLoad\<rparr>))
      | CEnd \<Rightarrow> Inr (sh, th))"

subsection \<open>The sending threads\<close>

text \<open>
  \<open>fetch_update\<close> retries until no other thread came between its load and its store, so it is one
  step; its function never declines, so the \<open>Err\<close> arm is dead.
\<close>

datatype send_pc =
    SLoadSent
  | SLoadCompleted
  | SReserve
  | SSend u32
  | SCheckStall u32 u32
  | SWake u32 u32
  | SUnreserve u32 u32
  | SSent u32
  | SCounter u32
  | SLog u32
  | SEnd

record sender =
  sd_tx :: RingTx
  sd_ctr :: nat
  sd_threshold :: u32
  sd_pc :: send_pc

definition sender_step ::
  "'k libc \<Rightarrow> profile \<Rightarrow> u32 \<Rightarrow> u32 \<Rightarrow> XdpDesc \<Rightarrow> env \<Rightarrow> 'k shared \<Rightarrow> sender \<Rightarrow> ('k shared \<times> sender) res"
where
  "sender_step S pf batch tot desc env sh th =
     (case sd_pc th of
        SLoadSent \<Rightarrow> Inr (sh, th\<lparr>sd_pc := if tot \<le> sent sh then SLoadCompleted else SReserve\<rparr>)
      | SLoadCompleted \<Rightarrow>
          if tot \<le> completed sh
          then Inr (sh\<lparr>sh_proc := RingTx_drop S (sd_tx th) (sh_proc sh)\<rparr>, th\<lparr>sd_pc := SEnd\<rparr>)
          else Inr (sh, th\<lparr>sd_pc := SReserve\<rparr>)
      | SReserve \<Rightarrow>
          (let prev = sent_reserved sh in
           rbind (add_chk pf prev (min (saturating_sub tot prev) batch)) (\<lambda>n.
             Inr (sh\<lparr>sent_reserved := n\<rparr>, th\<lparr>sd_pc := SSend (min (saturating_sub tot prev) batch)\<rparr>)))
      | SSend send_batch \<Rightarrow>
          rbind (flood_send pf env (sh_mem sh) (sd_tx th) send_batch desc) (\<lambda>(sent_now, tx, m).
            Inr (sh\<lparr>sh_mem := m\<rparr>, th\<lparr>sd_tx := tx, sd_pc := SCheckStall send_batch sent_now\<rparr>))
      | SCheckStall send_batch sent_now \<Rightarrow>
          Inr (sh, th\<lparr>sd_pc := if sd_threshold th < stall_count sh then SWake send_batch sent_now
                              else SUnreserve send_batch sent_now\<rparr>)
      | SWake send_batch sent_now \<Rightarrow>
          rbind (add_chk pf (sd_threshold th) WAKE_THRESHOLD) (\<lambda>threshold.
            Inr (sh\<lparr>sh_proc := RingTx_wake S (sd_tx th) (sh_proc sh), stat_woken := stat_woken sh + 1\<rparr>,
              th\<lparr>sd_threshold := threshold, sd_pc := SUnreserve send_batch sent_now\<rparr>))
      | SUnreserve send_batch sent_now \<Rightarrow>
          rbind (sub_chk pf send_batch sent_now) (\<lambda>rest.
            Inr (sh\<lparr>sent_reserved := sent_reserved sh - rest\<rparr>, th\<lparr>sd_pc := SSent sent_now\<rparr>))
      | SSent sent_now \<Rightarrow> Inr (sh\<lparr>sent := sent sh + sent_now\<rparr>, th\<lparr>sd_pc := SCounter sent_now\<rparr>)
      | SCounter sent_now \<Rightarrow>
          Inr (sh\<lparr>tx_by_sock := (tx_by_sock sh)[sd_ctr th := tx_by_sock sh ! sd_ctr th + sent_now]\<rparr>,
            th\<lparr>sd_pc := SLog sent_now\<rparr>)
      | SLog sent_now \<Rightarrow>
          rbind (log_atomic pf sent_now (tx_log_batch sh)) (\<lambda>log.
            Inr (sh\<lparr>tx_log_batch := log\<rparr>, th\<lparr>sd_pc := SLoadSent\<rparr>))
      | SEnd \<Rightarrow> Inr (sh, th))"

subsection \<open>All threads together\<close>

record 'k mt =
  mt_shared :: "'k shared"
  mt_completers :: "completer list"
  mt_senders :: "sender list"

definition mt_init :: "'k proc \<Rightarrow> mt_setup \<Rightarrow> 'k mt" where
  "mt_init p ms = \<lparr>mt_shared = \<lparr>sh_proc = p, sh_mem = ms_mem ms, sent_reserved = 0, sent = 0, completed = 0,
       stall_count = 0, stat_loops = 0, stat_stall = 0, stat_woken = 0, tx_log_batch = replicate 33 0,
       cq_log_batch = replicate 33 0, tx_by_sock = replicate (length (ms_to_binds ms)) 0,
       cq_by_queue = replicate (length (ms_devices ms)) 0\<rparr>,
     mt_completers = map (\<lambda>(i, dq). \<lparr>cp_queue = dq, cp_ctr = i, cp_pc = CLoad\<rparr>) (enumerate 0 (ms_devices ms)),
     mt_senders = map (\<lambda>(i, tx). \<lparr>sd_tx = tx, sd_ctr = i, sd_threshold = WAKE_THRESHOLD, sd_pc = SLoadSent\<rparr>)
       (enumerate 0 (ms_txs ms))\<rparr>"

text \<open>Any thread takes its next step, or the kernel changes the memory.\<close>

inductive mt_step :: "'k libc \<Rightarrow> profile \<Rightarrow> u32 \<Rightarrow> u32 \<Rightarrow> XdpDesc \<Rightarrow> 'k mt \<Rightarrow> 'k mt \<Rightarrow> bool"
  for S pf batch tot desc
where
  mt_complete: "i < length (mt_completers st) \<Longrightarrow>
    completer_step S pf batch tot env env' (mt_shared st) (mt_completers st ! i) = Inr (sh, th) \<Longrightarrow>
    mt_step S pf batch tot desc st (st\<lparr>mt_shared := sh, mt_completers := (mt_completers st)[i := th]\<rparr>)"
| mt_send: "i < length (mt_senders st) \<Longrightarrow>
    sender_step S pf batch tot desc env (mt_shared st) (mt_senders st ! i) = Inr (sh, th) \<Longrightarrow>
    mt_step S pf batch tot desc st (st\<lparr>mt_shared := sh, mt_senders := (mt_senders st)[i := th]\<rparr>)"
| mt_kernel: "mt_step S pf batch tot desc st (st\<lparr>mt_shared := (mt_shared st)\<lparr>sh_mem := m\<rparr>\<rparr>)"

inductive_cases mt_stepE: "mt_step S pf batch tot desc st st'"

definition mt_ended :: "'k mt \<Rightarrow> bool" where
  "mt_ended st \<longleftrightarrow> list_all (\<lambda>th. cp_pc th = CEnd) (mt_completers st) \<and>
     list_all (\<lambda>th. sd_pc th = SEnd) (mt_senders st)"

text \<open>
  The end of \<open>main\<close>, all threads joined: the queues and transmit rings went to the threads, the rest is
  dropped, the last vector first.
\<close>

definition mt_exit :: "'k libc \<Rightarrow> mt_setup \<Rightarrow> 'k mt \<Rightarrow> 'k proc" where
  "mt_exit S ms st =
     Umem_drop S (ms_umem ms) (fold (User_drop S) (ms_to_binds ms)
       (fold (Socket_drop S) (ms_socks ms) (sh_proc (mt_shared st))))"

definition mt_batch_size :: "MtArgs \<Rightarrow> u32" where
  "mt_batch_size args = (case mt_batch args of None \<Rightarrow> push_bit 10 1 | Some b \<Rightarrow> b)"

definition mt_total_count :: "MtArgs \<Rightarrow> u32" where
  "mt_total_count args = (case mt_total args of None \<Rightarrow> push_bit 20 1 | Some t \<Rightarrow> t)"

end
