(* ===== verification/TwoRings.thy ===== *)
theory TwoRings
  imports Batches
begin

text \<open>
  A transmit ring and a completion ring side by side in the shared memory.  The kernel completes what
  it took from the one by producing into the other; user space may write to one ring without touching
  the other.  The tally counts the packets: committed, taken by the kernel, completed, reaped.
\<close>

subsection \<open>Independence\<close>

text \<open>What one side sees of a ring: both heads, and the contents of all slots.\<close>

definition same_ring :: "nat \<Rightarrow> XskRing \<Rightarrow> mem \<Rightarrow> mem \<Rightarrow> bool" where
  "same_ring sz i m m' \<longleftrightarrow> kprod m' i = kprod m i \<and> kcons m' i = kcons m i \<and>
     (\<forall>x. load_bytes m' (slot_addr sz i x) sz = load_bytes m (slot_addr sz i x) sz)"

definition ring_regions :: "nat \<Rightarrow> XskRing \<Rightarrow> region list" where
  "ring_regions sz i = [(producer i, 4), (consumer i, 4), slots_region sz i]"

definition rings_apart :: "nat \<Rightarrow> XskRing \<Rightarrow> nat \<Rightarrow> XskRing \<Rightarrow> bool" where
  "rings_apart sz i sz' j \<longleftrightarrow>
     list_all (\<lambda>A. list_all (apart A) (ring_regions sz' j)) (ring_regions sz i)"

lemma rings_apartD:
  assumes "rings_apart sz i sz' j" and "A \<in> set (ring_regions sz i)" and "B \<in> set (ring_regions sz' j)"
  shows "apart A B"
  using assms by (auto simp: rings_apart_def list_all_iff)

lemma rings_apart_sym: "rings_apart sz i sz' j \<Longrightarrow> rings_apart sz' j sz i"
  by (auto simp: rings_apart_def list_all_iff intro: apart_sym)

lemma same_ring_refl [simp]: "same_ring sz i m m"
  by (simp add: same_ring_def)

lemma same_ring_trans: "same_ring sz i m m' \<Longrightarrow> same_ring sz i m' m'' \<Longrightarrow> same_ring sz i m m''"
  by (simp add: same_ring_def)

lemma same_ring_view [simp]:
  "same_ring sz (i\<lparr>cached_producer := a\<rparr>) = same_ring sz i"
  "same_ring sz (i\<lparr>cached_consumer := a\<rparr>) = same_ring sz i"
  by (simp_all add: same_ring_def slot_addr_def fun_eq_iff)

lemma same_ring_in_flight: "same_ring sz i m m' \<Longrightarrow> in_flight m' i = in_flight m i"
  by (simp add: same_ring_def in_flight_def)

lemma same_ring_queue:
  assumes "same_ring sz i m m'"
  shows "queue dec sz m' i = queue dec sz m i"
  using same_ring_in_flight[OF assms] assms by (simp add: queue_def items_def slot_at_def same_ring_def)

lemma same_ring_prod_inv: "same_ring sz i m m' \<Longrightarrow> prod_inv m' i = prod_inv m i"
  by (rule prod_inv_heads) (simp_all add: same_ring_def)

lemma same_ring_cons_inv: "same_ring sz i m m' \<Longrightarrow> cons_inv m' i = cons_inv m i"
  by (simp add: cons_inv_def same_ring_def)

text \<open>What the kernel does, chained with what user space does elsewhere.\<close>

lemma prod_rely_trans:
  assumes "prod_rely sz i m m'" and "prod_rely sz i m' m''"
  shows "prod_rely sz i m m''"
proof -
  let ?d = "cdist (kcons m i) (kcons m' i)" and ?e = "cdist (kcons m' i) (kcons m'' i)"
  have d: "?d \<le> cdist (kcons m i) (kprod m i)" and e: "?e \<le> cdist (kcons m' i) (kprod m i)"
    using assms by (simp_all add: prod_rely_def in_flight_def)
  have sum: "?d + ?e \<le> cdist (kcons m i) (kprod m i)"
    using cdist_diff[OF d] d e by simp
  have "kcons m'' i = kcons m' i + (kcons m'' i - kcons m' i)" by simp
  then have "cdist (kcons m i) (kcons m'' i) = ?d + ?e"
    using cdist_add[of "kcons m i" "kcons m' i" "kcons m'' i - kcons m' i"] sum cdist_bound[of "kcons m i" "kprod m i"]
    by (simp add: cdist_def)
  with sum assms show ?thesis by (simp add: prod_rely_def in_flight_def)
qed

lemma prod_rely_same_ring: "same_ring sz i m m' \<Longrightarrow> prod_rely sz i m m'"
  by (simp add: prod_rely_def same_ring_def)

lemma cons_rely_trans: "cons_rely sz i m m' \<Longrightarrow> cons_rely sz i m' m'' \<Longrightarrow> cons_rely sz i m m''"
  by (auto simp: cons_rely_def)

lemma cons_rely_same_ring:
  assumes "same_ring sz i m m'" and "in_flight m i \<le> nslots i"
  shows "cons_rely sz i m m'"
  using same_ring_in_flight[OF assms(1)] assms by (simp add: cons_rely_def same_ring_def)

text \<open>A store into a region of one ring leaves the other ring as it is.\<close>

lemma store_same_ring:
  assumes "ring_wf i" and "ring_layout sz i" and "rings_apart sz i sz' j"
    and "within (a, length bs) B" and "fits B" and "B \<in> set (ring_regions sz' j)"
  shows "same_ring sz i m (store_bytes m a bs)"
proof -
  have f: "fits (a, length bs)" using fits_within[OF assms(5,4)] .
  have away: "apart A (a, length bs)" if "A \<in> set (ring_regions sz i)" for A
    using apart_within[OF rings_apartD[OF assms(3) that assms(6)] within_refl assms(4)] .
  have slot: "apart (slot_addr sz i x, sz) (a, length bs)" for x
    using apart_within[OF away slot_within[OF assms(1) ring_layoutD(4)[OF assms(2)]] within_refl, of x]
    by (simp add: ring_regions_def)
  have "fits (slot_addr sz i x, sz)" for x
    using slot_fits[OF assms(1) ring_layoutD(4)[OF assms(2)]] .
  with slot f away ring_layoutD(1,2)[OF assms(2)] show ?thesis
    by (simp add: same_ring_def ring_regions_def load_u32_store_bytes load_store_apart)
qed

lemma store_head_same_ring:
  assumes "ring_wf i" and "ring_layout sz i" and "rings_apart sz i sz' j" and "ring_layout sz' j"
    and "a = producer j \<or> a = consumer j"
  shows "same_ring sz i m (store_u32 m a v)"
  using store_same_ring[OF assms(1-3), of a "enc_u32 v" "(a, 4)" m] ring_layoutD(1,2)[OF assms(4)] assms(5)
  by (auto simp: store_u32_def ring_regions_def)

context slot_data begin

lemma write_run_heads:
  assumes "ring_wf i" and "ring_layout sz i"
  shows "load_u32 (write_run enc (slot_addr sz i) m b xs) (producer i) = load_u32 m (producer i) \<and>
    load_u32 (write_run enc (slot_addr sz i) m b xs) (consumer i) = load_u32 m (consumer i)"
  by (induction xs arbitrary: m b) (simp_all add: head_write[OF assms])

lemma write_run_same_ring:
  assumes "ring_wf i" and "ring_layout sz' i" and "rings_apart sz' i sz j"
    and "ring_wf j" and "ring_layout sz j"
  shows "same_ring sz' i m (write_run enc (slot_addr sz j) m b xs)"
proof (induction xs arbitrary: m b)
  case (Cons x xs)
  have "within (slot_addr sz j b, length (enc x)) (slots_region sz j)"
    using slot_within[OF assms(4) ring_layoutD(4)[OF assms(5)]] by (simp add: length_enc)
  from store_same_ring[OF assms(1-3) this ring_layoutD(4)[OF assms(5)]]
  have "same_ring sz' i m (store_bytes m (slot_addr sz j b) (enc x))" by (simp add: ring_regions_def)
  with Cons.IH show ?case by (auto intro: same_ring_trans)
qed simp

end

subsection \<open>The tally\<close>

text \<open>
  Relative to heads \<open>p0\<close> of the transmit ring \<open>i\<close> and \<open>c0\<close> of the completion ring \<open>j\<close>: \<open>s\<close> packets
  were committed and \<open>c\<close> completions reaped; what waits in either ring is accounted for, and
  no packet is completed that the kernel did not take.
\<close>

definition tally :: "XskRing \<Rightarrow> u32 \<Rightarrow> XskRing \<Rightarrow> u32 \<Rightarrow> mem \<Rightarrow> nat \<Rightarrow> nat \<Rightarrow> bool" where
  "tally i p0 j c0 m s c \<longleftrightarrow> cdist p0 (kprod m i) = s \<and> cdist c0 (kcons m j) = c \<and>
     cdist c0 (kprod m j) = c + in_flight m j \<and> c + in_flight m j + in_flight m i \<le> s"

text \<open>
  What the kernel does to both rings: it consumes, produces, and completes no more than it took.
\<close>

definition kernel_env :: "XskRing \<Rightarrow> u32 \<Rightarrow> XskRing \<Rightarrow> u32 \<Rightarrow> env \<Rightarrow> bool" where
  "kernel_env i p0 j c0 env \<longleftrightarrow> env_ok_prod 16 i env \<and> env_ok_cons 8 j env \<and>
     (\<forall>m s c. tally i p0 j c0 m s c \<and> in_flight m j \<le> nslots j \<longrightarrow>
        c + in_flight (env m) j + in_flight (env m) i \<le> s)"

lemma tally_view [simp]:
  "tally (i\<lparr>cached_producer := a\<rparr>) = tally i" "tally (i\<lparr>cached_consumer := a\<rparr>) = tally i"
  "tally i p0 (j\<lparr>cached_producer := a\<rparr>) = tally i p0 j" "tally i p0 (j\<lparr>cached_consumer := a\<rparr>) = tally i p0 j"
  by (simp_all add: tally_def fun_eq_iff)

lemma tally_le: "tally i p0 j c0 m s c \<Longrightarrow> c \<le> s \<and> s < 2 ^ 32"
  using cdist_bound[of p0 "kprod m i"] by (auto simp: tally_def)

lemma tally_heads:
  "tally i p0 j c0 m s c \<Longrightarrow> kprod m' i = kprod m i \<Longrightarrow> kcons m' i = kcons m i \<Longrightarrow>
    same_ring sz j m m' \<Longrightarrow> tally i p0 j c0 m' s c"
  by (simp add: tally_def in_flight_def same_ring_def)

lemma kernel_envD:
  assumes "kernel_env i p0 j c0 env"
  shows "prod_rely 16 i m (env m)" and "in_flight m j \<le> nslots j \<Longrightarrow> cons_rely 8 j m (env m)"
  using assms by (simp_all add: kernel_env_def env_ok_prod_def env_ok_cons_def)

lemma prod_rely_in_flight:
  assumes "prod_rely sz i m m'"
  shows "in_flight m' i \<le> in_flight m i"
proof -
  have "cdist (kcons m i) (kcons m' i) \<le> cdist (kcons m i) (kprod m i)"
    using assms by (simp add: prod_rely_def in_flight_def)
  from cdist_diff[OF this] assms show ?thesis by (simp add: prod_rely_def in_flight_def)
qed

lemma tally_env:
  assumes "tally i p0 j c0 m s c" and "kernel_env i p0 j c0 env" and "in_flight m j \<le> nslots j"
  shows "tally i p0 j c0 (env m) s c"
proof -
  note pr = kernel_envD(1)[OF assms(2), of m] and cr = kernel_envD(2)[OF assms(2,3)]
  have law: "c + in_flight (env m) j + in_flight (env m) i \<le> s"
    using assms by (auto simp: kernel_env_def)
  have heads: "kprod (env m) i = kprod m i" "kcons (env m) j = kcons m j"
    using pr cr by (simp_all add: prod_rely_def cons_rely_def)
  have "kprod (env m) j = kcons m j + of_nat (in_flight (env m) j)"
    using kcons_in_flight[of "env m" j] heads(2) by simp
  moreover have "unat (of_nat (in_flight (env m) j) :: u32) = in_flight (env m) j"
    using cdist_bound by (simp add: in_flight_def unat_of_nat)
  moreover have "cdist c0 (kcons m j) + in_flight (env m) j < 2 ^ 32"
    using law assms(1) tally_le[OF assms(1)] by (simp add: tally_def)
  ultimately have "cdist c0 (kprod (env m) j) = c + in_flight (env m) j"
    using cdist_add[of c0 "kcons m j" "of_nat (in_flight (env m) j)"] assms(1) by (simp add: tally_def)
  with law heads assms(1) show ?thesis by (simp add: tally_def)
qed

text \<open>Committing \<open>n\<close> packets, where there is room for them.\<close>

lemma in_flight_commit:
  assumes "in_flight m i + unat n < 2 ^ 32" and "ring_layout sz i"
  shows "in_flight (store_u32 m (producer i) (kprod m i + n)) i = in_flight m i + unat n"
    and "kprod (store_u32 m (producer i) (kprod m i + n)) i = kprod m i + n"
    and "kcons (store_u32 m (producer i) (kprod m i + n)) i = kcons m i"
proof -
  show k: "kcons (store_u32 m (producer i) (kprod m i + n)) i = kcons m i"
    using ring_layoutD[OF assms(2)] by (simp add: load_u32_store_u32)
  show "in_flight (store_u32 m (producer i) (kprod m i + n)) i = in_flight m i + unat n"
    using cdist_add[of "kcons m i" "kprod m i" n] assms(1) k by (simp add: in_flight_def)
qed simp

lemma tally_commit:
  assumes "tally i p0 j c0 m s c" and "s + unat n < 2 ^ 32" and "ring_layout 16 i"
    and "same_ring 8 j m (store_u32 m (producer i) (kprod m i + n))"
  shows "tally i p0 j c0 (store_u32 m (producer i) (kprod m i + n)) (s + unat n) c"
proof -
  have "in_flight m i + unat n < 2 ^ 32" using assms(1,2) by (simp add: tally_def)
  note f = in_flight_commit[OF this assms(3)]
  have "cdist p0 (kprod m i + n) = s + unat n"
    using cdist_add[of p0 "kprod m i" n] assms(1,2) by (simp add: tally_def)
  with f assms(1,4) same_ring_in_flight[OF assms(4)] show ?thesis
    by (simp add: tally_def same_ring_def)
qed

text \<open>Reaping \<open>n\<close> completions that are there.\<close>

lemma tally_reap:
  assumes "tally i p0 j c0 m s c" and "unat n \<le> in_flight m j" and "ring_layout 8 j"
    and "same_ring 16 i m (store_u32 m (consumer j) (kcons m j + n))"
  shows "tally i p0 j c0 (store_u32 m (consumer j) (kcons m j + n)) s (c + unat n)"
    and "in_flight (store_u32 m (consumer j) (kcons m j + n)) j = in_flight m j - unat n"
proof -
  let ?m = "store_u32 m (consumer j) (kcons m j + n)"
  have k: "kprod ?m j = kprod m j"
    using ring_layoutD[OF assms(3)] by (simp add: load_u32_store_u32)
  have "cdist (kcons m j) (kcons m j + n) \<le> cdist (kcons m j) (kprod m j)"
    using assms(2) by (simp add: in_flight_def)
  from cdist_diff[OF this] k show fl: "in_flight ?m j = in_flight m j - unat n"
    by (simp add: in_flight_def)
  have "cdist c0 (kcons m j) + unat n < 2 ^ 32"
    using assms(1,2) tally_le[OF assms(1)] by (simp add: tally_def)
  from cdist_add[OF this] assms(1) have "cdist c0 (kcons m j + n) = c + unat n" by (simp add: tally_def)
  with fl k assms(1,2,4) same_ring_in_flight[OF assms(4)]
  show "tally i p0 j c0 ?m s (c + unat n)" by (simp add: tally_def same_ring_def)
qed

subsection \<open>A kernel that keeps the law\<close>

text \<open>
  It takes one packet if one waits, and completes one if it owes a completion and there is room.
\<close>

definition kernel_take :: "XskRing \<Rightarrow> mem \<Rightarrow> mem" where
  "kernel_take i m = (if 0 < in_flight m i then kernel_consume i m else m)"

definition kernel_complete :: "XskRing \<Rightarrow> u32 \<Rightarrow> XskRing \<Rightarrow> u32 \<Rightarrow> mem \<Rightarrow> mem" where
  "kernel_complete i p0 j c0 m =
     (if in_flight m j < nslots j \<and> cdist c0 (kprod m j) + in_flight m i < cdist p0 (kprod m i)
      then kernel_produce enc_u64 8 j 0 m else m)"

definition kernel_pass :: "XskRing \<Rightarrow> u32 \<Rightarrow> XskRing \<Rightarrow> u32 \<Rightarrow> env" where
  "kernel_pass i p0 j c0 m = kernel_complete i p0 j c0 (kernel_take i m)"

definition ring_pair :: "XskRing \<Rightarrow> XskRing \<Rightarrow> bool" where
  "ring_pair i j \<longleftrightarrow> ring_wf i \<and> ring_wf j \<and> ring_layout 16 i \<and> ring_layout 8 j \<and> rings_apart 16 i 8 j"

lemma ring_pairD:
  assumes "ring_pair i j"
  shows "ring_wf i" "ring_wf j" "ring_layout 16 i" "ring_layout 8 j" "rings_apart 16 i 8 j"
    "rings_apart 8 j 16 i"
  using assms rings_apart_sym by (auto simp: ring_pair_def)

lemma take_law:
  assumes "ring_pair i j"
  shows "prod_rely 16 i m (kernel_take i m)" and "same_ring 8 j m (kernel_take i m)"
    and "in_flight (kernel_take i m) i = in_flight m i - 1"
proof -
  show "prod_rely 16 i m (kernel_take i m)"
    using kernel_consume_rely[OF ring_pairD(1)[OF assms(1)] ring_pairD(3)[OF assms(1)]] prod_rely_same_ring[of 16 i m m]
    by (simp add: kernel_take_def)
  have "same_ring 8 j m (kernel_consume i m)"
    unfolding kernel_consume_def by (rule store_head_same_ring[OF ring_pairD(2)[OF assms(1)] ring_pairD(4)[OF assms(1)] ring_pairD(6)[OF assms(1)] ring_pairD(3)[OF assms(1)]]) simp
  then show "same_ring 8 j m (kernel_take i m)" by (simp add: kernel_take_def)
  show "in_flight (kernel_take i m) i = in_flight m i - 1"
    using kernel_consume_queue(2)[OF ring_pairD(1)[OF assms(1)] ring_pairD(3)[OF assms(1)]] by (simp add: kernel_take_def)
qed

lemma complete_law:
  assumes "ring_pair i j"
  shows "same_ring 16 i m (kernel_complete i p0 j c0 m)"
    and "in_flight m j \<le> nslots j \<Longrightarrow> cons_rely 8 j m (kernel_complete i p0 j c0 m)"
    and "in_flight (kernel_complete i p0 j c0 m) j =
      (if in_flight m j < nslots j \<and> cdist c0 (kprod m j) + in_flight m i < cdist p0 (kprod m i)
       then Suc (in_flight m j) else in_flight m j)"
proof -
  have "same_ring 16 i m (store_bytes m (slot_addr 8 j (kprod m j)) (enc_u64 0))"
    using slot_within[OF ring_pairD(2)[OF assms(1)] ring_layoutD(4)[OF ring_pairD(4)[OF assms(1)]]]
    by (intro store_same_ring[OF ring_pairD(1)[OF assms(1)] ring_pairD(3)[OF assms(1)] ring_pairD(5)[OF assms(1)], of _ _ "slots_region 8 j"])
      (simp_all add: ring_regions_def ring_layoutD(4)[OF ring_pairD(4)[OF assms(1)]])
  moreover have "same_ring 16 i x (store_u32 x (producer j) v)" for x v
    by (rule store_head_same_ring[OF ring_pairD(1)[OF assms(1)] ring_pairD(3)[OF assms(1)] ring_pairD(5)[OF assms(1)] ring_pairD(4)[OF assms(1)]]) simp
  ultimately have "same_ring 16 i m (kernel_produce enc_u64 8 j 0 m)"
    unfolding kernel_produce_def by (rule same_ring_trans)
  then show "same_ring 16 i m (kernel_complete i p0 j c0 m)" by (simp add: kernel_complete_def)
  show "in_flight m j \<le> nslots j \<Longrightarrow> cons_rely 8 j m (kernel_complete i p0 j c0 m)"
    using u64_slot.kernel_produce_rely[OF ring_pairD(2)[OF assms(1)] ring_pairD(4)[OF assms(1)]] cons_rely_same_ring[OF same_ring_refl]
    by (simp add: kernel_complete_def)
  show "in_flight (kernel_complete i p0 j c0 m) j =
      (if in_flight m j < nslots j \<and> cdist c0 (kprod m j) + in_flight m i < cdist p0 (kprod m i)
       then Suc (in_flight m j) else in_flight m j)"
    using u64_slot.kernel_produce_queue(1)[OF ring_pairD(2)[OF assms(1)] ring_pairD(4)[OF assms(1)]] by (simp add: kernel_complete_def)
qed

lemma pass_rely:
  assumes "ring_pair i j"
  shows "prod_rely 16 i m (kernel_pass i p0 j c0 m)"
    and "in_flight m j \<le> nslots j \<Longrightarrow> cons_rely 8 j m (kernel_pass i p0 j c0 m)"
proof -
  let ?m = "kernel_take i m"
  show "prod_rely 16 i m (kernel_pass i p0 j c0 m)"
    unfolding kernel_pass_def
    using take_law(1)[OF assms(1)] prod_rely_same_ring[OF complete_law(1)[OF assms(1)]] by (rule prod_rely_trans)
  assume "in_flight m j \<le> nslots j"
  then show "cons_rely 8 j m (kernel_pass i p0 j c0 m)"
    unfolding kernel_pass_def using same_ring_in_flight[OF take_law(2)[OF assms(1)], of m]
    by (intro cons_rely_trans[OF cons_rely_same_ring[OF take_law(2)[OF assms(1)]] complete_law(2)[OF assms(1)]]) simp_all
qed

lemma pass_in_flight:
  assumes "ring_pair i j" and "tally i p0 j c0 m s c" and "in_flight m j \<le> nslots j"
  shows "in_flight (kernel_pass i p0 j c0 m) i = in_flight m i - 1"
    and "in_flight (kernel_pass i p0 j c0 m) j =
      (if in_flight m j < nslots j \<and> c + in_flight m j + (in_flight m i - 1) < s
       then Suc (in_flight m j) else in_flight m j)"
proof -
  let ?m = "kernel_take i m"
  note t = take_law(3)[OF assms(1), of m] same_ring_in_flight[OF take_law(2)[OF assms(1)], of m]
  have heads: "kprod ?m i = kprod m i" "kprod ?m j = kprod m j"
    using take_law(1,2)[OF assms(1), of m] by (simp_all add: prod_rely_def same_ring_def)
  show "in_flight (kernel_pass i p0 j c0 m) i = in_flight m i - 1"
    using same_ring_in_flight[OF complete_law(1)[OF assms(1)]] t by (simp add: kernel_pass_def)
  show "in_flight (kernel_pass i p0 j c0 m) j =
      (if in_flight m j < nslots j \<and> c + in_flight m j + (in_flight m i - 1) < s
       then Suc (in_flight m j) else in_flight m j)"
    using complete_law(3)[OF assms(1), of p0 c0 ?m] t heads assms(2) by (simp add: kernel_pass_def tally_def)
qed

lemma kernel_pass_env:
  assumes "ring_pair i j"
  shows "kernel_env i p0 j c0 (kernel_pass i p0 j c0)"
proof -
  have "c + in_flight (kernel_pass i p0 j c0 m) j + in_flight (kernel_pass i p0 j c0 m) i \<le> s"
    if "tally i p0 j c0 m s c" "in_flight m j \<le> nslots j" for m s c
    using pass_in_flight[OF assms that] that(1) by (auto simp: tally_def)
  with pass_rely[OF assms] show ?thesis by (simp add: kernel_env_def env_ok_prod_def env_ok_cons_def)
qed

lemma kernel_pass_prompt:
  assumes "ring_pair i j" and "tally i p0 j c0 m s c" and "c < s" and "in_flight m j = 0"
  shows "0 < in_flight (kernel_pass i p0 j c0 m) j"
proof -
  have "c + (in_flight m i - 1) < s" using assms by (cases "in_flight m i") (auto simp: tally_def)
  with pass_in_flight(2)[OF assms(1,2)] assms(4) nslots_bounds(1)[OF ring_pairD(2)[OF assms(1)]] show ?thesis by simp
qed

end
