(* ===== verification/FloodRun.thy ===== *)
theory FloodRun
  imports Flood TwoRings
begin

text \<open>
  The rounds of the client \<open>flood\<close>: one round on a transmit and a completion ring next to the kernel,
  the invariant of the loop, and that the loop ends if the kernel completes what it is given.
\<close>

subsection \<open>Both rings during a round\<close>

definition view_of :: "XskRing \<Rightarrow> XskRing \<Rightarrow> bool" where
  "view_of i i' \<longleftrightarrow> i'\<lparr>cached_consumer := cached_consumer i, cached_producer := cached_producer i\<rparr> = i"

lemma view_of_updates [simp]:
  "view_of i i" "view_of i (i\<lparr>cached_producer := b\<rparr>)" "view_of i (i\<lparr>cached_consumer := a\<rparr>)"
  "view_of i (i\<lparr>cached_producer := b, cached_consumer := a\<rparr>)"
  "view_of i (i\<lparr>cached_consumer := a, cached_producer := b\<rparr>)"
  by (simp_all add: view_of_def)

lemma view_ofE:
  assumes "view_of i i'"
  obtains a b where "i' = i\<lparr>cached_consumer := a, cached_producer := b\<rparr>"
proof
  show "i' = i\<lparr>cached_consumer := cached_consumer i', cached_producer := cached_producer i'\<rparr>"
    unfolding arg_cong[OF assms[unfolded view_of_def], of "\<lambda>x. x\<lparr>cached_consumer := cached_consumer i',
      cached_producer := cached_producer i'\<rparr>", symmetric] by simp
qed

lemma view_of_trans: "view_of i i' \<Longrightarrow> view_of i' i'' \<Longrightarrow> view_of i i''"
  by (elim view_ofE) simp

lemma kernel_env_view [simp]:
  "kernel_env (i\<lparr>cached_producer := a\<rparr>) = kernel_env i" "kernel_env (i\<lparr>cached_consumer := a\<rparr>) = kernel_env i"
  "kernel_env i p0 (j\<lparr>cached_producer := a\<rparr>) = kernel_env i p0 j"
  "kernel_env i p0 (j\<lparr>cached_consumer := a\<rparr>) = kernel_env i p0 j"
  by (simp_all add: kernel_env_def env_ok_prod_def env_ok_cons_def fun_eq_iff)

lemma rings_apart_view [simp]:
  "rings_apart sz (i\<lparr>cached_producer := a\<rparr>) = rings_apart sz i"
  "rings_apart sz (i\<lparr>cached_consumer := a\<rparr>) = rings_apart sz i"
  "rings_apart sz i sz' (j\<lparr>cached_producer := a\<rparr>) = rings_apart sz i sz' j"
  "rings_apart sz i sz' (j\<lparr>cached_consumer := a\<rparr>) = rings_apart sz i sz' j"
  by (simp_all add: rings_apart_def ring_regions_def slots_region_def fun_eq_iff)

text \<open>
  Between operations: both rings in order with nothing reserved or taken, the tally, and only the one
  descriptor waiting for the kernel.
\<close>

definition both_ok :: "u32 \<Rightarrow> u32 \<Rightarrow> XdpDesc \<Rightarrow> mem \<Rightarrow> XskRing \<Rightarrow> XskRing \<Rightarrow> nat \<Rightarrow> nat \<Rightarrow> bool" where
  "both_ok p0 c0 desc m i j s c \<longleftrightarrow>
     prod_inv m i \<and> staged m i = 0 \<and> ring_layout 16 i \<and>
     cons_inv m j \<and> taken m j = 0 \<and> ring_layout 8 j \<and> rings_apart 16 i 8 j \<and>
     tally i p0 j c0 m s c \<and> set (queue dec_desc 16 m i) \<subseteq> {desc}"

lemma both_okD:
  assumes "both_ok p0 c0 desc m i j s c"
  shows "prod_inv m i" "staged m i = 0" "ring_layout 16 i" "cons_inv m j" "taken m j = 0" "ring_layout 8 j"
    "rings_apart 16 i 8 j" "tally i p0 j c0 m s c" "set (queue dec_desc 16 m i) \<subseteq> {desc}"
    "ring_wf i" "ring_wf j" "in_flight m j \<le> nslots j" "avail m j = in_flight m j" "c \<le> s" "s < 2 ^ 32"
proof -
  show *: "prod_inv m i" "staged m i = 0" "ring_layout 16 i" "cons_inv m j" "taken m j = 0" "ring_layout 8 j"
    "rings_apart 16 i 8 j" "tally i p0 j c0 m s c" "set (queue dec_desc 16 m i) \<subseteq> {desc}"
    using assms by (simp_all add: both_ok_def)
  show "ring_wf i" "ring_wf j" using prod_invD(1)[OF *(1)] cons_invD(1)[OF *(4)] .
  show "in_flight m j \<le> nslots j" "avail m j = in_flight m j"
    using cons_inv_split[OF *(4)] *(5) by simp_all
  show "c \<le> s" "s < 2 ^ 32" using tally_le[OF *(8)] by simp_all
qed

lemma both_ok_env:
  assumes "both_ok p0 c0 desc m i j s c" and "kernel_env i p0 j c0 env"
  shows "both_ok p0 c0 desc (env m) i j s c" and "in_flight m j \<le> in_flight (env m) j"
    and "in_flight (env m) i \<le> in_flight m i"
proof -
  note ok = both_okD[OF assms(1)]
  note pr = kernel_envD(1)[OF assms(2), of m] and cr = kernel_envD(2)[OF assms(2) ok(12)]
  have "staged (env m) i = 0" "taken (env m) j = 0"
    using pr cr ok(2,5) by (simp_all add: staged_def taken_def prod_rely_def cons_rely_def)
  moreover have "set (queue dec_desc 16 (env m) i) \<subseteq> {desc}"
    using prod_rely_queue[OF pr, of dec_desc] ok(9) by (metis order.trans set_drop_subset)
  ultimately show "both_ok p0 c0 desc (env m) i j s c"
    using prod_inv_rely[OF ok(1) pr] cons_inv_rely[OF ok(4) cr] tally_env[OF ok(8) assms(2) ok(12)] ok
    by (simp add: both_ok_def)
  show "in_flight m j \<le> in_flight (env m) j" using cr by (simp add: cons_rely_def)
  show "in_flight (env m) i \<le> in_flight m i" by (rule prod_rely_in_flight[OF pr])
qed

subsection \<open>The sending scope\<close>

lemma flood_send_block:
  "flood_send Release env m tx n desc =
    rbind (send_block Release env m tx n (replicate (Suc (unat n)) desc)) (\<lambda>(sent, rest, tx1, m1).
      Inr (sent, tx1, m1))"
proof (cases "RingTx_transmit Release m tx n")
  case (Inl e)
  then show ?thesis by (simp add: flood_send_def send_block_def)
next
  case (Inr w)
  then obtain q where "BufIdxIter_reserve Release m (tx_ring tx) n = Inr (wt_idx w, q)"
    by (auto simp: RingTx_transmit_def res_simps)
  then have "unat (it_remain (wt_idx w)) < Suc (unat n)"
    using reserve_cursor(1,2) by (fastforce simp: word_le_nat_alt)
  from WriteTx_insert_from_repeat[OF this, of m desc] Inr show ?thesis
    by (simp add: flood_send_def send_block_def rbind_def split: prod.splits sum.splits)
qed

text \<open>A commit on the transmit ring, next to a completion ring in order.\<close>

lemma submit_tally:
  assumes t: "tally i p0 j c0 m s c" and env: "kernel_env i p0 j c0 env" and fl: "in_flight m j \<le> nslots j"
    and wf: "ring_wf j" and lay: "ring_layout 16 i" "ring_layout 8 j" "rings_apart 16 i 8 j"
    and small: "s + unat k < 2 ^ 32" and prod: "producer (prod_inner q) = producer i"
  shows "tally i p0 j c0 (submit env m k q) (s + unat k) c" and "cons_rely 8 j m (submit env m k q)"
proof -
  let ?e = "env m" and ?m2 = "submit env m k q"
  have m2: "?m2 = store_u32 ?e (producer i) (kprod ?e i + k)"
    using kernel_envD(1)[OF env, of m] prod by (simp add: submit_def Let_def prod_rely_def)
  have st: "same_ring 8 j ?e ?m2"
    unfolding m2 by (rule store_head_same_ring[OF wf lay(2) rings_apart_sym[OF lay(3)] lay(1)]) simp
  with tally_commit[OF tally_env[OF t env fl] small lay(1)] m2
  show "tally i p0 j c0 ?m2 (s + unat k) c" by simp
  have rely: "cons_rely 8 j m ?e" by (rule kernel_envD(2)[OF env fl])
  then have "in_flight ?e j \<le> nslots j" by (simp add: cons_rely_def)
  with cons_rely_same_ring[OF st] rely show "cons_rely 8 j m ?m2" by (blast intro: cons_rely_trans)
qed

lemma flood_send_ok:
  assumes ok: "both_ok p0 c0 desc m (prod_inner (tx_ring tx)) j s c"
    and env: "kernel_env (prod_inner (tx_ring tx)) p0 j c0 env" and small: "s + unat n < 2 ^ 32"
  obtains sent tx' m2 where "flood_send Release env m tx n desc = Inr (sent, tx', m2)"
    and "sent \<le> n" and "free_slots m (prod_inner (tx_ring tx)) = 0 \<or> n = 0 \<or> sent \<noteq> 0"
    and "both_ok p0 c0 desc m2 (prod_inner (tx_ring tx')) j (s + unat sent) c"
    and "view_of (prod_inner (tx_ring tx)) (prod_inner (tx_ring tx'))"
    and "in_flight m j \<le> in_flight m2 j"
proof -
  let ?i = "prod_inner (tx_ring tx)"
  obtain xs where xs: "xs = replicate (Suc (unat n)) desc" by blast
  note d = both_okD[OF ok]
  have envp: "env_ok_prod 16 ?i env" using env by (simp add: kernel_env_def)
  obtain it q sent it1 m1 it2 m2 i' where run: "BufIdxIter_reserve Release m (tx_ring tx) n = Inr (it, q)"
      "insert_loop enc_desc (slot_addr 16 (prod_inner q)) m it 0 xs =
        (sent, drop (Suc (unat sent)) xs, it1, m1)"
      "commit_prod Release env m1 it1 q = (Inr it2, m2)"
      "i' = (prod_inner q)\<lparr>cached_producer := cached_producer (prod_inner q) - it_buffers it2\<rparr>"
    and res: "sent \<le> n" "0 < free_slots m ?i \<longrightarrow> n = 0 \<or> xs = [] \<or> sent \<noteq> 0" "prod_inv m2 i'" "staged m2 i' = 0"
      "queue dec_desc 16 m2 i' = drop (cdist (kcons m ?i) (kcons m2 ?i)) (queue dec_desc 16 m ?i) @
        take (unat sent) xs"
      "\<exists>a b. i' = ?i\<lparr>cached_consumer := a, cached_producer := b\<rparr>"
    by (rule desc_slot.prod_batch[of m "tx_ring tx" env n xs, OF d(1,3,2) envp])
  have eq: "flood_send Release env m tx n desc = Inr (sent, tx\<lparr>tx_ring := q\<lparr>prod_inner := i'\<rparr>\<rparr>, m2)"
    unfolding flood_send_block xs[symmetric]
    using run by (simp add: send_block_def RingTx_transmit_def WriteTx_insert_def
        WriteTx_commit_def WriteTx_drop_def tx_desc_eq[abs_def])
  have view: "view_of ?i i'" using res(6) by auto
  have "view_of ?i (prod_inner q)"
    by (rule reserve_cursor_inv[OF d(1), of n]) (auto simp: run(1))
  then have vq: "slot_addr 16 (prod_inner q) = slot_addr 16 ?i" "producer (prod_inner q) = producer ?i"
    by (auto elim: view_ofE simp: fun_eq_iff)
  let ?u = "used it xs"
  have m1: "m1 = write_run enc_desc (slot_addr 16 ?i) m (it_base it) (take ?u xs)"
    and it1: "it1 = moved it ?u" and sent: "sent = of_nat ?u"
    using run(2) vq by (simp_all add: insert_loop_eq)
  have same: "same_ring 8 j m m1"
    using desc_slot.write_run_same_ring[OF d(11,6) rings_apart_sym[OF d(7)] d(10,3)] m1 by simp
  have tally1: "tally ?i p0 j c0 m1 s c"
    using tally_heads[OF d(8) _ _ same] desc_slot.write_run_heads[OF d(10,3)] m1 by simp
  have fl: "in_flight m1 j \<le> nslots j" using d(12) same_ring_in_flight[OF same] by simp
  have "tally ?i p0 j c0 m2 (s + unat sent) c \<and> cons_rely 8 j m m2"
  proof (cases "it_buffers it = 0")
    case True
    then have "m2 = m1" "sent = 0"
      using run(1,3) reserve_cursor(1)[OF run(1)] it1 sent by (simp_all add: commit_prod_Release used_def)
    with tally1 cons_rely_same_ring[OF same d(12)] show ?thesis by simp
  next
    case False
    have m2: "m2 = submit env m1 sent q"
      using run(3) False it1 sent reserve_cursor(1)[OF run(1)] by (simp add: commit_prod_Release)
    have "s + unat sent < 2 ^ 32" using small res(1) by (simp add: word_le_nat_alt)
    from submit_tally[OF tally1 env fl d(11,3,6,7) this vq(2)] cons_rely_same_ring[OF same d(12)] m2 show ?thesis
      by (blast intro: cons_rely_trans)
  qed
  moreover have "set (queue dec_desc 16 m2 i') \<subseteq> {desc}"
    using d(9) set_drop_subset[of _ "queue dec_desc 16 m ?i"] by (auto simp: res(5) xs dest!: in_set_takeD)
  ultimately have "both_ok p0 c0 desc m2 i' j (s + unat sent) c" and "in_flight m j \<le> in_flight m2 j"
    using d res(3,4,6) cons_inv_rely[OF d(4)] by (auto simp: both_ok_def taken_def cons_rely_def)
  with eq res(1,2) view xs show thesis
    by (intro that[of sent "tx\<lparr>tx_ring := q\<lparr>prod_inner := i'\<rparr>\<rparr>" m2]) auto
qed

subsection \<open>The reaping scope\<close>

lemma count_reads_eq:
  "count_reads Release m w n =
    Inr (n + it_remain (rc_idx w), w\<lparr>rc_idx := moved (rc_idx w) (unat (it_remain (rc_idx w)))\<rparr>)"
proof (induction "Release :: profile" m w n rule: count_reads.induct)
  case (1 m w n)
  show ?case
  proof (cases "it_remain (rc_idx w) = 0")
    case True
    then show ?thesis by (simp add: count_reads.simps ReadComplete_read_def)
  next
    case False
    let ?it = "(rc_idx w)\<lparr>it_remain := it_remain (rc_idx w) - 1, it_base := it_base (rc_idx w) + 1\<rparr>"
    let ?x = "dec_u64 (load_bytes m (comp_addr (rc_queue w) (it_base (rc_idx w))) 8)"
    have read: "ReadComplete_read m w = (Some ?x, w\<lparr>rc_idx := ?it\<rparr>)"
      using False by (simp add: ReadComplete_read_def)
    obtain k where k: "unat (it_remain (rc_idx w)) = Suc k" "unat (it_remain (rc_idx w) - 1) = k"
      "moved ?it k = moved (rc_idx w) (Suc k)"
      using moved_step[OF False] by auto
    show ?thesis
      using 1[OF read[symmetric] refl] k by (subst count_reads.simps) (simp add: read)
  qed
qed

text \<open>A release on the completion ring, next to a transmit ring in order.\<close>

lemma release_tally:
  assumes t: "tally i p0 j c0 m s c" and env: "kernel_env i p0 j c0 env" and fl: "in_flight m j \<le> nslots j"
    and wf: "ring_wf i" and lay: "ring_layout 16 i" "ring_layout 8 j" "rings_apart 16 i 8 j"
    and k: "unat k \<le> in_flight m j" and cons: "consumer (cons_inner q) = consumer j"
  shows "tally i p0 j c0 (release env m k q) s (c + unat k)" and "prod_rely 16 i m (release env m k q)"
proof -
  let ?e = "env m" and ?m2 = "release env m k q"
  note rely = kernel_envD(2)[OF env fl]
  have m2: "?m2 = store_u32 ?e (consumer j) (kcons ?e j + k)"
    using rely cons by (simp add: release_def Let_def cons_rely_def)
  have st: "same_ring 16 i ?e ?m2"
    unfolding m2 by (rule store_head_same_ring[OF wf lay(1,3,2)]) simp
  have "unat k \<le> in_flight ?e j" using k rely by (simp add: cons_rely_def)
  from tally_reap(1)[OF tally_env[OF t env fl] this lay(2)] st m2
  show "tally i p0 j c0 ?m2 s (c + unat k)" by simp
  show "prod_rely 16 i m ?m2"
    using prod_rely_same_ring[OF st] kernel_envD(1)[OF env, of m] by (blast intro: prod_rely_trans)
qed

lemma flood_reap_ok:
  assumes ok: "both_ok p0 c0 desc m i (cons_inner (fcq_cons (dq_fcq dq))) s c"
    and env: "kernel_env i p0 (cons_inner (fcq_cons (dq_fcq dq))) c0 env"
    and env': "kernel_env i p0 (cons_inner (fcq_cons (dq_fcq dq))) c0 env'"
  obtains comp dq' m2 where "flood_reap Release env env' m dq n = Inr (comp, dq', m2)"
    and "comp \<le> n" and "in_flight m (cons_inner (fcq_cons (dq_fcq dq))) = 0 \<or> n = 0 \<or> comp \<noteq> 0"
    and "both_ok p0 c0 desc m2 i (cons_inner (fcq_cons (dq_fcq dq'))) s (c + unat comp)"
    and "view_of (cons_inner (fcq_cons (dq_fcq dq))) (cons_inner (fcq_cons (dq_fcq dq')))"
    and "prod_rely 16 i m m2"
proof -
  let ?j = "cons_inner (fcq_cons (dq_fcq dq))"
  note d = both_okD[OF ok]
  have envc: "env_ok_cons 8 ?j env" "env_ok_cons 8 ?j env'" using env env' by (simp_all add: kernel_env_def)
  obtain it q m1 it2 m2 j' where run: "BufIdxIter_peek Release env m (fcq_cons (dq_fcq dq)) n = Inr (it, q, m1)"
      "release_cons Release env' m1 (moved it (unat (it_remain it))) q = (Inr it2, m2)"
      "it_buffers it2 = 0" "cons_inner q = j'"
    and res: "unat (it_remain it) \<le> avail m ?j" "0 < avail m ?j \<longrightarrow> n = 0 \<or> it_remain it \<noteq> 0"
      "cons_inv m2 j'" "taken m2 j' = 0"
    by (rule cons_batch[where dec = dec_u64 and env = env and env' = env' and ?q0.0 = "fcq_cons (dq_fcq dq)" and n = n,
        OF d(4,6,5) envc])
  let ?k = "it_remain it" and ?dq = "dq\<lparr>dq_fcq := (dq_fcq dq)\<lparr>fcq_cons := q\<rparr>\<rparr>"
  note cur = peek_cursor[OF run(1)]
  have eq: "flood_reap Release env env' m dq n = Inr (?k, ?dq, m2)"
    using run by (simp add: flood_reap_def DeviceQueue_complete_def count_reads_eq ReadComplete_release_def
        ReadComplete_drop_def)
  have view: "view_of ?j j'"
    by (rule peek_cursor_inv[of m "fcq_cons (dq_fcq dq)" 8 env n, OF d(4) kernel_envD(2)[OF env d(12)]])
      (auto simp: run(1) simp flip: run(4))
  then have vq: "ring_layout 8 j' = ring_layout 8 ?j" "consumer j' = consumer ?j" by (auto elim: view_ofE)
  have m1: "tally i p0 ?j c0 m1 s c \<and> prod_rely 16 i m m1 \<and> cons_rely 8 ?j m m1"
    using cur(4) tally_env[OF d(8) env d(12)] d(8) kernel_envD[OF env, of m] d(12)
      cons_rely_refl[OF d(4)] prod_rely_same_ring[of 16 i m m] by auto
  then have fl: "in_flight m ?j \<le> in_flight m1 ?j" "in_flight m1 ?j \<le> nslots ?j" by (simp_all add: cons_rely_def)
  have "tally i p0 ?j c0 m2 s (c + unat ?k) \<and> prod_rely 16 i m m2"
  proof (cases "it_buffers it = 0")
    case True
    then have "m2 = m1" using run(2) by (simp add: release_cons_Release)
    with m1 True cur(1) show ?thesis by simp
  next
    case False
    have m2: "m2 = release env' m1 ?k q"
      using run(2) False cur(1) by (simp add: release_cons_Release)
    have "unat ?k \<le> in_flight m1 ?j" using res(1) d(13) fl(1) by simp
    moreover have "consumer (cons_inner q) = consumer ?j" using vq run(4) by simp
    ultimately show ?thesis
      using release_tally[OF conjunct1[OF m1] env' fl(2) d(10,3,6,7)] m1 m2 by (blast intro: prod_rely_trans)
  qed
  then have t: "tally i p0 ?j c0 m2 s (c + unat ?k)" and pr: "prod_rely 16 i m m2" by simp_all
  have "set (queue dec_desc 16 m2 i) \<subseteq> {desc}"
    using prod_rely_queue[OF pr, of dec_desc] d(9) by (metis order.trans set_drop_subset)
  moreover have "staged m2 i = 0" using pr d(2) by (simp add: staged_def prod_rely_def)
  ultimately have "both_ok p0 c0 desc m2 i j' s (c + unat ?k)"
    using d t prod_inv_rely[OF d(1) pr] res(3,4) view by (auto simp: both_ok_def elim!: view_ofE)
  with eq cur(1,2) res(2) d(13) view run(4) pr show thesis
    by (intro that[of ?k ?dq m2]) auto
qed

subsection \<open>Statistics\<close>

lemma bit_len_Suc: "n \<noteq> 0 \<Longrightarrow> bit_len n = Suc (bit_len (n div 2))"
  by (simp add: bit_len.simps[of n])

lemma bit_len_upper: "n < 2 ^ bit_len n"
proof (induction n rule: bit_len.induct)
  case (1 n)
  show ?case
  proof (cases "n = 0")
    case False
    with 1 have "n div 2 < 2 ^ bit_len (n div 2)" by simp
    then show ?thesis unfolding bit_len_Suc[OF False] by simp
  qed simp
qed

lemma bit_len_lower: "n \<noteq> 0 \<Longrightarrow> 2 ^ (bit_len n - 1) \<le> n"
proof (induction n rule: bit_len.induct)
  case (1 n)
  show ?case
  proof (cases "n div 2 = 0")
    case True
    with 1(2) have "n = 1" by simp
    then show ?thesis by (simp add: bit_len.simps[of "Suc 0"] bit_len.simps[of 0])
  next
    case False
    with 1 have "2 ^ (bit_len (n div 2) - 1) \<le> n div 2" by simp
    then have "2 ^ bit_len (n div 2) \<le> n div 2 * 2" using bit_len_Suc[OF False] by simp
    then show ?thesis unfolding bit_len_Suc[OF 1(2)] by simp
  qed
qed

lemma bit_len_le:
  assumes "n < 2 ^ k"
  shows "bit_len n \<le> k"
proof (cases "n = 0")
  case False
  from order.strict_trans1[OF bit_len_lower[OF this] assms] have "(2::nat) ^ (bit_len n - 1) < 2 ^ k" .
  then have "bit_len n - 1 < k" by (rule power_less_imp_less_exp[rotated]) simp
  then show ?thesis by simp
qed (simp add: bit_len.simps)

lemma log_index: "unat ((32 :: u64) - ucast (leading_zeros n)) = bit_len (unat n)"
  and log_index_fits: "(ucast (leading_zeros n) :: u64) \<le> 32"
proof -
  have b: "bit_len (unat n) \<le> 32" using unat_u32[of n] by (intro bit_len_le) simp
  have "unat (of_nat (32 - x) :: u32) = 32 - x" for x by (simp only: unat_of_nat) simp
  then have u: "unat (ucast (leading_zeros n) :: u64) = 32 - bit_len (unat n)"
    by (simp only: leading_zeros_def unat_ucast_u64)
  then show le: "(ucast (leading_zeros n) :: u64) \<le> 32" by (simp add: word_le_nat_alt)
  from unat_sub[OF le] u b show "unat ((32 :: u64) - ucast (leading_zeros n)) = bit_len (unat n)" by simp
qed

lemma log_batch_ok:
  assumes "length log = 33"
  shows "log_batch Release n log = Inr (log[bit_len (unat n) := log ! bit_len (unat n) + 1])"
proof -
  have "bit_len (unat n) \<le> 32" using unat_u32[of n] by (intro bit_len_le) simp
  with assms show ?thesis by (simp add: log_batch_def log_index incr_i32_def)
qed

lemma flood_stats_ok:
  assumes "length (fl_tx_log st) = 33" and "length (fl_cq_log st) = 33"
  obtains st' where "flood_stats Release sent_now comp_now st = Inr st'"
    and "fl_mem st' = fl_mem st" and "fl_tx st' = fl_tx st" and "fl_device st' = fl_device st"
    and "fl_sent st' = fl_sent st + sent_now" and "fl_completed st' = fl_completed st + comp_now"
    and "length (fl_tx_log st') = 33" and "length (fl_cq_log st') = 33"
proof -
  let ?stall = "if sent_now = 0 \<and> comp_now = 0 then fl_stall st + 1 else fl_stall st"
  have "(if sent_now = 0 \<and> comp_now = 0 then incr_i32 Release (fl_stall st)
      else Inr (fl_stall st)) = Inr ?stall"
    by (simp add: incr_i32_def)
  with assms that show thesis by (auto simp: flood_stats_def log_batch_ok incr_i32_def)
qed

subsection \<open>One round\<close>

text \<open>
  The kernel is lawful in a round if all it does to the memory is.  It is prompt in a round if, when
  completions are outstanding and none is waiting, it completes one, unless it asked to be woken up
  and was not.
\<close>

definition lawful_round :: "XskRing \<Rightarrow> u32 \<Rightarrow> XskRing \<Rightarrow> u32 \<Rightarrow> kround \<Rightarrow> bool" where
  "lawful_round i p0 j c0 r \<longleftrightarrow> kernel_env i p0 j c0 (kr_start r) \<and> kernel_env i p0 j c0 (kr_submit r) \<and>
     kernel_env i p0 j c0 (kr_flags r) \<and> (\<forall>w. kernel_env i p0 j c0 (kr_wait r w)) \<and>
     kernel_env i p0 j c0 (kr_peek r) \<and> kernel_env i p0 j c0 (kr_release r)"

definition prompt_round :: "XskRing \<Rightarrow> u32 \<Rightarrow> XskRing \<Rightarrow> u32 \<Rightarrow> kround \<Rightarrow> bool" where
  "prompt_round i p0 j c0 r \<longleftrightarrow> (\<forall>m woken s c. tally i p0 j c0 m s c \<and> c < s \<and> in_flight m j = 0 \<and>
     (load_u32 m (flags_ptr i) AND XDP_RING_NEED_WAKEUP \<noteq> 0 \<longrightarrow> woken) \<longrightarrow> 0 < in_flight (kr_wait r woken m) j)"

definition flood_inv :: "XskRing \<Rightarrow> u32 \<Rightarrow> XskRing \<Rightarrow> u32 \<Rightarrow> u32 \<Rightarrow> XdpDesc \<Rightarrow> 'k flood \<Rightarrow> bool" where
  "flood_inv i p0 j c0 tot desc st \<longleftrightarrow>
     view_of i (prod_inner (tx_ring (fl_tx st))) \<and>
     view_of j (cons_inner (fcq_cons (dq_fcq (fl_device st)))) \<and>
     both_ok p0 c0 desc (fl_mem st) (prod_inner (tx_ring (fl_tx st)))
       (cons_inner (fcq_cons (dq_fcq (fl_device st)))) (unat (fl_sent st)) (unat (fl_completed st)) \<and>
     fl_sent st \<le> tot \<and> length (fl_tx_log st) = 33 \<and> length (fl_cq_log st) = 33"

lemma kernel_env_of:
  "view_of i i' \<Longrightarrow> view_of j j' \<Longrightarrow> kernel_env i' p0 j' c0 = kernel_env i p0 j c0"
  by (auto elim!: view_ofE)

lemma saturating_sub_le: "a \<le> b \<Longrightarrow> saturating_sub b a = b - a"
  by (auto simp: saturating_sub_def)

text \<open>What progress rests on: an idle ring has room, and a prompt kernel completes.\<close>

lemma idle_has_room:
  assumes "both_ok p0 c0 desc m i j s c" and "in_flight m i = 0"
  shows "free_slots m i \<noteq> 0"
  using prod_inv_split(3)[OF both_okD(1)[OF assms(1)]] both_okD(2,10)[OF assms(1)] nslots_bounds assms(2) by fastforce

lemma prompt_completes:
  assumes ok: "both_ok p0 c0 desc m (prod_inner (tx_ring tx)) j' s c" and less: "c < s"
    and views: "view_of i (prod_inner (tx_ring tx))" "view_of j j'" and prompt: "prompt_round i p0 j c0 r"
    and grow: "in_flight m j' \<le> in_flight (kr_wait r (RingTx_needs_wakeup m tx) m) j'"
  shows "in_flight (kr_wait r (RingTx_needs_wakeup m tx) m) j' \<noteq> 0"
proof (cases "in_flight m j' = 0")
  case True
  have "tally i p0 j c0 m s c" using both_okD(8)[OF ok] views by (auto elim!: view_ofE)
  moreover have "in_flight m j = 0" using True views(2) by (auto elim!: view_ofE)
  moreover have "load_u32 m (flags_ptr i) AND XDP_RING_NEED_WAKEUP \<noteq> 0 \<longrightarrow> RingTx_needs_wakeup m tx"
    using views(1) by (auto simp: RingTx_needs_wakeup_def RingProd_check_flags_def elim!: view_ofE)
  ultimately have "0 < in_flight (kr_wait r (RingTx_needs_wakeup m tx) m) j"
    using prompt less unfolding prompt_round_def by blast
  then show ?thesis using views(2) by (auto elim!: view_ofE)
qed (use grow in simp)

lemma flood_round_ok:
  assumes inv: "flood_inv i p0 j c0 tot desc st" and law: "lawful_round i p0 j c0 r"
  obtains st' where "flood_round S Release batch tot desc r st = Inr st'"
    and "flood_inv i p0 j c0 tot desc st'"
    and "fl_sent st \<le> fl_sent st'" and "fl_completed st \<le> fl_completed st'"
    and "unat (fl_sent st') \<le> unat (fl_sent st) + unat batch"
    and "unat (fl_completed st') \<le> unat (fl_completed st) + unat batch"
    and "batch \<noteq> 0 \<Longrightarrow> fl_completed st = fl_sent st \<Longrightarrow> fl_sent st \<noteq> tot \<Longrightarrow> fl_sent st < fl_sent st'"
    and "batch \<noteq> 0 \<Longrightarrow> fl_completed st \<noteq> fl_sent st \<Longrightarrow> prompt_round i p0 j c0 r \<Longrightarrow>
      fl_completed st < fl_completed st'"
proof -
  let ?i = "prod_inner (tx_ring (fl_tx st))" and ?j = "cons_inner (fcq_cons (dq_fcq (fl_device st)))"
  let ?s = "unat (fl_sent st)" and ?c = "unat (fl_completed st)"
  let ?n = "min (saturating_sub tot (fl_sent st)) batch"
  let ?k = "min (saturating_sub (fl_sent st) (fl_completed st)) batch"
  have vi: "view_of i ?i" and vj: "view_of j ?j" and ok: "both_ok p0 c0 desc (fl_mem st) ?i ?j ?s ?c"
    and st: "fl_sent st \<le> tot" and logs: "length (fl_tx_log st) = 33" "length (fl_cq_log st) = 33"
    using inv by (simp_all add: flood_inv_def)
  note env = law[unfolded lawful_round_def, folded kernel_env_of[OF vi vj]]
  let ?m0 = "kr_start r (fl_mem st)"
  have env0: "kernel_env ?i p0 ?j c0 (kr_start r)" using env by simp
  note ok0 = both_ok_env[OF ok env0]
  have n: "?n \<le> tot - fl_sent st" using st by (simp add: saturating_sub_le)
  have un: "unat (tot - fl_sent st) = unat tot - ?s" using st by (rule unat_sub)
  have small: "?s + unat ?n < 2 ^ 32"
    using n un st unat_u32[of tot] by (simp add: word_le_nat_alt)
  obtain sent tx' m1 where send: "flood_send Release (kr_submit r) ?m0 (fl_tx st) ?n desc = Inr (sent, tx', m1)"
    and sn: "sent \<le> ?n" "free_slots ?m0 ?i = 0 \<or> ?n = 0 \<or> sent \<noteq> 0"
    and ok1: "both_ok p0 c0 desc m1 (prod_inner (tx_ring tx')) ?j (?s + unat sent) ?c"
    and v1: "view_of ?i (prod_inner (tx_ring tx'))" and fl1: "in_flight ?m0 ?j \<le> in_flight m1 ?j"
    by (rule flood_send_ok[OF ok0(1) _ small, of "kr_submit r"]) (use env in simp)
  let ?i1 = "prod_inner (tx_ring tx')"
  have vi1: "view_of i ?i1" using vi v1 by (rule view_of_trans)
  note env1 = law[unfolded lawful_round_def, folded kernel_env_of[OF vi1 vj]]
  have e2: "kernel_env ?i1 p0 ?j c0 (kr_flags r)" using env1 by simp
  note ok2 = both_ok_env[OF ok1 e2]
  let ?m2 = "kr_flags r m1" let ?w = "RingTx_needs_wakeup ?m2 tx'"
  have e3: "kernel_env ?i1 p0 ?j c0 (kr_wait r ?w)" using env1 by simp
  note ok3 = both_ok_env[OF ok2(1) e3]
  let ?m3 = "kr_wait r ?w ?m2"
  obtain comp dq' m4 where reap: "flood_reap Release (kr_peek r) (kr_release r) ?m3 (fl_device st) ?k = Inr (comp, dq', m4)"
    and cn: "comp \<le> ?k" "in_flight ?m3 ?j = 0 \<or> ?k = 0 \<or> comp \<noteq> 0"
    and ok4: "both_ok p0 c0 desc m4 ?i1 (cons_inner (fcq_cons (dq_fcq dq'))) (?s + unat sent) (?c + unat comp)"
    and v4: "view_of ?j (cons_inner (fcq_cons (dq_fcq dq')))"
    by (rule flood_reap_ok[OF ok3(1), of "kr_peek r" "kr_release r" ?k]) (use env1 in auto)
  obtain p woken where wake: "flood_wake S Release ?w tx' (fl_proc st, fl_woken st) = Inr (p, woken)"
    by (cases ?w) (auto simp: flood_wake_def incr_i32_def)
  obtain st' where stats: "flood_stats Release sent comp (st\<lparr>fl_proc := p, fl_mem := m4, fl_tx := tx',
      fl_device := dq', fl_woken := woken\<rparr>) = Inr st'"
    and eqs: "fl_mem st' = m4" "fl_tx st' = tx'" "fl_device st' = dq'" "fl_sent st' = fl_sent st + sent"
      "fl_completed st' = fl_completed st + comp" "length (fl_tx_log st') = 33" "length (fl_cq_log st') = 33"
    by (rule flood_stats_ok[of "st\<lparr>fl_proc := p, fl_mem := m4, fl_tx := tx', fl_device := dq', fl_woken := woken\<rparr>"
        sent comp]) (use logs in simp_all)
  have run: "flood_round S Release batch tot desc r st = Inr st'"
    using send wake reap stats by (simp add: flood_round_def Let_def)
  have us: "unat (fl_sent st') = ?s + unat sent" and uc: "unat (fl_completed st') = ?c + unat comp"
    using both_okD(14,15)[OF ok4] by (simp_all add: eqs unat_word_ariths)
  have "?s + unat sent \<le> unat tot" using sn(1) n un st by (simp add: word_le_nat_alt)
  then have inv': "flood_inv i p0 j c0 tot desc st'"
    using view_of_trans[OF vj v4] vi1 ok4 us uc by (simp add: flood_inv_def eqs word_le_nat_alt)
  show thesis
  proof (rule that[OF run inv'])
    show "fl_sent st \<le> fl_sent st'" "fl_completed st \<le> fl_completed st'"
      using us uc by (simp_all add: word_le_nat_alt)
    show "unat (fl_sent st') \<le> ?s + unat batch" "unat (fl_completed st') \<le> ?c + unat batch"
      using us uc sn(1) cn(1) by (simp_all add: word_le_nat_alt min_unat)
  next
    assume b: "batch \<noteq> 0" and "fl_completed st = fl_sent st" and "fl_sent st \<noteq> tot"
    then have "in_flight (fl_mem st) ?i = 0" using both_okD(8)[OF ok] by (simp add: tally_def)
    then have "free_slots ?m0 ?i \<noteq> 0" using ok0(3) idle_has_room[OF ok0(1)] by simp
    moreover have "?n \<noteq> 0" using b \<open>fl_sent st \<noteq> tot\<close> st by (simp add: saturating_sub_le min_def)
    ultimately have "sent \<noteq> 0" using sn(2) by blast
    then show "fl_sent st < fl_sent st'" using us by (simp add: word_less_nat_alt unat_gt_0)
  next
    assume b: "batch \<noteq> 0" and ne: "fl_completed st \<noteq> fl_sent st" and prompt: "prompt_round i p0 j c0 r"
    have le: "fl_completed st \<le> fl_sent st" using both_okD(14)[OF ok] by (simp add: word_le_nat_alt)
    have "?k \<noteq> 0" using b ne le by (simp add: saturating_sub_le min_def)
    moreover have "?c < ?s + unat sent" using le ne by (simp add: word_le_nat_alt word_unat_eq_iff)
    then have "in_flight ?m3 ?j \<noteq> 0" by (rule prompt_completes[OF ok2(1) _ vi1 vj prompt ok3(2)])
    ultimately have "comp \<noteq> 0" using cn(2) by blast
    then show "fl_completed st < fl_completed st'" using uc by (simp add: word_less_nat_alt unat_gt_0)
  qed
qed

subsection \<open>The loop\<close>

definition flood_work :: "u32 \<Rightarrow> 'k flood \<Rightarrow> nat" where
  "flood_work tot st = (unat tot - unat (fl_sent st)) + (unat tot - unat (fl_completed st))"

lemma flood_inv_le:
  assumes "flood_inv i p0 j c0 tot desc st"
  shows "unat (fl_completed st) \<le> unat (fl_sent st)" and "unat (fl_sent st) \<le> unat tot"
proof -
  show "unat (fl_completed st) \<le> unat (fl_sent st)"
    using assms both_okD(14) by (auto simp: flood_inv_def)
  show "unat (fl_sent st) \<le> unat tot" using assms by (simp add: flood_inv_def word_le_nat_alt)
qed

lemma flood_loop_unfold:
  "\<not> flood_done tot st \<Longrightarrow> flood_round S pf batch tot desc (ks n) st = Inr st1 \<Longrightarrow>
    flood_loop S pf batch tot desc ks n st = flood_loop S pf batch tot desc ks (Suc n) st1"
  by (subst flood_loop.simps) simp

lemma flood_loop_progress:
  assumes laws: "\<And>n. lawful_round i p0 j c0 (ks n)" and batch: "batch \<noteq> 0"
    and "prompt_round i p0 j c0 (ks k)" and "n \<le> k"
    and "flood_inv i p0 j c0 tot desc st" and "\<not> flood_done tot st"
  shows "\<exists>n' st'. flood_loop S Release batch tot desc ks n st = flood_loop S Release batch tot desc ks n' st' \<and>
    flood_inv i p0 j c0 tot desc st' \<and> flood_work tot st' < flood_work tot st"
  using assms(3-)
proof (induction "k - n" arbitrary: n st)
  case (0 n st)
  obtain st' where run: "flood_round S Release batch tot desc (ks n) st = Inr st'"
    and inv: "flood_inv i p0 j c0 tot desc st'"
    and up: "fl_sent st \<le> fl_sent st'" "fl_completed st \<le> fl_completed st'"
    and grow: "fl_completed st = fl_sent st \<Longrightarrow> fl_sent st \<noteq> tot \<Longrightarrow> fl_sent st < fl_sent st'"
      "fl_completed st \<noteq> fl_sent st \<Longrightarrow> fl_completed st < fl_completed st'"
    by (rule flood_round_ok[OF "0.prems"(3) laws, of S batch n]) (use 0 batch in auto)
  have "fl_sent st < fl_sent st' \<or> fl_completed st < fl_completed st'"
    using "0.prems"(4) grow by (auto simp: flood_done_def)
  with up flood_inv_le[OF inv] have "flood_work tot st' < flood_work tot st"
    by (auto simp: flood_work_def word_le_nat_alt word_less_nat_alt)
  with flood_loop_unfold[where ks = ks, OF "0.prems"(4) run] inv show ?case by blast
next
  case (Suc x n st)
  obtain st' where run: "flood_round S Release batch tot desc (ks n) st = Inr st'"
    and inv: "flood_inv i p0 j c0 tot desc st'"
    and up: "fl_sent st \<le> fl_sent st'" "fl_completed st \<le> fl_completed st'"
    by (rule flood_round_ok[OF Suc.prems(3) laws, of S batch n]) auto
  note nx = flood_loop_unfold[where ks = ks, OF Suc.prems(4) run]
  show ?case
  proof (cases "flood_work tot st' < flood_work tot st")
    case True
    with nx inv show ?thesis by blast
  next
    case False
    then have "fl_sent st' = fl_sent st" "fl_completed st' = fl_completed st"
      using up flood_inv_le[OF inv] by (auto simp: flood_work_def word_le_nat_alt word_unat_eq_iff)
    then have "\<not> flood_done tot st'" and same: "flood_work tot st' = flood_work tot st"
      using Suc.prems(4) by (simp_all add: flood_done_def flood_work_def)
    with Suc.hyps(1)[of "Suc n" st'] Suc.hyps(2) Suc.prems(1,2) inv nx show ?thesis by simp
  qed
qed

lemma flood_loop_ends:
  assumes "\<And>n. lawful_round i p0 j c0 (ks n)" and "batch \<noteq> 0" and "\<And>n. \<exists>k\<ge>n. prompt_round i p0 j c0 (ks k)"
    and "flood_inv i p0 j c0 tot desc st"
  shows "\<exists>st'. flood_loop S Release batch tot desc ks n st = Some (Inr st') \<and>
    flood_inv i p0 j c0 tot desc st' \<and> flood_done tot st'"
  using assms(4)
proof (induction "flood_work tot st" arbitrary: n st rule: less_induct)
  case less
  show ?case
  proof (cases "flood_done tot st")
    case True
    with less.prems show ?thesis by (subst flood_loop.simps) auto
  next
    case False
    obtain k where "n \<le> k" "prompt_round i p0 j c0 (ks k)" using assms(3) by blast
    with flood_loop_progress[where ks = ks and n = n and k = k and st = st and S = S, OF assms(1,2) _ _ less.prems False]
    obtain n' st' where "flood_loop S Release batch tot desc ks n st = flood_loop S Release batch tot desc ks n' st'"
      "flood_inv i p0 j c0 tot desc st'" "flood_work tot st' < flood_work tot st" by blast
    with less.hyps show ?thesis by metis
  qed
qed

text \<open>A batch size of 0 never gets anywhere.\<close>

lemma flood_loop_zero:
  fixes S :: "'k libc" and st :: "'k flood"
  assumes "flood_loop S Release 0 tot desc ks n st = Some r"
    and "\<And>n. lawful_round i p0 j c0 (ks n)" and "flood_inv i p0 j c0 tot desc st"
  shows "flood_done tot st"
proof (rule ccontr)
  let ?P = "\<lambda>(S :: 'k libc) pf (batch :: u32) tot desc ks n (st :: 'k flood) r. pf = Release \<longrightarrow> batch = 0 \<longrightarrow>
    (\<forall>n. lawful_round i p0 j c0 (ks n)) \<longrightarrow> flood_inv i p0 j c0 tot desc st \<longrightarrow> flood_done tot st"
  assume "\<not> flood_done tot st"
  moreover have "?P S Release 0 tot desc ks n st r"
  proof (rule flood_loop.raw_induct[where P = ?P, OF _ assms(1)], intro impI)
    fix loop :: "'k libc \<Rightarrow> profile \<Rightarrow> u32 \<Rightarrow> u32 \<Rightarrow> XdpDesc \<Rightarrow> (nat \<Rightarrow> kround) \<Rightarrow> nat \<Rightarrow> 'k flood \<Rightarrow> 'k flood res option"
      and S and pf :: profile and batch :: u32 and tot desc ks n st r
    assume IH: "\<And>S pf batch tot desc ks n st r. loop S pf batch tot desc ks n st = Some r \<Longrightarrow> ?P S pf batch tot desc ks n st r"
      and eq: "(if flood_done tot st then Some (Inr st) else case flood_round S pf batch tot desc (ks n) st of
          Inl e \<Rightarrow> Some (Inl e) | Inr st1 \<Rightarrow> loop S pf batch tot desc ks (Suc n) st1) = Some r"
      and pf: "pf = Release" "batch = 0" and laws: "\<forall>n. lawful_round i p0 j c0 (ks n)"
      and inv: "flood_inv i p0 j c0 tot desc st"
    show "flood_done tot st"
    proof (rule ccontr)
      assume nd: "\<not> flood_done tot st"
      obtain st' where run: "flood_round S Release 0 tot desc (ks n) st = Inr st'"
        and inv': "flood_inv i p0 j c0 tot desc st'"
        and up: "fl_sent st \<le> fl_sent st'" "fl_completed st \<le> fl_completed st'"
        and "unat (fl_sent st') \<le> unat (fl_sent st) + unat (0 :: u32)"
          "unat (fl_completed st') \<le> unat (fl_completed st) + unat (0 :: u32)"
        by (rule flood_round_ok[OF inv laws[rule_format], of S 0 n]) auto
      then have "\<not> flood_done tot st'"
        using nd by (simp add: flood_done_def word_le_nat_alt word_unat_eq_iff)
      moreover have "loop S pf batch tot desc ks (Suc n) st' = Some r" using eq nd run pf by simp
      ultimately show False using IH pf laws inv' by blast
    qed
  qed
  ultimately show False using assms(2,3) by blast
qed

end
