(* ===== verification/FloodMtRun.thy ===== *)
theory FloodMtRun
  imports FloodMt FloodRun
begin

text \<open>
  The threads of \<open>flood-mt\<close> in every interleaving: what the shared counters account for, that no more
  than \<open>total\<close> packets are ever committed, and what holds when every thread has ended.  Nothing is
  assumed of the memory between steps, so nothing here rests on the rings being in order.
\<close>

subsection \<open>What one scope can do\<close>

lemma reserve_le: "reserve pf m (a, n) idx q = Inr (k, b, q1) \<Longrightarrow> k \<le> n"
  by (auto simp: reserve_def res_simps Let_def split: if_splits)

lemma peek_le: "peek pf env m (a, n) idx q = Inr (k, b, q1, m1) \<Longrightarrow> k \<le> n"
  by (auto simp: peek_def res_simps Let_def split: if_splits prod.splits)

lemma insert_iter_le:
  fixes nxt :: "('s, 'a) iter"
  assumes "insert_iter nxt enc addr m it 0 s = (k, s1, it1, m1)"
  shows "k \<le> it_remain it"
proof -
  obtain xs :: "'a list" where "k = of_nat (used it xs)"
    using assms by (auto simp: insert_iter_eq insert_loop_eq simp del: pull.simps split: prod.splits)
  moreover have "used it xs \<le> unat (it_remain it)" by (simp add: used_def)
  ultimately show ?thesis using le_unat_uoi by (fastforce simp: word_le_nat_alt)
qed

lemma count_reads_le:
  "count_reads pf m w n = Inr (k, w1) \<Longrightarrow> unat k \<le> unat n + unat (it_remain (rc_idx w))"
proof (induction pf m w n rule: count_reads.induct)
  case (1 pf m w n)
  show ?case
  proof (cases "it_remain (rc_idx w) = 0")
    case True
    with 1(2) show ?thesis by (simp add: count_reads.simps ReadComplete_read_def)
  next
    case False
    let ?w = "w\<lparr>rc_idx := (rc_idx w)\<lparr>it_remain := it_remain (rc_idx w) - 1, it_base := it_base (rc_idx w) + 1\<rparr>\<rparr>"
    obtain x where read: "ReadComplete_read m w = (Some x, ?w)"
      using False by (simp add: ReadComplete_read_def)
    then obtain n1 where n1: "add_chk pf n 1 = Inr n1" "count_reads pf m ?w n1 = Inr (k, w1)"
      using 1(2) by (subst (asm) count_reads.simps) (auto simp: res_simps)
    have "unat k \<le> unat n1 + unat (it_remain (rc_idx ?w))"
      by (rule 1(1)[OF read[symmetric] refl n1(2)])
    moreover have "unat n1 \<le> unat n + 1"
      using add_chk_InrD[OF n1(1)] unat_word_ariths(1)[of n 1] mod_less_eq_dividend[of "unat n + 1"] by simp
    ultimately show ?thesis using unat_pred[OF False] False by (simp add: unat_gt_0 Suc_le_eq)
  qed
qed

lemma flood_send_le: "flood_send pf env m tx n desc = Inr (k, tx1, m1) \<Longrightarrow> k \<le> n"
  by (auto simp: flood_send_def RingTx_transmit_def BufIdxIter_reserve_def WriteTx_insert_from_def res_simps
      split: prod.splits dest!: reserve_le insert_iter_le intro: order_trans)

lemma flood_reap_le:
  assumes "flood_reap pf env env' m dq n = Inr (k, dq1, m1)"
  shows "k \<le> n"
proof -
  obtain w m2 w1 where "DeviceQueue_complete pf env m dq n = Inr (w, m2)" and reads: "count_reads pf m2 w 0 = Inr (k, w1)"
    using assms by (auto simp: flood_reap_def res_simps case_prod_unfold)
  then have "it_remain (rc_idx w) \<le> n"
    by (auto simp: DeviceQueue_complete_def BufIdxIter_peek_def res_simps dest!: peek_le)
  with count_reads_le[OF reads] show ?thesis by (simp add: word_le_nat_alt)
qed

text \<open>Both scopes use up their cursor, and counting what is read stays within 32 bits.\<close>

lemma insert_repeat_used:
  assumes "WriteTx_insert_from repeat_next m w x = (n, s, w1, m1)"
  shows "it_remain (wt_idx w1) = 0"
  using assms WriteTx_insert_from_repeat[of w "Suc (unat (it_remain (wt_idx w)))" m x]
  by (auto simp: WriteTx_insert_def insert_loop_eq used_def moved_def)

lemma count_reads_fits:
  "unat n + unat (it_remain (rc_idx w)) < 2 ^ 32 \<Longrightarrow>
    \<exists>k w1. count_reads pf m w n = Inr (k, w1) \<and> it_remain (rc_idx w1) = 0"
proof (induction pf m w n rule: count_reads.induct)
  case (1 pf m w n)
  show ?case
  proof (cases "it_remain (rc_idx w) = 0")
    case True
    then show ?thesis by (simp add: count_reads.simps ReadComplete_read_def)
  next
    case False
    then have pos: "0 < unat (it_remain (rc_idx w))" by (simp add: unat_gt_0)
    let ?w = "w\<lparr>rc_idx := (rc_idx w)\<lparr>it_remain := it_remain (rc_idx w) - 1, it_base := it_base (rc_idx w) + 1\<rparr>\<rparr>"
    obtain x where read: "ReadComplete_read m w = (Some x, ?w)" using False by (simp add: ReadComplete_read_def)
    have fits: "add_chk pf n 1 = Inr (n + 1)" by (rule add_chk_fits) (use 1(2) pos in simp)
    have "unat (n + 1) = unat n + 1" using 1(2) pos unat_add_lem[of n 1] by simp
    then have "unat (n + 1) + unat (it_remain (rc_idx ?w)) < 2 ^ 32" using 1(2) pos unat_pred[OF False] by simp
    from 1(1)[OF read[symmetric] refl this] show ?thesis
      by (subst count_reads.simps) (simp add: read fits)
  qed
qed

subsection \<open>Sums over threads and counters\<close>

definition held :: "('t \<Rightarrow> nat) \<Rightarrow> 't list \<Rightarrow> nat" where
  "held f ts = sum_list (map f ts)"

lemma held_update: "i < length ts \<Longrightarrow> held f (ts[i := t]) + f (ts ! i) = held f ts + f t"
  using member_le_sum_list[of "f (ts ! i)" "map f ts"]
  by (simp add: held_def map_update sum_list_update)

lemma held_ge: "i < length ts \<Longrightarrow> f (ts ! i) \<le> held f ts"
  using member_le_sum_list[of "f (ts ! i)" "map f ts"] by (simp add: held_def)

lemma held_const: "(\<And>t. t \<in> set ts \<Longrightarrow> f t = 0) \<Longrightarrow> held f ts = 0"
  by (simp add: held_def)

lemma held_add:
  fixes xs :: "u32 list"
  assumes "i < length xs" and "held unat xs + unat n < 2 ^ 32"
  shows "held unat (xs[i := xs ! i + n]) = held unat xs + unat n"
proof -
  have "unat (xs ! i + n) = unat (xs ! i) + unat n"
    using assms(2) held_ge[OF assms(1), of unat] unat_add_lem[of "xs ! i" n] by simp
  with held_update[OF assms(1), of unat "xs ! i + n"] show ?thesis by simp
qed

subsection \<open>Senders\<close>

text \<open>What a thread has reserved, committed but not added to \<open>sent\<close>, and not added to its own counter.\<close>

fun owed :: "send_pc \<Rightarrow> nat" where
  "owed (SSend b) = unat b"
| "owed (SCheckStall b n) = unat b"
| "owed (SWake b n) = unat b"
| "owed (SUnreserve b n) = unat b"
| "owed (SSent n) = unat n"
| "owed _ = 0"

fun unsent :: "send_pc \<Rightarrow> nat" where
  "unsent (SCheckStall b n) = unat n"
| "unsent (SWake b n) = unat n"
| "unsent (SUnreserve b n) = unat n"
| "unsent (SSent n) = unat n"
| "unsent _ = 0"

fun uncounted :: "send_pc \<Rightarrow> nat" where
  "uncounted (SCounter n) = unat n"
| "uncounted _ = 0"

fun send_ok :: "send_pc \<Rightarrow> bool" where
  "send_ok (SCheckStall b n) \<longleftrightarrow> n \<le> b"
| "send_ok (SWake b n) \<longleftrightarrow> n \<le> b"
| "send_ok (SUnreserve b n) \<longleftrightarrow> n \<le> b"
| "send_ok _ \<longleftrightarrow> True"

lemma unsent_le_owed: "send_ok pc \<Longrightarrow> unsent pc \<le> owed pc"
  by (cases pc) (simp_all add: word_le_nat_alt)

lemma log_atomic_eq:
  "length log = 33 \<Longrightarrow> log_atomic pf n log = Inr (log[bit_len (unat n) := log ! bit_len (unat n) + 1])"
  using bit_len_le[of "unat n" 32] unat_u32[of n]
  by (simp add: log_atomic_def sub_chk_fits[OF log_index_fits] log_index)

lemma share_fits:
  assumes "prev \<le> tot"
  shows "unat prev + unat (min (saturating_sub tot prev) batch) \<le> unat tot"
    and "add_chk pf prev (min (saturating_sub tot prev) batch) = Inr (prev + min (saturating_sub tot prev) batch)"
    and "unat (prev + min (saturating_sub tot prev) batch) = unat prev + unat (min (saturating_sub tot prev) batch)"
proof -
  show le: "unat prev + unat (min (saturating_sub tot prev) batch) \<le> unat tot"
    using assms unat_sub[OF assms] saturating_sub_le[OF assms] by (simp add: min_unat word_le_nat_alt)
  then have fits: "unat prev + unat (min (saturating_sub tot prev) batch) < 2 ^ LENGTH(32)"
    using unat_u32[of tot] by simp
  then show "add_chk pf prev (min (saturating_sub tot prev) batch) = Inr (prev + min (saturating_sub tot prev) batch)"
    by (rule add_chk_fits)
  from fits show "unat (prev + min (saturating_sub tot prev) batch) =
      unat prev + unat (min (saturating_sub tot prev) batch)"
    by (simp add: unat_add_lem[symmetric])
qed

text \<open>The shared state as the senders' accounts see it.\<close>

definition sender_ok :: "u32 \<Rightarrow> 'k shared \<Rightarrow> sender \<Rightarrow> bool" where
  "sender_ok tot sh th \<longleftrightarrow> send_ok (sd_pc th) \<and> sd_ctr th < length (tx_by_sock sh) \<and>
     (sd_pc th = SLoadCompleted \<or> sd_pc th = SEnd \<longrightarrow> tot \<le> sent sh)"

lemma sender_ok_mono:
  "sender_ok tot sh th \<Longrightarrow> sent sh \<le> sent sh' \<Longrightarrow> length (tx_by_sock sh') = length (tx_by_sock sh) \<Longrightarrow>
    sender_ok tot sh' th"
  by (auto simp: sender_ok_def)

lemma sender_step_accounts:
  assumes step: "sender_step S pf batch tot desc env sh th = Inr (sh', th')"
    and ok: "sender_ok tot sh th" and room: "sent_reserved sh \<le> tot"
    and owe: "unat (sent sh) + owed (sd_pc th) \<le> unat (sent_reserved sh)"
    and cnt: "held unat (tx_by_sock sh) + uncounted (sd_pc th) \<le> unat (sent sh)"
    and log: "length (tx_log_batch sh) = 33"
  shows "sender_ok tot sh' th'" and "sent_reserved sh' \<le> tot"
    and "unat (sent_reserved sh') + (unat (sent sh) + owed (sd_pc th)) =
      unat (sent_reserved sh) + (unat (sent sh') + owed (sd_pc th'))"
    and "unat (sent sh') + (held unat (tx_by_sock sh) + uncounted (sd_pc th)) =
      unat (sent sh) + (held unat (tx_by_sock sh') + uncounted (sd_pc th'))"
    and "sent sh \<le> sent sh'" and "length (tx_by_sock sh') = length (tx_by_sock sh)"
    and "length (tx_log_batch sh') = 33"
    and "unat (sent sh) + unsent (sd_pc th) \<le> unat (sent sh') + unsent (sd_pc th')"
proof -
  have "sender_ok tot sh' th' \<and> sent_reserved sh' \<le> tot \<and>
    unat (sent_reserved sh') + (unat (sent sh) + owed (sd_pc th)) =
      unat (sent_reserved sh) + (unat (sent sh') + owed (sd_pc th')) \<and>
    unat (sent sh') + (held unat (tx_by_sock sh) + uncounted (sd_pc th)) =
      unat (sent sh) + (held unat (tx_by_sock sh') + uncounted (sd_pc th')) \<and>
    sent sh \<le> sent sh' \<and> length (tx_by_sock sh') = length (tx_by_sock sh) \<and> length (tx_log_batch sh') = 33 \<and>
    unat (sent sh) + unsent (sd_pc th) \<le> unat (sent sh') + unsent (sd_pc th')"
  proof (cases "sd_pc th")
    case SReserve
    with step ok room log share_fits[where batch = batch, OF room] show ?thesis
      by (auto simp: sender_step_def Let_def sender_ok_def word_le_nat_alt)
  next
    case (SSend b)
    with step ok room log show ?thesis
      by (auto simp: sender_step_def sender_ok_def res_simps dest: flood_send_le)
  next
    case (SUnreserve b n)
    then have nb: "n \<le> b" using ok by (simp add: sender_ok_def)
    then have rest: "unat (b - n) = unat b - unat n" by (rule unat_sub)
    then have "b - n \<le> sent_reserved sh" using owe SUnreserve by (simp add: word_le_nat_alt)
    then have "unat (sent_reserved sh - (b - n)) = unat (sent_reserved sh) - (unat b - unat n)"
      using rest by (simp add: unat_sub)
    with SUnreserve step ok room log owe nb show ?thesis
      by (auto simp: sender_step_def sender_ok_def sub_chk_fits[OF nb] word_le_nat_alt)
  next
    case (SSent n)
    then have "unat (sent sh + n) = unat (sent sh) + unat n"
      using owe unat_u32[of "sent_reserved sh"] unat_add_lem[of "sent sh" n] by simp
    with SSent step ok room log show ?thesis
      by (auto simp: sender_step_def sender_ok_def word_le_nat_alt)
  next
    case (SCounter n)
    then have "held unat (tx_by_sock sh) + unat n < 2 ^ 32" using cnt unat_u32[of "sent sh"] by simp
    with SCounter step ok room log held_add[of "sd_ctr th" "tx_by_sock sh" n] show ?thesis
      by (auto simp: sender_step_def sender_ok_def)
  next
    case (SLog n)
    with step ok room log log_atomic_eq[OF log, of pf n] show ?thesis
      by (auto simp: sender_step_def sender_ok_def)
  qed (use step ok room log in \<open>auto simp: sender_step_def sender_ok_def res_simps split: if_splits\<close>)
  then show "sender_ok tot sh' th'" and "sent_reserved sh' \<le> tot"
    and "unat (sent_reserved sh') + (unat (sent sh) + owed (sd_pc th)) =
      unat (sent_reserved sh) + (unat (sent sh') + owed (sd_pc th'))"
    and "unat (sent sh') + (held unat (tx_by_sock sh) + uncounted (sd_pc th)) =
      unat (sent sh) + (held unat (tx_by_sock sh') + uncounted (sd_pc th'))"
    and "sent sh \<le> sent sh'" and "length (tx_by_sock sh') = length (tx_by_sock sh)"
    and "length (tx_log_batch sh') = 33"
    and "unat (sent sh) + unsent (sd_pc th) \<le> unat (sent sh') + unsent (sd_pc th')" by blast+
qed

lemma sender_step_frame:
  assumes "sender_step S pf batch tot desc env sh th = Inr (sh', th')"
  shows "completed sh' = completed sh" and "cq_by_queue sh' = cq_by_queue sh"
    and "cq_log_batch sh' = cq_log_batch sh"
    and "sd_pc th' = SEnd \<Longrightarrow> sd_pc th = SEnd \<or> tot \<le> completed sh"
  using assms by (auto simp: sender_step_def Let_def res_simps split: send_pc.splits if_splits)

lemma completer_step_frame:
  assumes "completer_step S pf batch tot env env' sh th = Inr (sh', th')"
  shows "sent sh' = sent sh" and "sent_reserved sh' = sent_reserved sh" and "tx_by_sock sh' = tx_by_sock sh"
    and "tx_log_batch sh' = tx_log_batch sh" and "length (cq_log_batch sh') = length (cq_log_batch sh)"
  using assms by (auto simp: completer_step_def log_atomic_def res_simps split: comp_pc.splits if_splits)

subsection \<open>Completers\<close>

text \<open>What a thread has reaped but not added to \<open>completed\<close>, and not added to its own counter.\<close>

fun reaping :: "comp_pc \<Rightarrow> nat" where
  "reaping (CCompleted n) = unat n"
| "reaping _ = 0"

fun unlogged :: "comp_pc \<Rightarrow> nat" where
  "unlogged (CCounter n) = unat n"
| "unlogged _ = 0"

definition completer_ok :: "u32 \<Rightarrow> 'k shared \<Rightarrow> completer \<Rightarrow> bool" where
  "completer_ok tot sh th \<longleftrightarrow> cp_ctr th < length (cq_by_queue sh) \<and> (cp_pc th = CEnd \<longrightarrow> completed sh = tot)"

lemma completer_step_accounts:
  assumes step: "completer_step S pf batch tot env env' sh th = Inr (sh', th')"
    and ok: "completer_ok tot sh th" and room: "unat (completed sh) + reaping (cp_pc th) \<le> unat tot"
    and cnt: "held unat (cq_by_queue sh) + unlogged (cp_pc th) \<le> unat (completed sh)"
    and log: "length (cq_log_batch sh) = 33"
  shows "completer_ok tot sh' th'" and "completed sh \<le> completed sh'"
    and "unat (completed sh') + (held unat (cq_by_queue sh) + unlogged (cp_pc th)) =
      unat (completed sh) + (held unat (cq_by_queue sh') + unlogged (cp_pc th'))"
    and "completed sh' \<le> tot" and "length (cq_by_queue sh') = length (cq_by_queue sh)"
    and "length (cq_log_batch sh') = 33"
proof -
  have "completer_ok tot sh' th' \<and> completed sh \<le> completed sh' \<and>
    unat (completed sh') + (held unat (cq_by_queue sh) + unlogged (cp_pc th)) =
      unat (completed sh) + (held unat (cq_by_queue sh') + unlogged (cp_pc th')) \<and>
    completed sh' \<le> tot \<and> length (cq_by_queue sh') = length (cq_by_queue sh) \<and> length (cq_log_batch sh') = 33"
  proof (cases "cp_pc th")
    case (CCompleted n)
    then have "unat (completed sh + n) = unat (completed sh) + unat n"
      using room unat_u32[of tot] unat_add_lem[of "completed sh" n] by simp
    with CCompleted step ok room log show ?thesis
      by (auto simp: completer_step_def completer_ok_def word_le_nat_alt)
  next
    case (CCounter n)
    then have "held unat (cq_by_queue sh) + unat n < 2 ^ 32" using cnt unat_u32[of "completed sh"] by simp
    with CCounter step ok room log held_add[of "cp_ctr th" "cq_by_queue sh" n] show ?thesis
      by (auto simp: completer_step_def completer_ok_def word_le_nat_alt)
  next
    case (CLog n)
    with step ok room log log_atomic_eq[OF log, of pf n] show ?thesis
      by (auto simp: completer_step_def completer_ok_def word_le_nat_alt)
  qed (use step ok room log in \<open>auto simp: completer_step_def completer_ok_def res_simps word_le_nat_alt
        split: if_splits\<close>)
  then show "completer_ok tot sh' th'" and "completed sh \<le> completed sh'"
    and "unat (completed sh') + (held unat (cq_by_queue sh) + unlogged (cp_pc th)) =
      unat (completed sh) + (held unat (cq_by_queue sh') + unlogged (cp_pc th'))"
    and "completed sh' \<le> tot" and "length (cq_by_queue sh') = length (cq_by_queue sh)"
    and "length (cq_log_batch sh') = 33" by blast+
qed

text \<open>With a single queue no other thread moves \<open>completed\<close>.\<close>

fun alone_ok :: "'k shared \<Rightarrow> comp_pc \<Rightarrow> bool" where
  "alone_ok sh (CLoadSent current) \<longleftrightarrow> current = completed sh \<and> completed sh \<le> sent sh"
| "alone_ok sh (CReap b) \<longleftrightarrow> unat (completed sh) + unat b \<le> unat (sent sh)"
| "alone_ok sh (CCompleted n) \<longleftrightarrow> unat (completed sh) + unat n \<le> unat (sent sh)"
| "alone_ok sh _ \<longleftrightarrow> completed sh \<le> sent sh"

lemma alone_reaped: "alone_ok sh pc \<Longrightarrow> unat (completed sh) + reaping pc \<le> unat (sent sh)"
  by (cases pc) (simp_all add: word_le_nat_alt)

lemma alone_mono: "alone_ok sh pc \<Longrightarrow> completed sh' = completed sh \<Longrightarrow> sent sh \<le> sent sh' \<Longrightarrow> alone_ok sh' pc"
  by (cases pc) (auto simp: word_le_nat_alt)

lemma alone_step:
  assumes step: "completer_step S pf batch tot env env' sh th = Inr (sh', th')" and ok: "alone_ok sh (cp_pc th)"
  shows "alone_ok sh' (cp_pc th')"
proof (cases "cp_pc th")
  case (CLoadSent current)
  with step ok share_fits(1)[of "completed sh" "sent sh" batch] show ?thesis
    by (auto simp: completer_step_def)
next
  case (CReap b)
  with step ok show ?thesis
    by (auto simp: completer_step_def res_simps word_le_nat_alt dest!: flood_reap_le)
next
  case (CCompleted n)
  then have "unat (completed sh + n) = unat (completed sh) + unat n"
    using ok unat_u32[of "sent sh"] unat_add_lem[of "completed sh" n] by simp
  with CCompleted step ok show ?thesis by (auto simp: completer_step_def word_le_nat_alt)
qed (use step ok in \<open>auto simp: completer_step_def res_simps word_le_nat_alt split: if_splits\<close>)

subsection \<open>All threads\<close>

definition mt_inv :: "u32 \<Rightarrow> 'k mt \<Rightarrow> bool" where
  "mt_inv tot st \<longleftrightarrow> (let sh = mt_shared st; ths = mt_senders st in
     sent_reserved sh \<le> tot \<and> unat (sent_reserved sh) = unat (sent sh) + held (owed \<circ> sd_pc) ths \<and>
     unat (sent sh) = held unat (tx_by_sock sh) + held (uncounted \<circ> sd_pc) ths \<and>
     (\<forall>i<length ths. sender_ok tot sh (ths ! i)) \<and>
     length (tx_log_batch sh) = 33 \<and> length (cq_log_batch sh) = 33)"

text \<open>How many packets were committed to the rings, and how many completions taken from them.\<close>

definition mt_committed :: "'k mt \<Rightarrow> nat" where
  "mt_committed st = unat (sent (mt_shared st)) + held (unsent \<circ> sd_pc) (mt_senders st)"

definition mt_reaped :: "'k mt \<Rightarrow> nat" where
  "mt_reaped st = unat (completed (mt_shared st)) + held (reaping \<circ> cp_pc) (mt_completers st)"

lemma mt_inv_step:
  assumes "mt_step S pf batch tot desc st st'" and inv: "mt_inv tot st"
  shows "mt_inv tot st'" and "sent (mt_shared st) \<le> sent (mt_shared st')"
    and "mt_committed st \<le> mt_committed st'"
proof -
  have "mt_inv tot st' \<and> sent (mt_shared st) \<le> sent (mt_shared st') \<and> mt_committed st \<le> mt_committed st'"
    using assms(1)
  proof (cases rule: mt_stepE[consumes 1, case_names complete send kernel])
    case (complete i env env' sh th)
    note fr = completer_step_frame[OF complete(3)]
    have "sender_ok tot sh s = sender_ok tot (mt_shared st) s" for s by (simp add: sender_ok_def fr)
    with complete(1) inv fr show ?thesis by (simp add: mt_inv_def Let_def mt_committed_def)
  next
    case (send i env sh th)
    let ?s = "mt_shared st" and ?ts = "mt_senders st"
    let ?t = "?ts ! i"
    note u = held_update[OF send(2), of "owed \<circ> sd_pc" th] held_update[OF send(2), of "uncounted \<circ> sd_pc" th]
      held_update[OF send(2), of "unsent \<circ> sd_pc" th]
    note g = held_ge[OF send(2), of "owed \<circ> sd_pc"] held_ge[OF send(2), of "uncounted \<circ> sd_pc"]
    have pre: "sender_ok tot ?s ?t" "sent_reserved ?s \<le> tot" "unat (sent ?s) + owed (sd_pc ?t) \<le> unat (sent_reserved ?s)"
      "held unat (tx_by_sock ?s) + uncounted (sd_pc ?t) \<le> unat (sent ?s)" "length (tx_log_batch ?s) = 33"
      using inv send(2) g by (auto simp: mt_inv_def Let_def)
    note acc = sender_step_accounts[OF send(3) pre]
    have "sender_ok tot sh (?ts[i := th] ! j)" if "j < length ?ts" for j
      using that inv acc(1) sender_ok_mono[OF _ acc(5,6)] by (cases "j = i") (auto simp: mt_inv_def Let_def)
    with acc u inv sender_step_frame(3)[OF send(3)] show ?thesis
      unfolding send(1) mt_inv_def mt_committed_def Let_def by simp
  next
    case (kernel m)
    with inv show ?thesis by (simp add: mt_inv_def Let_def mt_committed_def sender_ok_def)
  qed
  then show "mt_inv tot st'" and "sent (mt_shared st) \<le> sent (mt_shared st')"
    and "mt_committed st \<le> mt_committed st'" by blast+
qed

lemma mt_inv_steps:
  assumes "(mt_step S pf batch tot desc)\<^sup>*\<^sup>* st st'" and "mt_inv tot st"
  shows "mt_inv tot st'"
  using assms by (induction rule: rtranclp_induct) (auto intro: mt_inv_step(1))

lemma mt_inv_committed:
  assumes "mt_inv tot st"
  shows "mt_committed st \<le> unat (sent_reserved (mt_shared st))"
proof -
  have "\<forall>s\<in>set (mt_senders st). unsent (sd_pc s) \<le> owed (sd_pc s)"
    using assms unsent_le_owed by (auto simp: mt_inv_def Let_def sender_ok_def in_set_conv_nth)
  then have "held (unsent \<circ> sd_pc) (mt_senders st) \<le> held (owed \<circ> sd_pc) (mt_senders st)"
    unfolding held_def by (intro sum_list_mono) simp
  with assms show ?thesis by (simp add: mt_inv_def Let_def mt_committed_def)
qed

text \<open>
  The completing side, for a kernel that reports no more completions than packets were committed to it.
\<close>

definition mt_lawful :: "'k libc \<Rightarrow> profile \<Rightarrow> u32 \<Rightarrow> u32 \<Rightarrow> XdpDesc \<Rightarrow> 'k mt \<Rightarrow> 'k mt \<Rightarrow> bool" where
  "mt_lawful S pf batch tot desc st st' \<longleftrightarrow> mt_step S pf batch tot desc st st' \<and> mt_reaped st' \<le> mt_committed st'"

definition mt_cinv :: "u32 \<Rightarrow> 'k mt \<Rightarrow> bool" where
  "mt_cinv tot st \<longleftrightarrow> (let sh = mt_shared st; ths = mt_completers st in
     unat (completed sh) = held unat (cq_by_queue sh) + held (unlogged \<circ> cp_pc) ths \<and>
     (\<forall>i<length ths. completer_ok tot sh (ths ! i)) \<and> length (cq_log_batch sh) = 33 \<and>
     (\<forall>s\<in>set (mt_senders st). sd_pc s = SEnd \<longrightarrow> tot \<le> completed sh) \<and> mt_reaped st \<le> mt_committed st)"

lemma mt_cinv_step:
  assumes "mt_step S pf batch tot desc st st'" and inv: "mt_inv tot st" and cinv: "mt_cinv tot st"
    and law: "mt_reaped st' \<le> mt_committed st'"
  shows "mt_cinv tot st'"
  using assms(1)
proof (cases rule: mt_stepE[consumes 1, case_names complete send kernel])
  case (complete i env env' sh th)
  let ?s = "mt_shared st" and ?ts = "mt_completers st"
  let ?t = "?ts ! i"
  note u = held_update[OF complete(2), of "unlogged \<circ> cp_pc" th]
  note g = held_ge[OF complete(2), of "unlogged \<circ> cp_pc"] held_ge[OF complete(2), of "reaping \<circ> cp_pc"]
  have "unat (sent_reserved ?s) \<le> unat tot" using inv by (simp add: mt_inv_def Let_def word_le_nat_alt)
  then have "unat (completed ?s) + reaping (cp_pc ?t) \<le> unat tot"
    using cinv mt_inv_committed[OF inv] g(2) by (simp add: mt_cinv_def Let_def mt_reaped_def)
  moreover have "completer_ok tot ?s ?t" "held unat (cq_by_queue ?s) + unlogged (cp_pc ?t) \<le> unat (completed ?s)"
    "length (cq_log_batch ?s) = 33"
    using cinv complete(2) g(1) by (auto simp: mt_cinv_def Let_def)
  ultimately have acc: "completer_ok tot sh th" "completed ?s \<le> completed sh" "completed sh \<le> tot"
    "unat (completed sh) + (held unat (cq_by_queue ?s) + unlogged (cp_pc ?t)) =
      unat (completed ?s) + (held unat (cq_by_queue sh) + unlogged (cp_pc th))"
    "length (cq_by_queue sh) = length (cq_by_queue ?s)" "length (cq_log_batch sh) = 33"
    using completer_step_accounts[OF complete(3)] by blast+
  have "completer_ok tot sh (?ts[i := th] ! j)" if "j < length ?ts" for j
    using that cinv acc by (cases "j = i") (auto simp: mt_cinv_def Let_def completer_ok_def intro: order.antisym)
  moreover have "tot \<le> completed sh" if "s \<in> set (mt_senders st)" "sd_pc s = SEnd" for s
    using that cinv acc(2) by (auto simp: mt_cinv_def Let_def)
  ultimately show ?thesis
    using acc u cinv law unfolding complete(1) mt_cinv_def Let_def by simp
next
  case (send i env sh th)
  note fr = sender_step_frame[OF send(3)]
  have "tot \<le> completed sh" if "s \<in> set ((mt_senders st)[i := th])" "sd_pc s = SEnd" for s
    using that cinv fr(1,4) send(2) set_update_subset_insert[of "mt_senders st" i th]
    by (fastforce simp: mt_cinv_def Let_def)
  moreover have "completer_ok tot sh c = completer_ok tot (mt_shared st) c" for c by (simp add: completer_ok_def fr(1,2))
  ultimately show ?thesis
    using cinv law fr(1-3) unfolding send(1) mt_cinv_def Let_def by simp
next
  case (kernel m)
  with cinv law show ?thesis by (simp add: mt_cinv_def Let_def completer_ok_def)
qed

lemma mt_lawful_steps:
  assumes "(mt_lawful S pf batch tot desc)\<^sup>*\<^sup>* st st'" and "mt_inv tot st" and "mt_cinv tot st"
  shows "mt_inv tot st' \<and> mt_cinv tot st'"
  using assms
  by (induction rule: rtranclp_induct) (auto simp: mt_lawful_def intro: mt_inv_step(1) mt_cinv_step)

text \<open>With one queue the law is the client's own doing.\<close>

definition mt_alone :: "'k mt \<Rightarrow> bool" where
  "mt_alone st \<longleftrightarrow> length (mt_completers st) = 1 \<and> alone_ok (mt_shared st) (cp_pc (mt_completers st ! 0))"

lemma mt_alone_step:
  assumes "mt_step S pf batch tot desc st st'" and "mt_inv tot st" and alone: "mt_alone st"
  shows "mt_alone st'"
  using assms(1)
proof (cases rule: mt_stepE[consumes 1, case_names complete send kernel])
  case (complete i env env' sh th)
  then show ?thesis using alone alone_step[OF complete(3)] by (simp add: mt_alone_def)
next
  case (send i env sh th)
  have "completed sh = completed (mt_shared st)" "sent (mt_shared st) \<le> sent sh"
    using sender_step_frame(1)[OF send(3)] mt_inv_step(2)[OF assms(1,2)] send(1) by simp_all
  then have "alone_ok sh pc" if "alone_ok (mt_shared st) pc" for pc by (rule alone_mono[OF that])
  with send alone show ?thesis by (simp add: mt_alone_def)
next
  case (kernel m)
  have "alone_ok (mt_shared st') pc" if "alone_ok (mt_shared st) pc" for pc
    by (rule alone_mono[OF that]) (simp_all add: kernel)
  with kernel alone show ?thesis by (simp add: mt_alone_def)
qed

lemma mt_alone_steps:
  assumes "(mt_step S pf batch tot desc)\<^sup>*\<^sup>* st st'" and "mt_inv tot st" and "mt_alone st"
  shows "mt_inv tot st' \<and> mt_alone st'"
  using assms by (induction rule: rtranclp_induct) (auto intro: mt_inv_step(1) mt_alone_step)

lemma mt_alone_lawful:
  assumes "mt_alone st"
  shows "mt_reaped st \<le> unat (sent (mt_shared st))" and "mt_reaped st \<le> mt_committed st"
proof -
  have "held (reaping \<circ> cp_pc) (mt_completers st) = reaping (cp_pc (mt_completers st ! 0))"
    using assms by (cases "mt_completers st") (auto simp: mt_alone_def held_def)
  with alone_reaped[of "mt_shared st"] assms show "mt_reaped st \<le> unat (sent (mt_shared st))"
    by (simp add: mt_alone_def mt_reaped_def)
  then show "mt_reaped st \<le> mt_committed st" by (simp add: mt_committed_def)
qed

subsection \<open>All threads ended\<close>

lemma mt_inv_le: "mt_inv tot st \<Longrightarrow> sent (mt_shared st) \<le> tot"
  by (auto simp: mt_inv_def Let_def word_le_nat_alt)

lemma mt_ended_counts:
  assumes inv: "mt_inv tot st" and cinv: "mt_cinv tot st" and fin: "mt_ended st"
    and ne: "mt_senders st \<noteq> []" "mt_completers st \<noteq> []"
  shows "sent (mt_shared st) = tot" and "completed (mt_shared st) = tot" and "sent_reserved (mt_shared st) = tot"
    and "held unat (tx_by_sock (mt_shared st)) = unat tot" and "held unat (cq_by_queue (mt_shared st)) = unat tot"
proof -
  have s0: "sd_pc (mt_senders st ! 0) = SEnd" and c0: "cp_pc (mt_completers st ! 0) = CEnd"
    using fin ne by (auto simp: mt_ended_def list_all_length)
  have zs: "held (owed \<circ> sd_pc) (mt_senders st) = 0" "held (uncounted \<circ> sd_pc) (mt_senders st) = 0"
    "held (unlogged \<circ> cp_pc) (mt_completers st) = 0"
    using fin by (auto simp: mt_ended_def list_all_iff intro!: held_const)
  have "tot \<le> sent (mt_shared st)" using inv s0 ne by (auto simp: mt_inv_def Let_def sender_ok_def)
  with mt_inv_le[OF inv] show s: "sent (mt_shared st) = tot" by simp
  show c: "completed (mt_shared st) = tot" using cinv c0 ne by (auto simp: mt_cinv_def Let_def completer_ok_def)
  show "sent_reserved (mt_shared st) = tot" "held unat (tx_by_sock (mt_shared st)) = unat tot"
    using inv zs s by (auto simp: mt_inv_def Let_def word_unat_eq_iff)
  show "held unat (cq_by_queue (mt_shared st)) = unat tot" using cinv zs c by (auto simp: mt_cinv_def Let_def)
qed

subsection \<open>Panics\<close>

lemma flood_send_Release [simp]: "flood_send Release env m tx n desc \<noteq> Inl e"
  by (auto simp: flood_send_def RingTx_transmit_def BufIdxIter_reserve_def reserve_def count_free_def
      WriteTx_commit_def WriteTx_drop_def commit_prod_Release RingProd_cancel_def Let_def split: prod.splits)

lemma flood_reap_Release [simp]: "flood_reap Release env env' m dq n \<noteq> Inl e"
  by (auto simp: flood_reap_def DeviceQueue_complete_def BufIdxIter_peek_def peek_def count_reads_eq
      ReadComplete_release_def ReadComplete_drop_def release_cons_Release RingCons_cancel_def Let_def
      split: prod.splits)

text \<open>The calls on the rings in which a scope panics.  The loop between them does not, nor does the drop at the end.\<close>

definition reap_call_panics :: "profile \<Rightarrow> env \<Rightarrow> env \<Rightarrow> mem \<Rightarrow> DeviceQueue \<Rightarrow> u32 \<Rightarrow> panic \<Rightarrow> bool" where
  "reap_call_panics pf env env' m dq n e \<longleftrightarrow> DeviceQueue_complete pf env m dq n = Inl e \<or>
     (\<exists>reader m1 k reader1. DeviceQueue_complete pf env m dq n = Inr (reader, m1) \<and>
        count_reads pf m1 reader 0 = Inr (k, reader1) \<and> fst (ReadComplete_release pf env' m1 reader1) = Inl e)"

definition send_call_panics :: "profile \<Rightarrow> env \<Rightarrow> mem \<Rightarrow> RingTx \<Rightarrow> u32 \<Rightarrow> XdpDesc \<Rightarrow> panic \<Rightarrow> bool" where
  "send_call_panics pf env m tx n desc e \<longleftrightarrow> RingTx_transmit pf m tx n = Inl e \<or>
     (\<exists>writer k s writer1 m1. RingTx_transmit pf m tx n = Inr writer \<and>
        WriteTx_insert_from repeat_next m writer desc = (k, s, writer1, m1) \<and>
        fst (WriteTx_commit pf env m1 writer1) = Inl e)"

lemma release_used:
  assumes "ReadComplete_release pf env m w = (Inr w1, m1)" and "it_remain (rc_idx w) = 0"
  shows "it_buffers (rc_idx w1) = 0"
  using assms
  by (auto simp: ReadComplete_release_def release_cons_def word_gt_0 Let_def sub_chk_def res_simps split: prod.splits if_splits)

lemma commit_used:
  assumes "WriteTx_commit pf env m w = (Inr w1, m1)" and "it_remain (wt_idx w) = 0"
  shows "it_buffers (wt_idx w1) = 0"
  using assms
  by (auto simp: WriteTx_commit_def commit_prod_def word_gt_0 Let_def sub_chk_def res_simps split: prod.splits if_splits)

lemma flood_reap_panics:
  assumes "flood_reap pf env env' m dq n = Inl e"
  shows "reap_call_panics pf env env' m dq n e"
proof (cases "DeviceQueue_complete pf env m dq n")
  case (Inr x)
  obtain reader m1 where x: "x = (reader, m1)" by force
  have "unat (0 :: u32) + unat (it_remain (rc_idx reader)) < 2 ^ 32" using unat_u32[of "it_remain (rc_idx reader)"] by simp
  from count_reads_fits[OF this] obtain k w1 where
    reads: "count_reads pf m1 reader 0 = Inr (k, w1)" "it_remain (rc_idx w1) = 0" by blast
  obtain r m2 where rel: "ReadComplete_release pf env' m1 w1 = (r, m2)" by force
  have "r = Inl e"
    using assms Inr x reads rel release_used[of pf env' m1 w1 _ m2]
    by (cases r) (auto simp: flood_reap_def ReadComplete_drop_def)
  with Inr x reads rel show ?thesis by (auto simp: reap_call_panics_def)
qed (use assms in \<open>simp add: flood_reap_def reap_call_panics_def\<close>)

lemma flood_send_panics:
  assumes "flood_send pf env m tx n desc = Inl e"
  shows "send_call_panics pf env m tx n desc e"
proof (cases "RingTx_transmit pf m tx n")
  case (Inr w)
  obtain k s w1 m1 where ins: "WriteTx_insert_from repeat_next m w desc = (k, s, w1, m1)" by (metis surj_pair)
  obtain r m2 where com: "WriteTx_commit pf env m1 w1 = (r, m2)" by force
  have "r = Inl e"
    using assms Inr ins com commit_used[of pf env m1 w1 _ m2] insert_repeat_used[OF ins]
    by (cases r) (auto simp: flood_send_def WriteTx_drop_def)
  with Inr ins com show ?thesis by (auto simp: send_call_panics_def)
qed (use assms in \<open>simp add: flood_send_def send_call_panics_def\<close>)

lemma completer_step_panics:
  assumes "completer_step S pf batch tot env env' sh th = Inl e" and "length (cq_log_batch sh) = 33"
  shows "pf = Debug \<and> (\<exists>b. cp_pc th = CReap b \<and> reap_call_panics pf env env' (sh_mem sh) (cp_queue th) b e)"
proof -
  have at: "pf = Debug \<and> (\<exists>b. cp_pc th = CReap b)" using assms
    by (cases pf) (auto simp: completer_step_def log_atomic_eq res_simps split: comp_pc.splits if_splits)
  then obtain b where b: "cp_pc th = CReap b" by blast
  with assms(1) have "flood_reap pf env env' (sh_mem sh) (cp_queue th) b = Inl e"
    by (auto simp: completer_step_def res_simps)
  with at b flood_reap_panics show ?thesis by blast
qed

lemma sender_step_panics:
  assumes step: "sender_step S pf batch tot desc env sh th = Inl e" and room: "sent_reserved sh \<le> tot"
    and "send_ok (sd_pc th)" and "length (tx_log_batch sh) = 33"
  shows "pf = Debug \<and> ((\<exists>b. sd_pc th = SSend b \<and> send_call_panics pf env (sh_mem sh) (sd_tx th) b desc e) \<or>
    (\<exists>b n. sd_pc th = SWake b n) \<and> 2 ^ 32 - 16 \<le> unat (sd_threshold th))"
proof (cases "sd_pc th")
  case SReserve
  with step share_fits(2)[where batch = batch, OF room] show ?thesis
    by (simp add: sender_step_def Let_def)
next
  case (SSend b)
  with step have "flood_send pf env (sh_mem sh) (sd_tx th) b desc = Inl e"
    by (auto simp: sender_step_def res_simps)
  moreover from this have "pf = Debug" by (cases pf) simp_all
  ultimately show ?thesis using SSend flood_send_panics by blast
next
  case (SWake b n)
  with step show ?thesis by (auto simp: sender_step_def res_simps add_chk_def WAKE_THRESHOLD_def split: if_splits)
qed (use assms in \<open>cases pf; auto simp: sender_step_def log_atomic_eq res_simps sub_chk_def split: if_splits\<close>)+

end
