(* ===== verification/FloodMain.thy ===== *)
theory FloodMain
  imports FloodRun
begin

text \<open>
  The client \<open>flood\<close> as a whole: what its set-up leaves, that it sends and reaps every packet and ends,
  and what its command line can make of it.
\<close>

subsection \<open>What the set-up leaves\<close>

lemma unwrap_eq_Ok [res_simps]: "unwrap x = (Ok a, s) \<longleftrightarrow> x = (Ok a, s)"
  by (cases x; cases "fst x") (auto simp: unwrap_def)

lemma assert_no_rx_eq_Ok:
  "assert_no_rx S pf rxtx p = (Ok (), p1) \<longleftrightarrow> (\<exists>e. User_map_rx S pf rxtx p = (Err e, p1))"
  by (auto simp: assert_no_rx_def split: prod.splits outcome.splits)

lemma on_os_eq_Ok: "on_os f p = (Ok a, p1) \<Longrightarrow> \<exists>k. f (os p) = (Ok a, k) \<and> p1 = p\<lparr>os := k\<rparr>"
  by (auto simp: on_os_def split: prod.splits)

lemma fq_cq_comp_map:
  assumes "Umem_fq_cq S pf u s p = (Ok dq, p')"
  obtains fd k k1 where "XskRing_map S pf fd (mo_cr (smo_inner (fcq_map (dq_fcq dq))))
      (complete_size (umem_config u)) 8 XDP_UMEM_PGOFF_COMPLETION_RING k =
    (Ok (cons_inner (fcq_cons (dq_fcq dq)), cons_mmap_addr (fcq_cons (dq_fcq dq))), k1)"
proof -
  obtain p1 where "fq_cq_rings S pf u s p1 = (Ok dq, p')"
    using assms by (auto simp: Umem_fq_cq_def Let_def split: prod.splits if_splits)
  then obtain fd map1 cons q1 q2 prod where comp: "on_os (RingCons_comp S pf fd map1 (complete_size (umem_config u))) q1 = (Ok cons, q2)"
    and dq: "dq = \<lparr>dq_fcq = \<lparr>fcq_prod = prod, fcq_cons = cons, fcq_map = map1\<rparr>,
       dq_socket = \<lparr>sock_info = sock_info s, sock_fd = sock_fd s\<rparr>, dq_devices = umem_devices u\<rparr>"
    by (auto simp: fq_cq_rings_def Let_def res_simps)
  obtain k where "RingCons_comp S pf fd map1 (complete_size (umem_config u)) (os q1) = (Ok cons, k)"
    using on_os_eq_Ok[OF comp] by blast
  then obtain r where r: "XskRing_map S pf fd (mo_cr (smo_inner map1)) (complete_size (umem_config u)) 8
      XDP_UMEM_PGOFF_COMPLETION_RING (os q1) = (r, k)"
    and "Ok cons = map_outcome (\<lambda>(inner, addr). \<lparr>cons_inner = inner, cons_mmap_addr = addr\<rparr>) r"
    by (auto simp: RingCons_comp_def apfst_def map_prod_def split: prod.splits)
  then have "r = Ok (cons_inner cons, cons_mmap_addr cons)" by (cases r) auto
  with r dq show thesis by (intro that[of fd "os q1" k]) simp
qed

lemma Umem_new_config:
  "Umem_new S pf config area p = (Ok u, p') \<Longrightarrow> umem_config u = config \<and> umem_area u = area"
  by (auto simp: Umem_new_def Let_def res_simps case_prod_unfold split: if_splits sum.splits bool.splits)

lemma map_tx_map:
  assumes "User_map_tx S pf us p = (Ok tx, p')" and "tx_size (user_config us) = Some n"
  obtains fd k1 where "XskRing_map S pf fd (mo_tx (smo_inner (user_map us))) n 16 XDP_PGOFF_TX_RING (os p) =
    (Ok (prod_inner (tx_ring tx), prod_mmap_addr (tx_ring tx)), k1)"
proof -
  let ?fd = "arc_get p (sock_fd (user_socket us))"
  obtain r k1 where "XskRing_map S pf ?fd (mo_tx (smo_inner (user_map us))) n 16 XDP_PGOFF_TX_RING (os p) = (r, k1)"
    by (metis surj_pair)
  with assms show thesis
    by (intro that[of ?fd k1]) (cases r; auto simp: User_map_tx_def on_os_def RingProd_tx_def)
qed

lemma rx_tx_config: "Umem_rx_tx S pf s config p = (Ok us, p') \<Longrightarrow> user_config us = config"
  by (auto simp: Umem_rx_tx_def Let_def res_simps)

text \<open>
  What the kernel is relied on for: offsets as it documents them, for the sizes asked for, and
  mappings that neither run over the end of the address space nor overlap.
\<close>

abbreviation su_txr :: "flood_setup \<Rightarrow> XskRing" where
  "su_txr su \<equiv> prod_inner (tx_ring (su_tx su))"

abbreviation su_cqr :: "flood_setup \<Rightarrow> XskRing" where
  "su_cqr su \<equiv> cons_inner (fcq_cons (dq_fcq (su_device su)))"

definition mapped_well :: "flood_setup \<Rightarrow> bool" where
  "mapped_well su \<longleftrightarrow>
     offsets_ok 16 (push_bit 14 1) (mo_tx (smo_inner (user_map (su_rxtx su)))) \<and>
     offsets_ok 8 (push_bit 11 1) (mo_cr (smo_inner (fcq_map (dq_fcq (su_device su))))) \<and>
     unat (fst (prod_mmap_addr (tx_ring (su_tx su)))) + unat (snd (prod_mmap_addr (tx_ring (su_tx su)))) < 2 ^ 64 \<and>
     unat (fst (cons_mmap_addr (fcq_cons (dq_fcq (su_device su))))) +
       unat (snd (cons_mmap_addr (fcq_cons (dq_fcq (su_device su))))) < 2 ^ 64 \<and>
     apart (map_prod id unat (prod_mmap_addr (tx_ring (su_tx su))))
       (map_prod id unat (cons_mmap_addr (fcq_cons (dq_fcq (su_device su)))))"

lemma flood_set_up_rings:
  assumes "flood_set_up S pf args area p = (Ok su, p1)" and "mapped_well su"
  shows "ring_pair (su_txr su) (su_cqr su)"
proof -
  note well = assms(2)[unfolded mapped_well_def]
  let ?i = "prod_inner (tx_ring (su_tx su))" and ?a = "prod_mmap_addr (tx_ring (su_tx su))"
  let ?j = "cons_inner (fcq_cons (dq_fcq (su_device su)))" and ?b = "cons_mmap_addr (fcq_cons (dq_fcq (su_device su)))"
  obtain umem q1 sock q3 q4 q5 q6 q7 where new: "Umem_new S pf UmemConfig_default area p = (Ok umem, q1)"
    and fq: "Umem_fq_cq S pf umem sock q3 = (Ok (su_device su), q4)"
    and rt: "Umem_rx_tx S pf sock flood_config q4 = (Ok (su_rxtx su), q5)"
    and tx: "User_map_tx S pf (su_rxtx su) q6 = (Ok (su_tx su), q7)"
    using assms(1) by (auto simp: flood_set_up_def res_simps)
  have cs: "complete_size (umem_config umem) = push_bit 11 1"
    using Umem_new_config[OF new] by (simp add: UmemConfig_default_def)
  have ts: "tx_size (user_config (su_rxtx su)) = Some (push_bit 14 1)"
    using rx_tx_config[OF rt] by (simp add: flood_config_def)
  obtain fd k1 where mi: "XskRing_map S pf fd (mo_tx (smo_inner (user_map (su_rxtx su)))) (push_bit 14 1) 16
      XDP_PGOFF_TX_RING (os q6) = (Ok (?i, ?a), k1)"
    by (rule map_tx_map[OF tx ts])
  obtain fd' k' k1' where mj: "XskRing_map S pf fd' (mo_cr (smo_inner (fcq_map (dq_fcq (su_device su))))) (push_bit 11 1) 8
      XDP_UMEM_PGOFF_COMPLETION_RING k' = (Ok (?j, ?b), k1')"
    by (rule fq_cq_comp_map[OF fq, unfolded cs])
  have pow: "is_power_of_two (push_bit 14 1)" "is_power_of_two (push_bit 11 1)"
    by (auto simp: is_power_of_two_iff push_bit_eq_mult intro: exI[of _ 14] exI[of _ 11])
  have oi: "offsets_ok (unat (16 :: u64)) (push_bit 14 1) (mo_tx (smo_inner (user_map (su_rxtx su))))"
    and oj: "offsets_ok (unat (8 :: u64)) (push_bit 11 1) (mo_cr (smo_inner (fcq_map (dq_fcq (su_device su)))))"
    using well by simp_all
  have ai: "unat (fst ?a) + unat (snd ?a) < 2 ^ 64" and aj: "unat (fst ?b) + unat (snd ?b) < 2 ^ 64"
    using well by simp_all
  note li = map_layout[OF mi oi pow(1) ai] and lj = map_layout[OF mj oj pow(2) aj]
  have ap: "apart (fst ?a, unat (snd ?a)) (fst ?b, unat (snd ?b))" using well by (simp add: map_prod_def case_prod_unfold)
  have "rings_apart 16 ?i 8 ?j"
    using apart_within[OF ap] li(3-5) lj(3-5) by (simp add: rings_apart_def ring_regions_def)
  with li(1,2) lj(1,2) show ?thesis by (simp add: ring_pair_def)
qed

text \<open>The rings as mapped, with nothing in them yet.\<close>

definition rings_quiet :: "mem \<Rightarrow> XskRing \<Rightarrow> XskRing \<Rightarrow> bool" where
  "rings_quiet m i j \<longleftrightarrow>
     kprod m i = cached_producer i \<and> kcons m i = cached_producer i \<and> cached_consumer i = cached_producer i \<and>
     kprod m j = cached_producer j \<and> kcons m j = cached_producer j \<and> cached_consumer j = cached_producer j"

lemma quiet_both_ok:
  assumes "ring_pair i j" and "rings_quiet m i j"
  shows "both_ok (kprod m i) (kprod m j) desc m i j 0 0"
proof -
  note wf = ring_pairD[OF assms(1)] and q = assms(2)[unfolded rings_quiet_def]
  have "prod_inv m i" using q wf(1) by (simp add: prod_inv_def Let_def cdist_def)
  moreover have "cons_inv m j" using q wf(2) by (simp add: cons_inv_def Let_def)
  moreover have "queue dec_desc 16 m i = []" using q by (simp add: queue_def in_flight_def)
  ultimately show ?thesis
    using q wf by (simp add: both_ok_def staged_def taken_def tally_def in_flight_def)
qed

lemma flood_init_inv:
  assumes "ring_pair (su_txr su) (su_cqr su)" and "rings_quiet (su_mem su) (su_txr su) (su_cqr su)"
  shows "flood_inv (su_txr su) (cached_producer (su_txr su)) (su_cqr su) (cached_consumer (su_cqr su)) tot desc
    (flood_init p su)"
  using quiet_both_ok[OF assms] assms(2) by (simp add: flood_inv_def flood_init_def rings_quiet_def)

lemma length_ARP [simp]: "length ARP = 42"
  by (simp add: ARP_def)

subsection \<open>Properties\<close>

text \<open>
  C7. In a release build \<open>flood\<close> ends and has sent and reaped exactly \<open>total\<close> packets, if its set-up
  succeeds on rings as the kernel gives them, the batch size is not 0, and the kernel keeps
  the law of both rings and is prompt infinitely often: when completions are outstanding and it is not
  left waiting for a wake-up it asked for, it completes one.
\<close>

theorem flood_main_completes:
  fixes su :: flood_setup
  defines "i \<equiv> su_txr su" and "j \<equiv> su_cqr su"
  assumes "flood_set_up S Release args area p = (Ok su, p1)" and "mapped_well su"
    and "rings_quiet (su_mem su) i j"
    and "flood_batch args \<noteq> 0"
    and "\<And>n. lawful_round i (cached_producer i) j (cached_consumer j) (ks n)"
    and "\<And>n. \<exists>k\<ge>n. prompt_round i (cached_producer i) j (cached_consumer j) (ks k)"
  shows "\<exists>st. flood_main S Release args area ks p = Some (Inr st) \<and>
    fl_sent st = flood_total args \<and> fl_completed st = flood_total args \<and>
    kprod (fl_mem st) i = cached_producer i + flood_total args \<and>
    kcons (fl_mem st) j = cached_consumer j + flood_total args \<and>
    in_flight (fl_mem st) i = 0 \<and> in_flight (fl_mem st) j = 0"
proof -
  have pair: "ring_pair i j" unfolding i_def j_def by (rule flood_set_up_rings[OF assms(3,4)])
  have init: "flood_inv i (cached_producer i) j (cached_consumer j) (flood_total args) (su_desc su) (flood_init p1 su)"
    using flood_init_inv[OF pair[unfolded i_def j_def] assms(5)[unfolded i_def j_def]] by (simp add: i_def j_def)
  from flood_loop_ends[where ks = ks, OF assms(7,6,8) init]
  obtain st where run: "flood_loop S Release (flood_batch args) (flood_total args) (su_desc su) ks 0 (flood_init p1 su) =
      Some (Inr st)"
    and inv: "flood_inv i (cached_producer i) j (cached_consumer j) (flood_total args) (su_desc su) st"
    and fin: "flood_done (flood_total args) st" by blast
  have "tally i (cached_producer i) j (cached_consumer j) (fl_mem st) (unat (fl_sent st)) (unat (fl_completed st))"
    using inv both_okD(8) by (fastforce simp: flood_inv_def elim!: view_ofE)
  with fin have "cdist (cached_producer i) (kprod (fl_mem st) i) = unat (flood_total args)"
    "cdist (cached_consumer j) (kcons (fl_mem st) j) = unat (flood_total args)"
    "in_flight (fl_mem st) i = 0" "in_flight (fl_mem st) j = 0"
    by (auto simp: tally_def flood_done_def)
  with cdist_of_nat[of "cached_producer i" "kprod (fl_mem st) i"] cdist_of_nat[of "cached_consumer j" "kcons (fl_mem st) j"]
    assms(3) run fin show ?thesis
    by (auto simp: flood_main_def flood_done_def)
qed

lemma packet_length:
  fixes n :: u32
  shows "add_chk pf (42 :: u32) (saturating_sub n 42) = Inr (if n < 42 then 42 else n)"
proof (cases "n < 42")
  case False
  then have le: "42 \<le> n" by simp
  then have "unat (n - 42) = unat n - 42" using unat_sub[of "42 :: u32" n] by simp
  then show ?thesis
    using False unat_u32[of n] le by (simp add: saturating_sub_def add_chk_def word_le_nat_alt)
qed (simp add: saturating_sub_def add_chk_def)

lemma prepare_buffer_eq:
  "prepare_buffer pf off buf len m =
    (if unat (snd buf) < 42 then Inl OutOfRange
     else let n = (case len of None \<Rightarrow> 0 | Some l \<Rightarrow> l) in
       Inr (\<lparr>desc_addr = off, desc_len = if n < 42 then 42 else n, desc_options = 0\<rparr>, store_bytes m (fst buf) ARP))"
  by (simp add: prepare_buffer_def packet_length Let_def)

text \<open>The client on the demonstration system.\<close>

definition demo_args :: Args where
  "demo_args = \<lparr>arg_ifname = [108, 111], arg_queue_id = Some 1, arg_batch = None, arg_total = Some 5000,
     arg_length = Some 64\<rparr>"

lemmas demo_flood = flood_set_up_def demo_args_def demo_run unwrap_def Umem_new_def is_page_aligned_def
  DeviceControl_new_def SocketFd_new_def arc_new_def arc_get_def arc_clone_def Umem_configure_def
  ifinfo_def ifinfo_of_def IfInfo_from_name_def IfInfo_invalid_def IfInfo_set_queue_def to_bytes_with_nul_def
  Socket_with_shared_def Socket_with_xdp_socket_def Umem_rx_tx_def Umem_configure_rt_def flood_config_def
  assert_no_rx_def User_map_rx_def User_map_tx_def RingProd_tx_def Umem_bind_def Umem_bind_at_def
  XDP_PGOFF_TX_RING_def XDP_TX_RING_def
  SOL_XDP_def SOL_SOCKET_def SO_NETNS_COOKIE_def IFNAMSIZ_def codec prepare_frame_def Umem_frame_def checked_sub_def
  prepare_buffer_eq

lemma demo_heads:
  assumes "69674 \<le> unat a" and "unat a + 4 \<le> 2 ^ 64"
  shows "load_u32 (store_bytes (\<lambda>_. 0) 69632 ARP) a = 0"
  using assms by (subst load_u32_store_bytes) (auto simp: apart_def fits_def zero_heads)

abbreviation demo_start :: "demo proc" where
  "demo_start \<equiv> \<lparr>os = demo_kernel [], fds = [], ctls = []\<rparr>"

lemma demo_set_up:
  "\<exists>su p1. flood_set_up demo_libc Release demo_args (65536, 1048576) demo_start = (Ok su, p1) \<and>
    mo_tx (smo_inner (user_map (su_rxtx su))) = demo_ring \<and>
    mo_cr (smo_inner (fcq_map (dq_fcq (su_device su)))) = demo_ring \<and>
    prod_mmap_addr (tx_ring (su_tx su)) = (2147487744, 262336) \<and>
    cons_mmap_addr (fcq_cons (dq_fcq (su_device su))) = (6442455040, 16576) \<and>
    rings_quiet (su_mem su) (prod_inner (tx_ring (su_tx su))) (cons_inner (fcq_cons (dq_fcq (su_device su))))"
  by (simp add: demo_flood demo_offsets_def demo_ring_def rings_quiet_def demo_heads zero_heads
      dec_enc_offsets[of _ "[]", simplified])

definition steady :: "env \<Rightarrow> nat \<Rightarrow> kround" where
  "steady env n = \<lparr>kr_start = env, kr_submit = env, kr_flags = env, kr_wait = (\<lambda>_. env), kr_peek = env,
     kr_release = env\<rparr>"

lemma steady_lawful:
  "ring_pair i j \<Longrightarrow> lawful_round i p0 j c0 (steady (kernel_pass i p0 j c0) n)"
  by (simp add: lawful_round_def steady_def kernel_pass_env)

lemma steady_prompt:
  "ring_pair i j \<Longrightarrow> prompt_round i p0 j c0 (steady (kernel_pass i p0 j c0) n)"
  using kernel_pass_prompt by (fastforce simp: prompt_round_def steady_def)

lemma demo_ready:
  obtains su p1 where "flood_set_up demo_libc Release demo_args (65536, 1048576) demo_start = (Ok su, p1)"
    and "mapped_well su" and "ring_pair (su_txr su) (su_cqr su)"
    and "rings_quiet (su_mem su) (su_txr su) (su_cqr su)"
proof -
  obtain su p1 where run: "flood_set_up demo_libc Release demo_args (65536, 1048576) demo_start = (Ok su, p1)"
    and offs: "mo_tx (smo_inner (user_map (su_rxtx su))) = demo_ring"
      "mo_cr (smo_inner (fcq_map (dq_fcq (su_device su)))) = demo_ring"
    and addr: "prod_mmap_addr (tx_ring (su_tx su)) = (2147487744, 262336)"
      "cons_mmap_addr (fcq_cons (dq_fcq (su_device su))) = (6442455040, 16576)"
    and quiet: "rings_quiet (su_mem su) (su_txr su) (su_cqr su)"
    using demo_set_up by blast
  have well: "mapped_well su"
    by (simp add: mapped_well_def offs addr offsets_ok_def demo_ring_def apart_def)
  from that[OF run well flood_set_up_rings[OF run well] quiet] show thesis .
qed

theorem flood_main_completes_witness:
  "\<exists>ks st. flood_main demo_libc Release demo_args (65536, 1048576) ks demo_start = Some (Inr st) \<and>
    fl_sent st = 5000 \<and> fl_completed st = 5000"
proof (rule demo_ready)
  fix su p1
  assume ready: "flood_set_up demo_libc Release demo_args (65536, 1048576) demo_start = (Ok su, p1)"
    "mapped_well su" and pair: "ring_pair (su_txr su) (su_cqr su)"
    and quiet: "rings_quiet (su_mem su) (su_txr su) (su_cqr su)"
  have "flood_batch demo_args \<noteq> 0" by (simp add: flood_batch_def demo_args_def)
  from flood_main_completes[OF ready quiet this steady_lawful[OF pair]] steady_prompt[OF pair]
  show ?thesis by (fastforce simp: flood_total_def demo_args_def)
qed

text \<open>
  C8. In a release build no round of \<open>flood\<close> panics, whatever the kernel does within its law and
  whether or not it makes progress: every round keeps both rings in order, counts exactly the packets
  committed and the completions reaped, sends and reaps at most a batch, never sends more than
  \<open>total\<close>, and leaves only its one descriptor for the kernel to find.
\<close>

theorem flood_round_sound:
  assumes "flood_inv i p0 j c0 tot desc st" and "lawful_round i p0 j c0 r"
  shows "\<exists>st'. flood_round S Release batch tot desc r st = Inr st' \<and> flood_inv i p0 j c0 tot desc st' \<and>
    cdist p0 (kprod (fl_mem st') i) = unat (fl_sent st') \<and> cdist c0 (kcons (fl_mem st') j) = unat (fl_completed st') \<and>
    fl_sent st \<le> fl_sent st' \<and> fl_sent st' \<le> tot \<and> unat (fl_sent st') \<le> unat (fl_sent st) + unat batch \<and>
    fl_completed st \<le> fl_completed st' \<and> fl_completed st' \<le> fl_sent st' \<and>
    unat (fl_completed st') \<le> unat (fl_completed st) + unat batch \<and>
    set (queue dec_desc 16 (fl_mem st') i) \<subseteq> {desc}"
proof (rule flood_round_ok[OF assms, of S batch])
  fix st'
  assume run: "flood_round S Release batch tot desc r st = Inr st'" and inv: "flood_inv i p0 j c0 tot desc st'"
    and grow: "fl_sent st \<le> fl_sent st'" "fl_completed st \<le> fl_completed st'"
      "unat (fl_sent st') \<le> unat (fl_sent st) + unat batch"
      "unat (fl_completed st') \<le> unat (fl_completed st) + unat batch"
  have "tally i p0 j c0 (fl_mem st') (unat (fl_sent st')) (unat (fl_completed st'))"
    and "set (queue dec_desc 16 (fl_mem st') i) \<subseteq> {desc}"
    using inv both_okD(8,9) by (fastforce simp: flood_inv_def elim!: view_ofE)+
  with run inv grow flood_inv_le[OF inv] show ?thesis by (auto simp: tally_def word_le_nat_alt)
qed

theorem flood_round_sound_witness:
  "\<exists>su p1 r st'. flood_set_up demo_libc Release demo_args (65536, 1048576) demo_start = (Ok su, p1) \<and>
    flood_round demo_libc Release 32 5000 (su_desc su) r (flood_init p1 su) = Inr st' \<and> fl_sent st' \<le> 32"
proof (rule demo_ready)
  fix su p1
  assume run: "flood_set_up demo_libc Release demo_args (65536, 1048576) demo_start = (Ok su, p1)"
    and pair: "ring_pair (su_txr su) (su_cqr su)"
    and quiet: "rings_quiet (su_mem su) (su_txr su) (su_cqr su)"
  from flood_round_sound[OF flood_init_inv[where tot = 5000 and desc = "su_desc su" and p = p1, OF pair quiet]
      steady_lawful[where n = 0, OF pair], where S = demo_libc and batch = 32]
  obtain st' where "flood_round demo_libc Release 32 5000 (su_desc su)
      (steady (kernel_pass (su_txr su) (cached_producer (su_txr su)) (su_cqr su) (cached_consumer (su_cqr su))) 0)
      (flood_init p1 su) = Inr st'"
    and "unat (fl_sent st') \<le> unat (fl_sent (flood_init p1 su)) + unat (32 :: u32)" by blast
  with run show ?thesis by (auto simp: flood_init_def word_le_nat_alt)
qed

text \<open>
  C35. With a batch size of 0, which the command line accepts, \<open>flood\<close> in a release build never ends
  unless it has nothing to send, even if the kernel is prompt.
\<close>

theorem flood_zero_batch_hangs:
  fixes su :: flood_setup
  defines "i \<equiv> su_txr su" and "j \<equiv> su_cqr su"
  assumes "flood_set_up S Release args area p = (Ok su, p1)" and "mapped_well su"
    and "rings_quiet (su_mem su) i j"
    and "arg_batch args = Some 0" and "flood_total args \<noteq> 0"
    and "\<And>n. lawful_round i (cached_producer i) j (cached_consumer j) (ks n)"
  shows "flood_main S Release args area ks p = None"
proof (rule ccontr)
  assume "flood_main S Release args area ks p \<noteq> None"
  then obtain r where "flood_loop S Release 0 (flood_total args) (su_desc su) ks 0 (flood_init p1 su) = Some r"
    using assms(3,6) by (auto simp: flood_main_def flood_batch_def)
  moreover have pair: "ring_pair i j" unfolding i_def j_def by (rule flood_set_up_rings[OF assms(3,4)])
  have "flood_inv i (cached_producer i) j (cached_consumer j) (flood_total args) (su_desc su) (flood_init p1 su)"
    using flood_init_inv[OF pair[unfolded i_def j_def] assms(5)[unfolded i_def j_def]] by (simp add: i_def j_def)
  ultimately have "flood_done (flood_total args) (flood_init p1 su)"
    using flood_loop_zero assms(8) by blast
  with assms(7) show False by (simp add: flood_done_def flood_init_def)
qed

theorem flood_zero_batch_hangs_witness:
  "\<exists>ks. flood_main demo_libc Release (demo_args\<lparr>arg_batch := Some 0\<rparr>) (65536, 1048576) ks demo_start = None"
proof (rule demo_ready)
  fix su p1
  assume run: "flood_set_up demo_libc Release demo_args (65536, 1048576) demo_start = (Ok su, p1)"
    and well: "mapped_well su" and pair: "ring_pair (su_txr su) (su_cqr su)"
    and quiet: "rings_quiet (su_mem su) (su_txr su) (su_cqr su)"
  have "flood_set_up demo_libc Release (demo_args\<lparr>arg_batch := Some 0\<rparr>) (65536, 1048576) demo_start = (Ok su, p1)"
    using run by (simp add: flood_set_up_def ifinfo_def[abs_def])
  from flood_zero_batch_hangs[OF this well quiet _ _ steady_lawful[OF pair]] show ?thesis
    by (auto simp: flood_total_def demo_args_def)
qed

text \<open>
  In either build the packet is the 42 bytes of the constant at the start of the frame, whose
  descriptor has the frame's offset and the length asked for, at least 42; a frame too short for
  the constant panics.  The length is not checked against the frame: a longer one yields a descriptor
  that runs over it, which \<open>as_xdp_with_len\<close> would refuse in a debug build.
\<close>

theorem prepare_frame_spec:
  "case Umem_frame pf u idx of
     Inl e \<Rightarrow> prepare_frame pf u idx len m = Inl e
   | Inr None \<Rightarrow> prepare_frame pf u idx len m = Inl Unwrapped
   | Inr (Some fr) \<Rightarrow>
       let n = (case len of None \<Rightarrow> 42 | Some l \<Rightarrow> max 42 l) in
       if unat (snd (chunk_addr fr)) < 42 then prepare_frame pf u idx len m = Inl OutOfRange
       else prepare_frame pf u idx len m =
           Inr (\<lparr>desc_addr = chunk_offset fr, desc_len = n, desc_options = 0\<rparr>,
             store_bytes m (fst (chunk_addr fr)) ARP) \<and>
         (UmemChunk_as_xdp_with_len Debug fr n = Inl AssertFailed) = (ucast (snd (chunk_addr fr)) < n)"
  by (auto simp: prepare_frame_def prepare_buffer_eq Let_def UmemChunk_as_xdp_with_len_def max_def
      split: sum.splits option.splits)

text \<open>
  The statistics arrays are never indexed out of range in either build, for any batch: the
  bucket is 0 for no packet and \<open>k\<close> for \<open>2 ^ (k - 1)\<close> to \<open>2 ^ k - 1\<close> packets.  The one panic left,
  in a debug build, is a bucket at its \<open>i32\<close> maximum.
\<close>

theorem log_batch_bucket:
  assumes "length log = 33"
  shows "\<exists>k<33. log_batch pf n log =
      (if pf = Debug \<and> log ! k = 0x7FFFFFFF then Inl ArithOverflow else Inr (log[k := log ! k + 1])) \<and>
    unat n < 2 ^ k \<and> (if n = 0 then k = 0 else 2 ^ (k - 1) \<le> unat n)"
proof (intro exI[of _ "bit_len (unat n)"] conjI)
  show lt: "bit_len (unat n) < 33" using unat_u32[of n] bit_len_le[of "unat n" 32] by simp
  have "sub_chk pf (32 :: u64) (ucast (leading_zeros n)) = Inr (32 - ucast (leading_zeros n))"
    by (rule sub_chk_fits[OF log_index_fits])
  with lt assms show "log_batch pf n log =
      (if pf = Debug \<and> log ! bit_len (unat n) = 0x7FFFFFFF then Inl ArithOverflow
       else Inr (log[bit_len (unat n) := log ! bit_len (unat n) + 1]))"
    by (simp add: log_batch_def log_index incr_i32_def)
  show "unat n < 2 ^ bit_len (unat n)" by (rule bit_len_upper)
  show "if n = 0 then bit_len (unat n) = 0 else 2 ^ (bit_len (unat n) - 1) \<le> unat n"
    using bit_len_lower[of "unat n"] by (simp add: bit_len.simps[of 0] unsigned_eq_0_iff)
qed

theorem log_batch_bucket_witness:
  "\<exists>k<33. log_batch Debug 1000 (replicate 33 0) = Inr ((replicate 33 0)[k := 1]) \<and> (1000 :: nat) < 2 ^ k"
  using log_batch_bucket[of "replicate 33 0" Debug 1000] by (auto simp: nth_replicate)

end
