(* ===== verification/MtBinds.thy ===== *)
theory MtBinds
  imports FloodMtRun FloodMain
begin

text \<open>
  Which calls of \<open>bind\<close> the set-up of \<open>flood-mt\<close> makes.  The operating system is taken to keep a record of
  them, which nothing else touches; the set-up's other operations leave the record alone, and its second loop
  adds one entry for each socket.
\<close>

subsection \<open>The record\<close>

text \<open>An entry has the descriptor, the address in bytes, and what the call returned.\<close>

type_synonym bind_call = "c_int \<times> u8 list \<times> c_int"

definition records_binds :: "'k libc \<Rightarrow> ('k \<Rightarrow> bind_call list) \<Rightarrow> bool" where
  "records_binds S binds \<longleftrightarrow>
     (\<forall>fd bs k. binds (snd (sys_bind S fd bs k)) = binds k @ [(fd, bs, fst (sys_bind S fd bs k))]) \<and>
     (\<forall>d t pr k. binds (snd (sys_socket S d t pr k)) = binds k) \<and>
     (\<forall>fd lv opt bs n k. binds (snd (snd (snd (sys_getsockopt S fd lv opt bs n k)))) = binds k) \<and>
     (\<forall>fd lv opt bs k. binds (snd (sys_setsockopt S fd lv opt bs k)) = binds k) \<and>
     (\<forall>a len pr fl fd off k. binds (snd (sys_mmap S a len pr fl fd off k)) = binds k) \<and>
     (\<forall>bs k. binds (snd (sys_if_nametoindex S bs k)) = binds k)"

lemma demo_records: "records_binds demo_libc d_binds"
  by (simp add: records_binds_def demo_libc_def Let_def)

lemma records_bindsD:
  assumes "records_binds S binds"
  shows "sys_bind S fd bs k = (r, k1) \<Longrightarrow> binds k1 = binds k @ [(fd, bs, r)]"
    and "sys_socket S d t pr k = (x, k1) \<Longrightarrow> binds k1 = binds k"
    and "sys_getsockopt S fd lv opt bs n k = (r, bs', n', k1) \<Longrightarrow> binds k1 = binds k"
    and "sys_setsockopt S fd lv opt bs k = (r, k1) \<Longrightarrow> binds k1 = binds k"
    and "sys_mmap S a len pr fl fd off k = (u, k1) \<Longrightarrow> binds k1 = binds k"
    and "sys_if_nametoindex S nm k = (ix, k1) \<Longrightarrow> binds k1 = binds k"
  using assms unfolding records_binds_def by (metis fst_conv snd_conv)+

subsection \<open>What leaves it alone\<close>

lemma on_os_result: "on_os f p = (a, p') \<longleftrightarrow> (\<exists>k. f (os p) = (a, k) \<and> p' = p\<lparr>os := k\<rparr>)"
  by (auto simp: on_os_def split: prod.splits)

lemma arc_get_clone [simp]: "arc_get (arc_clone a p) b = arc_get p b"
  by (cases "a < length (fds p) \<and> b = a") (auto simp: arc_get_def arc_clone_def nth_list_update list_update_beyond)

lemma arc_get_os [simp]: "arc_get (p\<lparr>os := k\<rparr>) a = arc_get p a"
  by (simp add: arc_get_def)

lemma map_outcome_Ok: "apfst (map_outcome f) x = (Ok a, k) \<longleftrightarrow> (\<exists>b. x = (Ok b, k) \<and> a = f b)"
  by (cases x; cases "fst x") auto

lemma XskRing_map_binds:
  assumes "records_binds S binds" and "XskRing_map S pf fd off n sz offset k = (r, k1)"
  shows "binds k1 = binds k"
  using assms(2) by (auto simp: XskRing_map_def dest: records_bindsD(5)[OF assms(1)] split: sum.splits prod.splits if_splits)

lemma ring_map_binds:
  assumes "records_binds S binds"
  shows "RingProd_fill S pf fd off n k = (r, k1) \<Longrightarrow> binds k1 = binds k"
    and "RingCons_comp S pf fd off n k = (q, k1) \<Longrightarrow> binds k1 = binds k"
    and "RingProd_tx S pf fd off n k = (r, k1) \<Longrightarrow> binds k1 = binds k"
    and "RingCons_rx S pf fd off n k = (q, k1) \<Longrightarrow> binds k1 = binds k"
  by (auto simp: RingProd_fill_def RingCons_comp_def RingProd_tx_def RingCons_rx_def apfst_def map_prod_def
      dest!: XskRing_map_binds[OF assms] split: prod.splits)

lemma option_binds:
  assumes "records_binds S binds"
  shows "setsockopt_or S fd opt bs k = (r, k1) \<Longrightarrow> binds k1 = binds k"
    and "SocketFd_new S k = (f, k1) \<Longrightarrow> binds k1 = binds k"
    and "SocketMmapOffsets_new S pf fd k = (mo, k1) \<Longrightarrow> binds k1 = binds k"
    and "IfInfo_from_name S nm info k = (u, info1, k1) \<Longrightarrow> binds k1 = binds k"
proof -
  show "setsockopt_or S fd opt bs k = (r, k1) \<Longrightarrow> binds k1 = binds k"
    by (auto simp: setsockopt_or_def dest: records_bindsD(4)[OF assms] split: prod.splits if_splits)
  show "SocketFd_new S k = (f, k1) \<Longrightarrow> binds k1 = binds k"
    by (auto simp: SocketFd_new_def dest: records_bindsD(2)[OF assms] split: prod.splits if_splits)
  show "IfInfo_from_name S nm info k = (u, info1, k1) \<Longrightarrow> binds k1 = binds k"
    by (auto simp: IfInfo_from_name_def Let_def dest: records_bindsD(6)[OF assms] split: prod.splits if_splits)
  have "SocketMmapOffsets_set_from_fd S pf fd this k = (x, t, k2) \<Longrightarrow> binds k2 = binds k" for this x t k2
    by (auto simp: SocketMmapOffsets_set_from_fd_def Let_def dest!: records_bindsD(3)[OF assms]
        split: prod.splits if_splits sum.splits)
  then show "SocketMmapOffsets_new S pf fd k = (mo, k1) \<Longrightarrow> binds k1 = binds k"
    by (auto simp: SocketMmapOffsets_new_def obind_def split: prod.splits outcome.splits)
qed

lemma configure_binds:
  assumes "records_binds S binds"
  shows "Umem_configure S fd u k = (Ok (), k1) \<Longrightarrow> binds k1 = binds k"
    and "Umem_configure_cq S fd uc k = (Ok (), k1) \<Longrightarrow> binds k1 = binds k"
    and "Umem_configure_rt S fd sc k = (Ok (), k1) \<Longrightarrow> binds k1 = binds k"
  by (auto simp: Umem_configure_def Umem_configure_cq_def Umem_configure_rt_def res_simps
      dest!: option_binds(1)[OF assms] split: option.splits)

lemma ifinfos_binds:
  assumes "records_binds S binds" and "ifinfos S q names k = (Ok infos, k1)"
  shows "binds k1 = binds k"
  using assms(2)
  by (induction names arbitrary: infos k)
    (auto simp: ifinfo_of_def res_simps dest!: option_binds(4)[OF assms(1)] split: prod.splits if_splits)

subsection \<open>The set-up before and after its second loop\<close>

lemma Umem_new_binds:
  assumes "records_binds S binds" and "Umem_new S pf config area p = (Ok u, p')"
  shows "binds (os p') = binds (os p)"
  using assms(2)
  by (auto simp: Umem_new_def DeviceControl_new_def arc_new_def Let_def res_simps on_os_result
      dest!: option_binds(2)[OF assms(1)] configure_binds(1)[OF assms(1)] split: if_splits sum.splits bool.splits)

lemma socket_binds:
  assumes "records_binds S binds"
    and "(if b then Socket_with_shared S info u p else Socket_new S info p) = (Ok s, p')"
  shows "binds (os p') = binds (os p)"
proof -
  have "Socket_with_xdp_socket S info fd q = (Ok s, p') \<Longrightarrow> binds (os p') = binds (os q)" for fd q
    by (auto simp: Socket_with_xdp_socket_def Let_def dest!: records_bindsD(3)[OF assms(1)] split: prod.splits if_splits)
  with assms(2) show ?thesis
    by (auto simp: Socket_with_shared_def Socket_new_def res_simps arc_new_def on_os_result
        dest!: option_binds(2)[OF assms(1)] split: if_splits)
qed

lemma fq_cq_binds:
  assumes "records_binds S binds" and "Umem_fq_cq S pf u s p = (Ok dq, p')"
  shows "binds (os p') = binds (os p)"
  using assms(2)
  by (auto simp: Umem_fq_cq_def fq_cq_rings_def DeviceControl_insert_def Let_def res_simps on_os_result
      dest!: option_binds(3)[OF assms(1)] configure_binds(2)[OF assms(1)] ring_map_binds[OF assms(1)]
      split: prod.splits if_splits)

lemma rx_tx_binds:
  assumes "records_binds S binds" and "Umem_rx_tx S pf s config p = (Ok us, p')"
  shows "binds (os p') = binds (os p)"
  using assms(2)
  by (auto simp: Umem_rx_tx_def Let_def res_simps on_os_result
      dest!: option_binds(3)[OF assms(1)] configure_binds(3)[OF assms(1)])

lemma mt_open_binds:
  assumes "records_binds S binds" and "mt_open S pf u todo ds ss bs p = (Ok x, p')"
  shows "binds (os p') = binds (os p)"
  using assms(2)
proof (induction todo arbitrary: ds ss bs p)
  case (Cons item todo)
  obtain idx dev_idx info where "item = (idx, dev_idx, info)" by (metis surj_pair)
  with Cons.prems obtain sock p1 ds1 p2 us p3 where
    "(if idx = 0 then Socket_with_shared S info u p else Socket_new S info p) = (Ok sock, p1)"
    and dev: "(if idx = dev_idx then obind (unwrap (Umem_fq_cq S pf u sock p1)) (\<lambda>dq q. (Ok (ds @ [dq]), q))
       else (Ok ds, p1)) = (Ok ds1, p2)"
    and "Umem_rx_tx S pf sock mt_config p2 = (Ok us, p3)"
    and rest: "mt_open S pf u todo ds1 (ss @ [sock]) (bs @ [us]) p3 = (Ok x, p')"
    by (auto simp: res_simps)
  moreover have "binds (os p2) = binds (os p1)"
    using dev by (auto simp: res_simps dest!: fq_cq_binds[OF assms(1)] split: if_splits)
  ultimately show ?case
    using Cons.IH[OF rest] socket_binds[OF assms(1)] rx_tx_binds[OF assms(1)] by metis
qed simp

text \<open>Mapping adds owners to descriptors, which stay what they are.\<close>

lemma map_tx_binds:
  assumes "records_binds S binds" and "User_map_tx S pf us p = (Ok tx, p')"
  shows "binds (os p') = binds (os p) \<and> arc_get p' = arc_get p"
  using assms(2)
  by (auto simp: User_map_tx_def res_simps on_os_result fun_eq_iff dest!: ring_map_binds(3)[OF assms(1)]
      split: option.splits)

lemma assert_no_rx_binds:
  assumes "records_binds S binds" and "assert_no_rx S pf us p = (Ok (), p')"
  shows "binds (os p') = binds (os p) \<and> arc_get p' = arc_get p"
proof -
  from assms(2) obtain e where "User_map_rx S pf us p = (Err e, p')"
    by (auto simp: assert_no_rx_def split: prod.splits outcome.splits)
  then show ?thesis
    by (auto simp: User_map_rx_def res_simps on_os_result fun_eq_iff dest!: ring_map_binds(4)[OF assms(1)]
        split: option.splits)
qed

lemma mt_map_binds:
  assumes "records_binds S binds" and "mt_map S pf undo us txs p = (Ok x, p')"
  shows "binds (os p') = binds (os p) \<and> arc_get p' = arc_get p"
  using assms(2)
  by (induction us arbitrary: txs p)
    (auto simp: res_simps dest!: map_tx_binds[OF assms(1)] assert_no_rx_binds[OF assms(1)])

subsection \<open>The second loop\<close>

text \<open>
  The call that binds a socket: to the UMEM's own descriptor, or to that of another socket, whose number the
  address then carries.
\<close>

definition bind_entry :: "'k proc \<Rightarrow> User \<Rightarrow> ArcFd \<Rightarrow> bind_call" where
  "bind_entry p us sock = (arc_get p (sock_fd (user_socket us)), enc_sockaddr (bind_addr p us sock), 0)"

lemma bind_entry_cong: "arc_get p = arc_get q \<Longrightarrow> bind_entry p = bind_entry q"
  by (simp add: bind_entry_def[abs_def] bind_addr_def Let_def cong: if_cong)

lemma obind_Ok_unit:
  assumes "obind (unwrap x) (\<lambda>_. f) = (Ok b, t)"
  obtains s where "x = (Ok (), s)" and "f s = (Ok b, t)"
  using assms by (auto simp: obind_eq_Ok unwrap_eq_Ok)

lemma bind_at_binds:
  assumes "records_binds S binds" and "Umem_bind_at S us sock p = (Ok (), p')"
  shows "binds (os p') = binds (os p) @ [bind_entry p us sock] \<and> arc_get p' = arc_get p"
  using assms(2)
  by (auto simp: Umem_bind_at_def on_os_result bind_entry_def fun_eq_iff dest!: records_bindsD(1)[OF assms(1)]
      split: prod.splits if_splits)

lemma mt_bind_binds:
  assumes "records_binds S binds" and "mt_bind S umem todo p = (Ok (), p')"
  shows "arc_get p' = arc_get p \<and> binds (os p') = binds (os p) @
    map (\<lambda>(idx, (dev_idx, dq), us). bind_entry p us (if idx = dev_idx then umem_fd umem else sock_fd (dq_socket dq))) todo"
  using assms(2)
proof (induction todo arbitrary: p)
  case (Cons item todo)
  obtain idx dev_idx dq us where item: "item = (idx, (dev_idx, dq), us)" by (metis surj_pair)
  let ?sock = "if idx = dev_idx then umem_fd umem else sock_fd (dq_socket dq)"
  have one: "(if idx = dev_idx then Umem_bind S umem us p else DeviceQueue_bind S dq us p) = Umem_bind_at S us ?sock p"
    by (simp add: Umem_bind_def DeviceQueue_bind_def)
  obtain p1 where first: "Umem_bind_at S us ?sock p = (Ok (), p1)" and rest: "mt_bind S umem todo p1 = (Ok (), p')"
    using Cons.prems unfolding item mt_bind.simps one by (rule obind_Ok_unit)
  note b = bind_at_binds[OF assms(1) first]
  then have "arc_get p1 = arc_get p" by simp
  then have "bind_entry p1 = bind_entry p" by (rule bind_entry_cong)
  with b Cons.IH[OF rest] show ?case by (simp add: item)
qed simp

end
