(* ===== verification/FloodMtMain.thy ===== *)
theory FloodMtMain
  imports MtBinds
begin

text \<open>
  The client \<open>flood-mt\<close> as a whole: which queues its set-up brings up, what its counters account for
  in every interleaving of its threads, and what holds when all threads have ended.
\<close>

subsection \<open>The items of the set-up loops\<close>

lemma length_concat_replicate [simp]: "length (concat (replicate n xs)) = n * length xs"
  by (induction n) simp_all

lemma nth_concat_replicate:
  "i < n * length xs \<Longrightarrow> concat (replicate n xs) ! i = xs ! (i mod length xs)"
proof (induction n arbitrary: i)
  case (Suc n)
  then show ?case by (cases "i < length xs") (simp_all add: nth_append le_mod_geq)
qed simp

lemma length_cycled [simp]: "xs \<noteq> [] \<Longrightarrow> length (cycled xs n) = n"
  by (cases xs) (simp_all add: cycled_def)

lemma nth_cycled:
  assumes "i < n" and "xs \<noteq> []"
  shows "cycled xs n ! i = (i mod length xs, xs ! (i mod length xs))"
proof -
  have "0 < length xs" using assms(2) by simp
  then have "n * 1 \<le> n * length xs" by (intro mult_le_mono2) (simp add: Suc_le_eq)
  with assms(1) have "i < n * length (enumerate 0 xs)"
    by (simp only: length_enumerate mult_1_right order.strict_trans2)
  moreover have "i mod length xs < length xs" using assms(2) by simp
  ultimately show ?thesis using assms(1) by (simp add: cycled_def nth_concat_replicate nth_enumerate_eq)
qed

text \<open>The first round through the interfaces is the one that sets up device queues.\<close>

lemma own_queue:
  assumes "xs \<noteq> []"
  shows "map (snd \<circ> snd) (filter (\<lambda>(i, d, x). i = d) (enumerate 0 (cycled xs n))) = take n xs"
proof -
  let ?k = "min n (length xs)" and ?c = "cycled xs n"
  have "take ?k ?c = take ?k (enumerate 0 xs)"
    by (rule nth_equalityI) (auto simp: assms nth_cycled nth_enumerate_eq)
  then have c: "?c = take ?k (enumerate 0 xs) @ drop ?k ?c" by (metis append_take_drop_id)
  have "\<not> (\<lambda>(i, d, x). i = d) t" if t: "t \<in> set (enumerate ?k (drop ?k ?c))" for t
  proof -
    obtain i where i: "i < n - ?k" "t = (?k + i, ?c ! (?k + i))"
      using t assms by (auto simp: in_set_conv_nth nth_enumerate_eq)
    moreover have "(?k + i) mod length xs < length xs" using assms by simp
    moreover have "length xs \<le> ?k + i" using i(1) by linarith
    ultimately have "(?k + i) mod length xs \<noteq> ?k + i" by linarith
    then show ?thesis using i nth_cycled[of "?k + i" n xs] assms by simp
  qed
  then have "filter (\<lambda>(i, d, x). i = d) (enumerate ?k (drop ?k ?c)) = []"
    by (simp only: filter_empty_conv) blast
  moreover have "filter (\<lambda>(i, d, x). i = d) (enumerate 0 (take ?k (enumerate 0 xs))) =
      enumerate 0 (take ?k (enumerate 0 xs))"
    by (rule filter_True) (auto simp: in_set_enumerate_eq nth_enumerate_eq)
  moreover have "map (snd \<circ> snd) (enumerate 0 (take ?k (enumerate 0 xs))) = take n xs"
    by (rule nth_equalityI) (auto simp: nth_enumerate_eq)
  ultimately show ?thesis
    by (subst c) (simp only: enumerate_append_eq filter_append map_append length_take length_enumerate, simp)
qed

subsection \<open>The set-up\<close>

lemma obind_Ok_eq: "obind x f = (Ok b, t) \<Longrightarrow> (\<And>a s. x = (Ok a, s) \<Longrightarrow> f a s = (Ok b, t) \<Longrightarrow> thesis) \<Longrightarrow> thesis"
  by (auto simp: res_simps)

text \<open>Which device queue an interface names, and a socket stands for.\<close>

definition queue_of :: "IfInfo \<Rightarrow> u32 \<times> u32" where
  "queue_of info = (ifindex (if_ctx info), queue_id (if_ctx info))"

lemma with_xdp_socket_queue:
  "Socket_with_xdp_socket S info fd p = (Ok s, p') \<Longrightarrow> queue_of (sock_info s) = queue_of info \<and> ctls p' = ctls p"
  by (auto simp: Socket_with_xdp_socket_def Let_def queue_of_def split: prod.splits if_splits)

lemma on_os_ctls: "on_os f p = (a, p') \<Longrightarrow> ctls p' = ctls p"
  by (metis on_os_frame(2) snd_conv)

lemma mt_socket_queue:
  assumes "(if b then Socket_with_shared S info u p else Socket_new S info p) = (Ok s, p')"
  shows "queue_of (sock_info s) = queue_of info" and "ctls p' = ctls p"
  using assms
  by (auto simp: Socket_with_shared_def Socket_new_def res_simps arc_new_def
      dest!: with_xdp_socket_queue on_os_ctls split: if_splits)

lemma rx_tx_socket:
  "Umem_rx_tx S pf s config p = (Ok us, p') \<Longrightarrow> user_socket us = s \<and> ctls p' = ctls p"
  by (auto simp: Umem_rx_tx_def Let_def res_simps dest!: on_os_ctls)

lemma fq_cq_rings_socket:
  "fq_cq_rings S pf u s p = (Ok dq, p') \<Longrightarrow> dq_socket dq = s \<and> ctls p' = ctls p"
  by (auto simp: fq_cq_rings_def Let_def res_simps dest!: on_os_ctls)

abbreviation dq_ctx :: "DeviceQueue \<Rightarrow> IfCtx" where
  "dq_ctx dq \<equiv> if_ctx (sock_info (dq_socket dq))"

lemma fq_cq_claims:
  assumes "Umem_fq_cq S pf u s p = (Ok dq, p')" and "ctl_ok (umem_devices u) p"
  shows "dq_socket dq = s" and "ctl_ok (umem_devices u) p'"
    and "\<not> DeviceControl_contains (dq_ctx dq) (umem_devices u) p"
    and "DeviceControl_contains c (umem_devices u) p' \<longleftrightarrow> c = dq_ctx dq \<or> DeviceControl_contains c (umem_devices u) p"
proof -
  let ?c = "if_ctx (sock_info s)" and ?d = "umem_devices u"
  obtain b p1 where ins: "DeviceControl_insert ?c ?d p = (b, p1)" by (metis surj_pair)
  with assms(1) have b: "b" and run: "fq_cq_rings S pf u s p1 = (Ok dq, p')"
    by (auto simp: Umem_fq_cq_def Let_def split: if_splits)
  note dq = fq_cq_rings_socket[OF run]
  have bt: "btree (ctls p ! ?d)" and d: "?d < length (ctls p)" using assms(2) by (simp_all add: ctl_ok_def)
  have r: "fst (SpinLockedControlSet_insert ?c (ctls p ! ?d)) = b"
    "ctls p1 = (ctls p)[?d := snd (SpinLockedControlSet_insert ?c (ctls p ! ?d))]"
    using ins by (auto simp: DeviceControl_insert_def split: prod.splits)
  show "dq_socket dq = s" using dq by simp
  show "ctl_ok ?d p'" using r(2) dq d spin_locked.ok_ins[OF bt] by (simp add: ctl_ok_def)
  show "\<not> DeviceControl_contains (dq_ctx dq) ?d p"
    using spin_locked.ins_fresh[OF bt] r(1) b dq by (simp add: DeviceControl_contains_def)
  show "DeviceControl_contains c ?d p' \<longleftrightarrow> c = dq_ctx dq \<or> DeviceControl_contains c ?d p"
    using r(2) dq d spin_locked.con_ins[OF bt] by (simp add: DeviceControl_contains_def)
qed

text \<open>What the first loop adds to the vectors.\<close>

definition opened ::
  "Umem \<Rightarrow> 'k proc \<Rightarrow> (nat \<times> nat \<times> IfInfo) list \<Rightarrow> DeviceQueue list \<Rightarrow> User list \<Rightarrow> bool" where
  "opened u p todo devices binds \<longleftrightarrow>
     map (queue_of \<circ> sock_info \<circ> user_socket) binds = map (queue_of \<circ> snd \<circ> snd) todo \<and>
     map (queue_of \<circ> sock_info \<circ> dq_socket) devices =
       map (queue_of \<circ> snd \<circ> snd) (filter (\<lambda>(i, d, x). i = d) todo) \<and>
     distinct (map dq_ctx devices) \<and>
     (\<forall>dq\<in>set devices. \<not> DeviceControl_contains (dq_ctx dq) (umem_devices u) p)"

lemma mt_open_queues:
  assumes "mt_open S pf u todo ds ss bs p = (Ok (devices, socks, binds), p')" and "ctl_ok (umem_devices u) p"
  shows "\<exists>devs binds'. devices = ds @ devs \<and> binds = bs @ binds' \<and> opened u p todo devs binds'"
  using assms
proof (induction S pf u todo ds ss bs p rule: mt_open.induct)
  case (2 S pf u idx dev_idx info todo ds ss bs p)
  obtain sock p1 where sock: "(if idx = 0 then Socket_with_shared S info u p else Socket_new S info p) = (Ok sock, p1)"
    using 2(2) by (auto simp: res_simps)
  note s = mt_socket_queue[OF sock]
  obtain ds1 p2 rxtx p3 where
    dev: "(if idx = dev_idx then obind (unwrap (Umem_fq_cq S pf u sock p1)) (\<lambda>dq q. (Ok (ds @ [dq]), q))
       else (Ok ds, p1)) = (Ok ds1, p2)"
    and rt: "Umem_rx_tx S pf sock mt_config p2 = (Ok rxtx, p3)"
    and rest: "mt_open S pf u todo ds1 (ss @ [sock]) (bs @ [rxtx]) p3 = (Ok (devices, socks, binds), p')"
    using 2(2) sock by (auto simp: res_simps)
  note r = rx_tx_socket[OF rt]
  have ok1: "ctl_ok (umem_devices u) p1" using 2(3) s(2) by (simp add: ctl_ok_def)
  have same1: "DeviceControl_contains c (umem_devices u) p1 = DeviceControl_contains c (umem_devices u) p" for c
    using s(2) by (simp add: DeviceControl_contains_def)
  have same3: "DeviceControl_contains c (umem_devices u) p3 = DeviceControl_contains c (umem_devices u) p2" for c
    using r by (simp add: DeviceControl_contains_def)
  show ?case
  proof (cases "idx = dev_idx")
    case True
    then obtain dq where fq: "Umem_fq_cq S pf u sock p1 = (Ok dq, p2)" and ds1: "ds1 = ds @ [dq]"
      using dev by (auto simp: res_simps)
    note f = fq_cq_claims[OF fq ok1]
    have "ctl_ok (umem_devices u) p3" using f(2) r by (simp add: ctl_ok_def)
    then obtain devs binds' where ih: "devices = ds1 @ devs" "binds = (bs @ [rxtx]) @ binds'" "opened u p3 todo devs binds'"
      using 2(1)[OF rest] by blast
    then have "opened u p ((idx, dev_idx, info) # todo) (dq # devs) (rxtx # binds')"
      using f(1,3) f(4) same1 same3 s r True by (auto simp: opened_def)
    with ih ds1 show ?thesis by (intro exI[of _ "dq # devs"] exI[of _ "rxtx # binds'"]) simp
  next
    case False
    then have ds1: "ds1 = ds" "p2 = p1" using dev by auto
    then have "ctl_ok (umem_devices u) p3" using ok1 r by (simp add: ctl_ok_def)
    then obtain devs binds' where ih: "devices = ds1 @ devs" "binds = (bs @ [rxtx]) @ binds'" "opened u p3 todo devs binds'"
      using 2(1)[OF rest] by blast
    then have "opened u p ((idx, dev_idx, info) # todo) devs (rxtx # binds')"
      using same1 same3 s r ds1 False by (auto simp: opened_def)
    with ih ds1 show ?thesis by (intro exI[of _ devs] exI[of _ "rxtx # binds'"]) simp
  qed
qed (simp add: opened_def)

lemma mt_map_length: "mt_map S pf undo us acc p = (Ok txs, p') \<Longrightarrow> length txs = length acc + length us"
  by (induction S pf undo us acc p rule: mt_map.induct) (auto simp: res_simps)

lemma ifinfos_length: "ifinfos S q names k = (Ok infos, k') \<Longrightarrow> length infos = length names"
  by (induction S q names k arbitrary: infos rule: ifinfos.induct) (auto simp: res_simps)

lemma Umem_new_ctl:
  assumes "Umem_new S pf config area p = (Ok u, p')"
  shows "ctl_ok (umem_devices u) p'"
proof -
  have "ctls p' = ctls p @ [[]] \<and> umem_devices u = length (ctls p)"
    using assms by (auto simp: Umem_new_def DeviceControl_new_def arc_new_def Let_def res_simps
        split: if_splits sum.splits bool.splits dest!: on_os_ctls)
  then show ?thesis by (simp add: ctl_ok_def btree_def)
qed

lemma mt_set_up_parts:
  assumes "mt_set_up S pf args area p0 = (Ok ms, p)"
  obtains p2 socks p3 where "ms_infos ms \<noteq> []" and "length (ms_infos ms) = length (mt_ifname args)"
    and "mt_open S pf (ms_umem ms) (enumerate 0 (cycled (ms_infos ms) (unat (mt_num_threads args)))) [] [] [] p2 =
      (Ok (ms_devices ms, socks, ms_to_binds ms), p3)"
    and "ctl_ok (umem_devices (ms_umem ms)) p2" and "length (ms_txs ms) = length (ms_to_binds ms)"
proof -
  obtain p1 p2 p3 q q' where new: "Umem_new S pf UmemConfig_default area p0 = (Ok (ms_umem ms), p1)"
    and info: "on_os (mt_ifinfo S args) p1 = (Ok (ms_infos ms), p2)"
    and opn: "mt_open S pf (ms_umem ms) (enumerate 0 (cycled (ms_infos ms) (unat (mt_num_threads args)))) [] [] [] p2 =
      (Ok (ms_devices ms, ms_socks ms, ms_to_binds ms), p3)"
    and mp: "mt_map S pf (mt_unwind S (ms_devices ms) (ms_socks ms) (ms_to_binds ms)) (ms_to_binds ms) [] q = (Ok (ms_txs ms), q')"
    using assms by (auto simp: mt_set_up_def res_simps)
  from info obtain k where "mt_ifname args \<noteq> []"
    and "ifinfos S (mt_queue_id args) (mt_ifname args) (os p1) = (Ok (ms_infos ms), k)"
    by (auto simp: mt_ifinfo_def on_os_def split: prod.splits if_splits)
  moreover from this have "length (ms_infos ms) = length (mt_ifname args)" by (auto dest: ifinfos_length)
  moreover have "ctl_ok (umem_devices (ms_umem ms)) p2"
    using Umem_new_ctl[OF new] on_os_ctls[OF info] by (simp add: ctl_ok_def)
  moreover have "ms_infos ms \<noteq> []" using calculation(1,3) by auto
  moreover have "length (ms_txs ms) = length (ms_to_binds ms)" using mt_map_length[OF mp] by simp
  ultimately show thesis using that opn by blast
qed

lemma mt_set_up_queues_aux:
  assumes "mt_set_up S pf args area p0 = (Ok ms, p)"
  defines "n \<equiv> unat (mt_num_threads args)" and "infos \<equiv> ms_infos ms"
  shows "infos \<noteq> []" and "length infos = length (mt_ifname args)"
    and "map (queue_of \<circ> sock_info \<circ> dq_socket) (ms_devices ms) = take n (map queue_of infos)"
    and "distinct (map dq_ctx (ms_devices ms))"
    and "map (queue_of \<circ> sock_info \<circ> user_socket) (ms_to_binds ms) =
      map (\<lambda>i. queue_of (infos ! (i mod length infos))) [0..<n]"
    and "length (ms_txs ms) = n"
proof -
  obtain p2 socks p3 where ne: "infos \<noteq> []" and len: "length infos = length (mt_ifname args)"
    and opn: "mt_open S pf (ms_umem ms) (enumerate 0 (cycled infos n)) [] [] [] p2 = (Ok (ms_devices ms, socks, ms_to_binds ms), p3)"
    and ok: "ctl_ok (umem_devices (ms_umem ms)) p2" and txs: "length (ms_txs ms) = length (ms_to_binds ms)"
    unfolding n_def infos_def by (rule mt_set_up_parts[OF assms(1)])
  have "opened (ms_umem ms) p2 (enumerate 0 (cycled infos n)) (ms_devices ms) (ms_to_binds ms)"
    using mt_open_queues[OF opn ok] by auto
  note q = this[unfolded opened_def]
  show "infos \<noteq> []" "length infos = length (mt_ifname args)" by fact+
  have "map (queue_of \<circ> snd \<circ> snd) (filter (\<lambda>(i, d, x). i = d) (enumerate 0 (cycled infos n))) =
      map queue_of (map (snd \<circ> snd) (filter (\<lambda>(i, d, x). i = d) (enumerate 0 (cycled infos n))))" by simp
  then show "map (queue_of \<circ> sock_info \<circ> dq_socket) (ms_devices ms) = take n (map queue_of infos)"
    using q own_queue[OF ne, of n] by (simp only: take_map)
  show "distinct (map dq_ctx (ms_devices ms))" using q by simp
  have "map (queue_of \<circ> snd \<circ> snd) (enumerate 0 (cycled infos n)) =
      map (\<lambda>i. queue_of (infos ! (i mod length infos))) [0..<n]"
    by (rule nth_equalityI) (simp_all add: ne nth_enumerate_eq nth_cycled)
  with q show b: "map (queue_of \<circ> sock_info \<circ> user_socket) (ms_to_binds ms) =
      map (\<lambda>i. queue_of (infos ! (i mod length infos))) [0..<n]" by simp
  from b[THEN arg_cong, of length] txs show "length (ms_txs ms) = n" by simp
qed

text \<open>Which calls of \<open>bind\<close> it makes, seen from its end: the descriptors are still the same.\<close>

lemma mt_set_up_binds:
  assumes "mt_set_up S pf args area p0 = (Ok ms, p)" and rec: "records_binds S binds"
  shows "binds (os p) = binds (os p0) @
    map (\<lambda>(i, (d, dq), us). bind_entry p us (if i = d then umem_fd (ms_umem ms) else sock_fd (dq_socket dq)))
      (enumerate 0 (zip (cycled (ms_devices ms) (length (ms_to_binds ms))) (ms_to_binds ms)))"
proof -
  obtain p1 p2 p3 p4 p5 where new: "Umem_new S pf UmemConfig_default area p0 = (Ok (ms_umem ms), p1)"
    and info: "on_os (mt_ifinfo S args) p1 = (Ok (ms_infos ms), p2)"
    and opn: "mt_open S pf (ms_umem ms) (enumerate 0 (cycled (ms_infos ms) (unat (mt_num_threads args)))) [] [] [] p2 =
      (Ok (ms_devices ms, ms_socks ms, ms_to_binds ms), p3)"
    and bd: "mt_bind S (ms_umem ms)
      (enumerate 0 (zip (cycled (ms_devices ms) (length (ms_to_binds ms))) (ms_to_binds ms))) p3 = (Ok (), p4)"
    and mp: "mt_map S pf (mt_unwind S (ms_devices ms) (ms_socks ms) (ms_to_binds ms)) (ms_to_binds ms) [] p4 = (Ok (ms_txs ms), p5)"
    and p: "p = p5"
    using assms(1) by (auto simp: mt_set_up_def res_simps split: prod.splits)
  have "binds (os p2) = binds (os p1)"
    using info by (auto simp: mt_ifinfo_def on_os_result dest: ifinfos_binds[OF rec] split: if_splits)
  then have before: "binds (os p3) = binds (os p0)"
    using Umem_new_binds[OF rec new] mt_open_binds[OF rec opn] by simp
  note b = mt_bind_binds[OF rec bd] and after = mt_map_binds[OF rec mp]
  then have "arc_get p3 = arc_get p" using p by simp
  then have "bind_entry p3 = bind_entry p" by (rule bind_entry_cong)
  with before b after p show ?thesis by simp
qed

subsection \<open>Running the threads\<close>

lemma held_replicate_0 [simp]: "held unat (replicate n 0) = 0"
  by (simp add: held_def sum_list_replicate)

lemma held_zero: "(\<And>t. t \<in> set ts \<Longrightarrow> f t = 0) \<Longrightarrow> held f ts = 0"
  by (rule held_const)

lemma mt_init_inv:
  assumes "length (ms_txs ms) = length (ms_to_binds ms)"
  shows "mt_inv tot (mt_init p ms)" and "mt_cinv tot (mt_init p ms)"
proof -
  have z: "held (owed \<circ> sd_pc) (mt_senders (mt_init p ms)) = 0" "held (uncounted \<circ> sd_pc) (mt_senders (mt_init p ms)) = 0"
    "held (unlogged \<circ> cp_pc) (mt_completers (mt_init p ms)) = 0" "held (reaping \<circ> cp_pc) (mt_completers (mt_init p ms)) = 0"
    by (auto simp: mt_init_def intro!: held_const)
  from z show "mt_inv tot (mt_init p ms)"
    using assms by (simp add: mt_inv_def mt_init_def Let_def sender_ok_def nth_enumerate_eq)
  from z show "mt_cinv tot (mt_init p ms)"
    by (auto simp: mt_cinv_def mt_init_def Let_def completer_ok_def nth_enumerate_eq mt_reaped_def mt_committed_def)
qed

lemma mt_set_up_inv:
  assumes "mt_set_up S pf args area p0 = (Ok ms, p)"
  shows "mt_inv tot (mt_init p ms)" and "mt_cinv tot (mt_init p ms)"
    and "length (mt_senders (mt_init p ms)) = unat (mt_num_threads args)"
    and "length (mt_completers (mt_init p ms)) = min (length (mt_ifname args)) (unat (mt_num_threads args))"
proof -
  note a = mt_set_up_queues_aux[OF assms]
  have "length (ms_txs ms) = length (ms_to_binds ms)"
    using a(5)[THEN arg_cong, of length] a(6) by simp
  then show "mt_inv tot (mt_init p ms)" "mt_cinv tot (mt_init p ms)" by (rule mt_init_inv)+
  show "length (mt_senders (mt_init p ms)) = unat (mt_num_threads args)" using a(6) by (simp add: mt_init_def)
  show "length (mt_completers (mt_init p ms)) = min (length (mt_ifname args)) (unat (mt_num_threads args))"
    using a(2) a(3)[THEN arg_cong, of length] by (simp add: mt_init_def)
qed

lemma mt_step_lengths:
  "mt_step S pf batch tot desc st st' \<Longrightarrow>
    length (mt_senders st') = length (mt_senders st) \<and> length (mt_completers st') = length (mt_completers st)"
  by (auto elim!: mt_stepE)

lemma mt_lawful_lengths:
  "(mt_lawful S pf batch tot desc)\<^sup>*\<^sup>* st st' \<Longrightarrow>
    length (mt_senders st') = length (mt_senders st) \<and> length (mt_completers st') = length (mt_completers st)"
  by (induction rule: rtranclp_induct) (auto simp: mt_lawful_def dest: mt_step_lengths)

lemma mt_init_alone:
  assumes "length (mt_completers (mt_init p ms)) = 1"
  shows "mt_alone (mt_init p ms)"
proof -
  have "cp_pc (mt_completers (mt_init p ms) ! 0) = CLoad"
    using assms by (simp add: mt_init_def nth_enumerate_eq)
  then show ?thesis using assms by (simp add: mt_alone_def) (simp add: mt_init_def)
qed

lemma mt_alone_lawful_steps:
  assumes "(mt_step S pf batch tot desc)\<^sup>*\<^sup>* st st'" and "mt_inv tot st" and "mt_alone st"
  shows "(mt_lawful S pf batch tot desc)\<^sup>*\<^sup>* st st'"
  using assms
proof (induction rule: converse_rtranclp_induct)
  case (step a b)
  have "mt_inv tot b" "mt_alone b" by (rule mt_inv_step(1)[OF step(1,4)], rule mt_alone_step[OF step(1,4,5)])
  then have "(mt_lawful S pf batch tot desc)\<^sup>*\<^sup>* b st'" by (rule step(3))
  moreover have "mt_lawful S pf batch tot desc a b"
    using step(1) mt_alone_lawful(2)[OF \<open>mt_alone b\<close>] by (simp add: mt_lawful_def)
  ultimately show ?case by (rule converse_rtranclp_into_rtranclp[rotated])
qed simp

text \<open>A schedule of choices, executed.\<close>

datatype choice = Completes nat env env | Sends nat env | Kernel mem

fun mt_do :: "'k libc \<Rightarrow> profile \<Rightarrow> u32 \<Rightarrow> u32 \<Rightarrow> XdpDesc \<Rightarrow> choice \<Rightarrow> 'k mt \<Rightarrow> 'k mt option" where
  "mt_do S pf batch tot desc (Completes i env env') st =
     (if i < length (mt_completers st) then
        (case completer_step S pf batch tot env env' (mt_shared st) (mt_completers st ! i) of
           Inl e \<Rightarrow> None
         | Inr (sh, th) \<Rightarrow> Some (st\<lparr>mt_shared := sh, mt_completers := (mt_completers st)[i := th]\<rparr>))
      else None)"
| "mt_do S pf batch tot desc (Sends i env) st =
     (if i < length (mt_senders st) then
        (case sender_step S pf batch tot desc env (mt_shared st) (mt_senders st ! i) of
           Inl e \<Rightarrow> None
         | Inr (sh, th) \<Rightarrow> Some (st\<lparr>mt_shared := sh, mt_senders := (mt_senders st)[i := th]\<rparr>))
      else None)"
| "mt_do S pf batch tot desc (Kernel m) st = Some (st\<lparr>mt_shared := (mt_shared st)\<lparr>sh_mem := m\<rparr>\<rparr>)"

fun mt_run :: "'k libc \<Rightarrow> profile \<Rightarrow> u32 \<Rightarrow> u32 \<Rightarrow> XdpDesc \<Rightarrow> choice list \<Rightarrow> 'k mt \<Rightarrow> 'k mt option" where
  "mt_run S pf batch tot desc [] st = Some st"
| "mt_run S pf batch tot desc (c # cs) st = Option.bind (mt_do S pf batch tot desc c st) (mt_run S pf batch tot desc cs)"

lemma mt_do_step: "mt_do S pf batch tot desc c st = Some st' \<Longrightarrow> mt_step S pf batch tot desc st st'"
  by (cases c) (auto intro: mt_step.intros split: if_splits sum.splits)

lemma mt_run_steps:
  "mt_run S pf batch tot desc cs st = Some st' \<Longrightarrow> (mt_step S pf batch tot desc)\<^sup>*\<^sup>* st st'"
  by (induction cs arbitrary: st)
    (auto simp: bind_eq_Some_conv intro: mt_do_step converse_rtranclp_into_rtranclp)

text \<open>The client on the demonstration system: two threads on one interface, and one packet to send.\<close>

definition demo_mt_args :: MtArgs where
  "demo_mt_args = \<lparr>mt_ifname = [[108, 111]], mt_queue_id = Some 1, mt_batch = None, mt_total = Some 1,
     mt_length = Some 64, mt_threads = Some 2\<rparr>"

lemma demo_items:
  "enumerate 0 (cycled [x] 2) = [(0, 0, x), (1, 0, x)]"
  "enumerate 0 (zip (cycled [d] (Suc (Suc 0))) [u, v]) = [(0, (0, d), u), (1, (0, d), v)]"
  by (simp_all add: cycled_def numeral_2_eq_2)

lemmas demo_mt = mt_set_up_def demo_mt_args_def mt_ifinfo_def mt_num_threads_def mt_config_def
  Socket_new_def DeviceQueue_bind_def demo_items

lemma demo_heads0:
  assumes "65578 \<le> unat a" and "unat a + 4 \<le> 2 ^ 64"
  shows "load_u32 (store_bytes (\<lambda>_. 0) 65536 ARP) a = 0"
  using assms by (subst load_u32_store_bytes) (auto simp: apart_def fits_def zero_heads)

lemma demo_mt_set_up:
  "\<exists>ms p dq tx tx2. mt_set_up demo_libc Release demo_mt_args (65536, 1048576) demo_start = (Ok ms, p) \<and>
    ms_devices ms = [dq] \<and> ms_txs ms = [tx, tx2] \<and> length (ms_to_binds ms) = 2 \<and>
    cached_producer (prod_inner (tx_ring tx)) = 0 \<and> cached_consumer (prod_inner (tx_ring tx)) = 0 \<and>
    ring_size (prod_inner (tx_ring tx)) = 4096 \<and> load_u32 (ms_mem ms) (consumer (prod_inner (tx_ring tx))) = 0 \<and>
    cached_producer (cons_inner (fcq_cons (dq_fcq dq))) = 0 \<and>
    cached_consumer (cons_inner (fcq_cons (dq_fcq dq))) = 0"
  by (simp add: demo_mt demo_flood demo_offsets_def demo_ring_def zero_heads demo_heads0
      dec_enc_offsets[of _ "[]", simplified])

lemma send_one:
  assumes "cached_producer (prod_inner (tx_ring tx)) = 0" and "cached_consumer (prod_inner (tx_ring tx)) = 0"
    and "ring_size (prod_inner (tx_ring tx)) = 4096" and "load_u32 m (consumer (prod_inner (tx_ring tx))) = 0"
  shows "\<exists>tx1 m1. flood_send Release env m tx 1 desc = Inr (1, tx1, m1)"
  using assms
  by (simp add: flood_send_def RingTx_transmit_def BufIdxIter_reserve_def reserve_def count_free_def Let_def
      WriteTx_insert_from_def insert_iter.simps repeat_next_def WriteTx_commit_def commit_prod_def WriteTx_drop_def)

lemma reap_one:
  assumes "cached_producer (cons_inner (fcq_cons (dq_fcq dq))) = 0" and "cached_consumer (cons_inner (fcq_cons (dq_fcq dq))) = 0"
    and "load_u32 m (producer (cons_inner (fcq_cons (dq_fcq dq)))) = 1"
  shows "\<exists>dq1 m1. flood_reap Release (\<lambda>m. m) env m dq 1 = Inr (1, dq1, m1)"
  using assms
  by (simp add: flood_reap_def DeviceQueue_complete_def BufIdxIter_peek_def peek_def count_available_def Let_def
      count_reads_eq ReadComplete_release_def release_cons_def ReadComplete_drop_def)

definition one_packet :: "mem \<Rightarrow> choice list" where
  "one_packet m = replicate 8 (Sends 0 (\<lambda>m. m)) @ [Kernel m] @ replicate 8 (Completes 0 (\<lambda>m. m) (\<lambda>m. m)) @
     [Sends 0 (\<lambda>m. m), Sends 1 (\<lambda>m. m), Sends 1 (\<lambda>m. m), Sends 0 (\<lambda>m. m)]"

lemma demo_mt_run:
  obtains ms p st where "mt_set_up demo_libc Release demo_mt_args (65536, 1048576) demo_start = (Ok ms, p)"
    and "(mt_step demo_libc Release 1024 1 (ms_desc ms))\<^sup>*\<^sup>* (mt_init p ms) st"
    and "mt_ended st" and "sent (mt_shared st) = 1"
proof -
  obtain ms p dq tx tx2 where run: "mt_set_up demo_libc Release demo_mt_args (65536, 1048576) demo_start = (Ok ms, p)"
    and dev: "ms_devices ms = [dq]" "ms_txs ms = [tx, tx2]" "length (ms_to_binds ms) = 2"
    and heads: "cached_producer (prod_inner (tx_ring tx)) = 0" "cached_consumer (prod_inner (tx_ring tx)) = 0"
      "ring_size (prod_inner (tx_ring tx)) = 4096" "load_u32 (ms_mem ms) (consumer (prod_inner (tx_ring tx))) = 0"
      "cached_producer (cons_inner (fcq_cons (dq_fcq dq))) = 0" "cached_consumer (cons_inner (fcq_cons (dq_fcq dq))) = 0"
    using demo_mt_set_up by blast
  let ?m = "store_u32 (\<lambda>_. 0) (producer (cons_inner (fcq_cons (dq_fcq dq)))) 1"
  obtain tx1 m1 where s: "flood_send Release (\<lambda>m. m) (ms_mem ms) tx 1 (ms_desc ms) = Inr (1, tx1, m1)"
    using send_one[OF heads(1-4)] by blast
  obtain dq1 m2 where r: "flood_reap Release (\<lambda>m. m) (\<lambda>m. m) ?m dq 1 = Inr (1, dq1, m2)"
    using reap_one[OF heads(5,6)] by fastforce
  have one: "min (1 :: u32) 1024 = 1" by (simp add: min_def word_le_nat_alt)
  have "\<exists>st. mt_run demo_libc Release 1024 1 (ms_desc ms) (one_packet ?m) (mt_init p ms) = Some st \<and>
      mt_ended st \<and> sent (mt_shared st) = 1"
    by (simp add: one_packet_def mt_init_def dev enumerate_simps sender_step_def completer_step_def s r
        saturating_sub_def WAKE_THRESHOLD_def log_atomic_eq mt_ended_def numeral_eq_Suc one)
  with that run mt_run_steps show thesis by blast
qed

lemma demo_mt_numbers: "mt_batch_size demo_mt_args = 1024" "mt_total_count demo_mt_args = 1"
  by (simp_all add: mt_batch_size_def mt_total_count_def demo_mt_args_def)

text \<open>
  The same in a build with overflow checks.  There a sender panics once the consumer head is the last number of
  32 bits, because \<open>count_free\<close> adds the size of the ring to it.
\<close>

lemma powers: "list_ex (\<lambda>k. 2 ^ k = (4096 :: u32)) [0..<32]" "list_ex (\<lambda>k. 2 ^ k = (2048 :: u32)) [0..<32]"
  "list_ex (\<lambda>k. 2 ^ k = (16384 :: u32)) [0..<32]"
  by (simp_all add: upt_conv_Cons)

lemma demo_mt_debug:
  "\<exists>ms p tx tx2. mt_set_up demo_libc Debug demo_mt_args (65536, 1048576) demo_start = (Ok ms, p) \<and>
    ms_txs ms = [tx, tx2] \<and> cached_producer (prod_inner (tx_ring tx)) = 0 \<and>
    cached_consumer (prod_inner (tx_ring tx)) = 0 \<and> ring_size (prod_inner (tx_ring tx)) = 4096"
  by (simp add: demo_mt demo_flood demo_offsets_def demo_ring_def zero_heads demo_heads0
      dec_enc_offsets[of _ "[]", simplified] add_chk_def sub_chk_def mul_chk_def powers)

lemma demo_mt_debug_run:
  obtains ms p st tx tx2 where "mt_set_up demo_libc Debug demo_mt_args (65536, 1048576) demo_start = (Ok ms, p)"
    and "(mt_step demo_libc Debug 1024 1 (ms_desc ms))\<^sup>*\<^sup>* (mt_init p ms) st"
    and "mt_senders st = [\<lparr>sd_tx = tx, sd_ctr = 0, sd_threshold = WAKE_THRESHOLD, sd_pc = SSend 1\<rparr>,
      \<lparr>sd_tx = tx2, sd_ctr = 1, sd_threshold = WAKE_THRESHOLD, sd_pc = SLoadSent\<rparr>]"
    and "sender_step demo_libc Debug 1024 1 (ms_desc ms) (\<lambda>m. m) (mt_shared st) (mt_senders st ! 0) = Inl ArithOverflow"
proof -
  obtain ms p tx tx2 where run: "mt_set_up demo_libc Debug demo_mt_args (65536, 1048576) demo_start = (Ok ms, p)"
    and txs: "ms_txs ms = [tx, tx2]" "cached_producer (prod_inner (tx_ring tx)) = 0"
      "cached_consumer (prod_inner (tx_ring tx)) = 0" "ring_size (prod_inner (tx_ring tx)) = 4096"
    using demo_mt_debug by blast
  let ?m = "store_u32 (\<lambda>_. 0) (consumer (prod_inner (tx_ring tx))) 4294967295"
  let ?cs = "[Sends 0 (\<lambda>m. m), Sends 0 (\<lambda>m. m), Kernel ?m]"
  have one: "min (1 :: u32) 1024 = 1" by (simp add: min_def word_le_nat_alt)
  obtain st where go: "mt_run demo_libc Debug 1024 1 (ms_desc ms) ?cs (mt_init p ms) = Some st"
    and st: "mt_senders st = [\<lparr>sd_tx = tx, sd_ctr = 0, sd_threshold = WAKE_THRESHOLD, sd_pc = SSend 1\<rparr>,
      \<lparr>sd_tx = tx2, sd_ctr = 1, sd_threshold = WAKE_THRESHOLD, sd_pc = SLoadSent\<rparr>]" "sh_mem (mt_shared st) = ?m"
    by (simp add: mt_init_def txs enumerate_simps sender_step_def saturating_sub_def one add_chk_def)
  have "sender_step demo_libc Debug 1024 1 (ms_desc ms) (\<lambda>m. m) (mt_shared st) (mt_senders st ! 0) = Inl ArithOverflow"
    by (simp add: st sender_step_def flood_send_def RingTx_transmit_def BufIdxIter_reserve_def reserve_def count_free_def
        Let_def txs add_chk_def)
  with that run mt_run_steps[OF go] st(1) show thesis by blast
qed

subsection \<open>Properties of the set-up\<close>

text \<open>
  C39. If the set-up of \<open>flood-mt\<close> succeeds, it has a device queue for each of the first interfaces, as many as
  there are threads, no two of them the same; one transmit ring per thread, on the interfaces in turn; and
  it has called \<open>bind\<close> once for each thread's socket, in order, and always with success: the sockets of
  the first round through the interfaces against the descriptor of the UMEM, each later one against that of the
  device queue that stands for the queue its interface names, with the address that \<open>bind_addr\<close> makes of the two.
\<close>

theorem mt_set_up_queues:
  assumes "mt_set_up S pf args area p0 = (Ok ms, p)" and "records_binds S binds"
  shows "let n = unat (mt_num_threads args); infos = ms_infos ms; devices = ms_devices ms; us = ms_to_binds ms;
      own = (\<lambda>i. devices ! (i mod length devices)) in
    length infos = length (mt_ifname args) \<and> infos \<noteq> [] \<and>
    map (queue_of \<circ> sock_info \<circ> dq_socket) devices = take n (map queue_of infos) \<and> distinct (map dq_ctx devices) \<and>
    length us = n \<and> length (ms_txs ms) = n \<and>
    list_all (\<lambda>i. queue_of (sock_info (user_socket (us ! i))) = queue_of (infos ! (i mod length infos)) \<and>
      queue_of (sock_info (dq_socket (own i))) = queue_of (sock_info (user_socket (us ! i)))) [0..<n] \<and>
    binds (os p) = binds (os p0) @ map (\<lambda>i.
      bind_entry p (us ! i) (if i < length devices then umem_fd (ms_umem ms) else sock_fd (dq_socket (own i)))) [0..<n]"
proof -
  let ?n = "unat (mt_num_threads args)" and ?infos = "ms_infos ms" and ?us = "ms_to_binds ms" and ?ds = "ms_devices ms"
  note a = mt_set_up_queues_aux[OF assms(1)]
  have us: "length ?us = ?n" using a(5)[THEN arg_cong, of length] by simp
  have dev: "length ?ds = min (length ?infos) ?n" using a(3)[THEN arg_cong, of length] by simp
  have ne: "?ds \<noteq> []" if "i < ?n" for i
  proof -
    have "0 < length ?infos" "0 < ?n" using a(1) that by (simp, linarith)
    then have "0 < length ?ds" unfolding dev by simp
    then show ?thesis by simp
  qed
  have "queue_of (sock_info (user_socket (?us ! i))) = queue_of (?infos ! (i mod length ?infos)) \<and>
      queue_of (sock_info (dq_socket (?ds ! (i mod length ?ds)))) = queue_of (sock_info (user_socket (?us ! i)))"
    if i: "i < ?n" for i
  proof -
    have u: "queue_of (sock_info (user_socket (?us ! i))) = queue_of (?infos ! (i mod length ?infos))"
      using a(5)[THEN arg_cong, of "\<lambda>xs. xs ! i"] i us by simp
    let ?j = "i mod length ?ds"
    have "?j < length ?ds" using ne[OF i] by simp
    then have "queue_of (sock_info (dq_socket (?ds ! ?j))) = queue_of (?infos ! ?j)"
      using a(3)[THEN arg_cong, of "\<lambda>xs. xs ! ?j"] dev by simp
    moreover have "?j = i mod length ?infos" using dev i by (simp add: min_def)
    ultimately show ?thesis using u by simp
  qed
  moreover have "binds (os p) = binds (os p0) @ map (\<lambda>i. bind_entry p (?us ! i)
      (if i < length ?ds then umem_fd (ms_umem ms) else sock_fd (dq_socket (?ds ! (i mod length ?ds))))) [0..<?n]"
  proof -
    have "i = i mod length ?ds \<longleftrightarrow> i < length ?ds" if "i < ?n" for i
      using ne[OF that] by (metis length_greater_0_conv mod_less mod_less_divisor)
    then have "map (\<lambda>(i, (d, dq), us). bind_entry p us (if i = d then umem_fd (ms_umem ms) else sock_fd (dq_socket dq)))
        (enumerate 0 (zip (cycled ?ds ?n) ?us)) = map (\<lambda>i. bind_entry p (?us ! i)
        (if i < length ?ds then umem_fd (ms_umem ms) else sock_fd (dq_socket (?ds ! (i mod length ?ds))))) [0..<?n]"
      using us ne by (cases "?n = 0") (auto intro!: nth_equalityI simp: nth_enumerate_eq nth_cycled)
    with mt_set_up_binds[OF assms] us show ?thesis by simp
  qed
  ultimately show ?thesis using a us by (simp add: Let_def list_all_iff)
qed

theorem mt_set_up_queues_witness:
  "\<exists>ms p. mt_set_up demo_libc Release demo_mt_args (65536, 1048576) demo_start = (Ok ms, p) \<and>
    length (ms_txs ms) = 2 \<and> map (queue_of \<circ> sock_info \<circ> dq_socket) (ms_devices ms) = map queue_of (ms_infos ms) \<and>
    d_binds (os p) = [bind_entry p (ms_to_binds ms ! 0) (umem_fd (ms_umem ms)),
      bind_entry p (ms_to_binds ms ! 1) (sock_fd (dq_socket (ms_devices ms ! 0)))]"
proof (rule demo_mt_run)
  fix ms p
  assume run: "mt_set_up demo_libc Release demo_mt_args (65536, 1048576) demo_start = (Ok ms, p)"
  note q = mt_set_up_queues[OF run demo_records]
  have one: "length (ms_infos ms) = 1" "d_binds (os demo_start) = []"
    using q by (simp_all add: Let_def demo_mt_args_def demo_kernel_def demo_state_def)
  have dev: "map (queue_of \<circ> sock_info \<circ> dq_socket) (ms_devices ms) = map queue_of (ms_infos ms)"
    using q one by (simp add: Let_def demo_mt_args_def mt_num_threads_def)
  have "length (ms_devices ms) = 1" using map_eq_imp_length_eq[OF dev] one by simp
  with q run dev one show ?thesis
    by (simp add: Let_def demo_mt_args_def mt_num_threads_def upt_rec)
qed

subsection \<open>Properties of the threads\<close>

text \<open>
  C9. In either build, in every interleaving of \<open>flood-mt\<close>'s threads, whatever the kernel does to the
  memory: the packets committed to all rings together never exceed what is reserved, and that never exceeds
  \<open>total\<close>; \<open>sent_reserved\<close> is \<open>sent\<close> and what threads have yet to send or give back; and the per-socket
  counters add up to \<open>sent\<close> but for what threads are about to add.
\<close>

theorem mt_never_oversends:
  assumes "mt_set_up S pf args area p0 = (Ok ms, p)"
    and "(mt_step S pf (mt_batch_size args) (mt_total_count args) (ms_desc ms))\<^sup>*\<^sup>* (mt_init p ms) st"
  shows "let sh = mt_shared st; ths = mt_senders st in
    mt_committed st \<le> unat (sent_reserved sh) \<and> sent_reserved sh \<le> mt_total_count args \<and>
    unat (sent_reserved sh) = unat (sent sh) + held (owed \<circ> sd_pc) ths \<and>
    unat (sent sh) = held unat (tx_by_sock sh) + held (uncounted \<circ> sd_pc) ths"
proof -
  have "mt_inv (mt_total_count args) st" by (rule mt_inv_steps[OF assms(2) mt_set_up_inv(1)[OF assms(1)]])
  with mt_inv_committed[OF this] show ?thesis by (simp add: mt_inv_def Let_def)
qed

theorem mt_never_oversends_witness:
  "\<exists>ms p st. mt_set_up demo_libc Release demo_mt_args (65536, 1048576) demo_start = (Ok ms, p) \<and>
    (mt_step demo_libc Release 1024 1 (ms_desc ms))\<^sup>*\<^sup>* (mt_init p ms) st \<and>
    sent (mt_shared st) = 1 \<and> mt_committed st \<le> 1"
proof (rule demo_mt_run)
  fix ms p st
  assume run: "mt_set_up demo_libc Release demo_mt_args (65536, 1048576) demo_start = (Ok ms, p)"
    and steps: "(mt_step demo_libc Release 1024 1 (ms_desc ms))\<^sup>*\<^sup>* (mt_init p ms) st" and "sent (mt_shared st) = 1"
  from mt_never_oversends[OF run, unfolded demo_mt_numbers, OF steps] run steps this(3) show ?thesis
    by (fastforce simp: Let_def word_le_nat_alt)
qed

text \<open>
  If the kernel reports no more completions than packets were committed to it, then once all threads of
  \<open>flood-mt\<close> have ended, exactly \<open>total\<close> packets were sent and completed, nothing is left reserved, and the
  counters per socket and per queue each add up to \<open>total\<close>.
\<close>

theorem mt_all_ended:
  assumes "mt_set_up S pf args area p0 = (Ok ms, p)" and "mt_threads args \<noteq> Some 0"
    and "(mt_lawful S pf (mt_batch_size args) (mt_total_count args) (ms_desc ms))\<^sup>*\<^sup>* (mt_init p ms) st"
    and "mt_ended st"
  shows "sent (mt_shared st) = mt_total_count args \<and> completed (mt_shared st) = mt_total_count args \<and>
    sent_reserved (mt_shared st) = mt_total_count args \<and>
    held unat (tx_by_sock (mt_shared st)) = unat (mt_total_count args) \<and>
    held unat (cq_by_queue (mt_shared st)) = unat (mt_total_count args)"
proof -
  note a = mt_set_up_inv[OF assms(1)] and len = mt_lawful_lengths[OF assms(3)]
  have "mt_num_threads args \<noteq> 0" using assms(2) by (auto simp: mt_num_threads_def split: option.splits)
  then have "0 < unat (mt_num_threads args)" by (simp add: unat_gt_0)
  moreover have "mt_ifname args \<noteq> []" using mt_set_up_queues_aux(1,2)[OF assms(1)] by auto
  ultimately have ne: "mt_senders st \<noteq> []" "mt_completers st \<noteq> []" using a(3,4) len by (auto simp: min_def split: if_splits)
  have "mt_inv (mt_total_count args) st" "mt_cinv (mt_total_count args) st"
    using mt_lawful_steps[OF assms(3) a(1,2)] by simp_all
  from mt_ended_counts[OF this assms(4) ne] show ?thesis by simp
qed

theorem mt_all_ended_witness:
  "\<exists>ms p st. mt_set_up demo_libc Release demo_mt_args (65536, 1048576) demo_start = (Ok ms, p) \<and>
    (mt_lawful demo_libc Release 1024 1 (ms_desc ms))\<^sup>*\<^sup>* (mt_init p ms) st \<and> mt_ended st \<and>
    completed (mt_shared st) = 1 \<and> held unat (tx_by_sock (mt_shared st)) = 1"
proof (rule demo_mt_run)
  fix ms p st
  assume run: "mt_set_up demo_libc Release demo_mt_args (65536, 1048576) demo_start = (Ok ms, p)"
    and steps: "(mt_step demo_libc Release 1024 1 (ms_desc ms))\<^sup>*\<^sup>* (mt_init p ms) st" and fin: "mt_ended st"
  have "length (mt_completers (mt_init p ms)) = 1"
    using mt_set_up_inv(4)[OF run] by (simp add: demo_mt_args_def mt_num_threads_def)
  note law = mt_alone_lawful_steps[OF steps mt_set_up_inv(1)[OF run] mt_init_alone[OF this]]
  have "mt_threads demo_mt_args \<noteq> Some 0" by (simp add: demo_mt_args_def)
  from mt_all_ended[OF run this, unfolded demo_mt_numbers, OF law fin] run law fin show ?thesis by fastforce
qed

text \<open>
  With a single interface the law of the kernel is not needed: whatever it does, the one completing thread
  never counts more completions than were counted as sent, so its exit on equality cannot be overshot.
\<close>

theorem mt_one_queue:
  assumes "mt_set_up S pf args area p0 = (Ok ms, p)" and "length (mt_ifname args) = 1"
    and "mt_threads args \<noteq> Some 0"
    and "(mt_step S pf (mt_batch_size args) (mt_total_count args) (ms_desc ms))\<^sup>*\<^sup>* (mt_init p ms) st"
  shows "mt_reaped st \<le> unat (sent (mt_shared st)) \<and> completed (mt_shared st) \<le> sent (mt_shared st) \<and>
    sent (mt_shared st) \<le> mt_total_count args"
proof -
  note a = mt_set_up_inv[OF assms(1)]
  have "mt_num_threads args \<noteq> 0" using assms(3) by (auto simp: mt_num_threads_def split: option.splits)
  then have "length (mt_completers (mt_init p ms)) = 1" using a(4) assms(2) by (simp add: unat_gt_0 Suc_le_eq min_absorb1)
  from mt_alone_steps[OF assms(4) a(1) mt_init_alone[OF this]]
  have "mt_inv (mt_total_count args) st" "mt_alone st" by simp_all
  with mt_alone_lawful(1)[of st] mt_inv_le[of _ st] show ?thesis
    by (auto simp: mt_reaped_def word_le_nat_alt)
qed

theorem mt_one_queue_witness:
  "\<exists>ms p st. mt_set_up demo_libc Release demo_mt_args (65536, 1048576) demo_start = (Ok ms, p) \<and>
    (mt_step demo_libc Release 1024 1 (ms_desc ms))\<^sup>*\<^sup>* (mt_init p ms) st \<and>
    sent (mt_shared st) = 1 \<and> completed (mt_shared st) \<le> 1"
proof (rule demo_mt_run)
  fix ms p st
  assume run: "mt_set_up demo_libc Release demo_mt_args (65536, 1048576) demo_start = (Ok ms, p)"
    and steps: "(mt_step demo_libc Release 1024 1 (ms_desc ms))\<^sup>*\<^sup>* (mt_init p ms) st" and one: "sent (mt_shared st) = 1"
  have "length (mt_ifname demo_mt_args) = 1" "mt_threads demo_mt_args \<noteq> Some 0" by (simp_all add: demo_mt_args_def)
  from mt_one_queue[OF run this, unfolded demo_mt_numbers, OF steps] run steps one show ?thesis by fastforce
qed

text \<open>
  C40. In a release build no thread of \<open>flood-mt\<close> ever panics.  In a build with overflow checks a completing thread
  panics only in the library's calls that take completed entries or release them, a sending thread only in those that
  reserve slots or commit them, or where it raises a wake-up threshold that has come within 16 of the end of
  32 bits: no counter, index or difference of the client's own does, \<open>comp_temp\<close> included, whatever the kernel does.
\<close>

theorem mt_panics:
  assumes "mt_set_up S pf args area p0 = (Ok ms, p)"
    and "(mt_step S pf (mt_batch_size args) (mt_total_count args) (ms_desc ms))\<^sup>*\<^sup>* (mt_init p ms) st"
  shows "(i < length (mt_completers st) \<longrightarrow>
      completer_step S pf (mt_batch_size args) (mt_total_count args) env env' (mt_shared st) (mt_completers st ! i) = Inl e \<longrightarrow>
      pf = Debug \<and> (\<exists>b. cp_pc (mt_completers st ! i) = CReap b \<and>
        reap_call_panics pf env env' (sh_mem (mt_shared st)) (cp_queue (mt_completers st ! i)) b e)) \<and>
    (j < length (mt_senders st) \<longrightarrow>
      sender_step S pf (mt_batch_size args) (mt_total_count args) (ms_desc ms) env (mt_shared st) (mt_senders st ! j) = Inl e \<longrightarrow>
      pf = Debug \<and> ((\<exists>b. sd_pc (mt_senders st ! j) = SSend b \<and>
          send_call_panics pf env (sh_mem (mt_shared st)) (sd_tx (mt_senders st ! j)) b (ms_desc ms) e) \<or>
        (\<exists>b n. sd_pc (mt_senders st ! j) = SWake b n) \<and> 2 ^ 32 - 16 \<le> unat (sd_threshold (mt_senders st ! j))))"
proof -
  have inv: "mt_inv (mt_total_count args) st" by (rule mt_inv_steps[OF assms(2) mt_set_up_inv(1)[OF assms(1)]])
  then have logs: "length (cq_log_batch (mt_shared st)) = 33" "length (tx_log_batch (mt_shared st)) = 33"
    and room: "sent_reserved (mt_shared st) \<le> mt_total_count args"
    and ok: "j < length (mt_senders st) \<Longrightarrow> send_ok (sd_pc (mt_senders st ! j))"
    by (auto simp: mt_inv_def Let_def sender_ok_def)
  from completer_step_panics[OF _ logs(1)] sender_step_panics[OF _ room ok logs(2)] show ?thesis by blast
qed

theorem mt_panics_witness:
  "\<exists>ms p st tx. mt_set_up demo_libc Debug demo_mt_args (65536, 1048576) demo_start = (Ok ms, p) \<and>
    (mt_step demo_libc Debug 1024 1 (ms_desc ms))\<^sup>*\<^sup>* (mt_init p ms) st \<and> sd_tx (mt_senders st ! 0) = tx \<and>
    sender_step demo_libc Debug 1024 1 (ms_desc ms) (\<lambda>m. m) (mt_shared st) (mt_senders st ! 0) = Inl ArithOverflow \<and>
    send_call_panics Debug (\<lambda>m. m) (sh_mem (mt_shared st)) tx 1 (ms_desc ms) ArithOverflow"
proof (rule demo_mt_debug_run)
  fix ms p st tx tx2
  assume run: "mt_set_up demo_libc Debug demo_mt_args (65536, 1048576) demo_start = (Ok ms, p)"
    and steps: "(mt_step demo_libc Debug 1024 1 (ms_desc ms))\<^sup>*\<^sup>* (mt_init p ms) st"
    and st: "mt_senders st = [\<lparr>sd_tx = tx, sd_ctr = 0, sd_threshold = WAKE_THRESHOLD, sd_pc = SSend 1\<rparr>,
      \<lparr>sd_tx = tx2, sd_ctr = 1, sd_threshold = WAKE_THRESHOLD, sd_pc = SLoadSent\<rparr>]"
    and panic: "sender_step demo_libc Debug 1024 1 (ms_desc ms) (\<lambda>m. m) (mt_shared st) (mt_senders st ! 0) = Inl ArithOverflow"
  have "send_call_panics Debug (\<lambda>m. m) (sh_mem (mt_shared st)) tx 1 (ms_desc ms) ArithOverflow"
    using mt_panics[OF run, unfolded demo_mt_numbers, OF steps, where j = 0 and env = "\<lambda>m. m" and e = ArithOverflow]
      panic by (simp add: st)
  with run steps panic show ?thesis
    by (intro exI[of _ ms] exI[of _ p] exI[of _ st] exI[of _ tx]) (simp add: st)
qed

end
