(* ===== verification/Teardown.thy ===== *)
theory Teardown
  imports Lifecycle FloodMtMain
begin

text \<open>
  What the two clients leave behind.  Every way out of their set-up, and the end of their \<open>main\<close>, is
  followed through the destructors it runs, on the accounts of \<open>Lifecycle\<close>.
\<close>

subsection \<open>Outcomes\<close>

text \<open>
  What holds after success and what holds after failure.  \<open>process::exit\<close> leaves the clean-up to the
  kernel, and nothing is said of it.
\<close>

definition gives :: "('a \<Rightarrow> 's \<Rightarrow> bool) \<Rightarrow> ('s \<Rightarrow> bool) \<Rightarrow> 'a outcome \<times> 's \<Rightarrow> bool" where
  "gives Q E x \<longleftrightarrow> (case x of (Ok a, s) \<Rightarrow> Q a s | (Err e, s) \<Rightarrow> E s | (Panic e, s) \<Rightarrow> e = Exited \<or> E s)"

lemma gives_Ok [simp]: "gives Q E (Ok a, s) \<longleftrightarrow> Q a s"
  by (simp add: gives_def)

lemma gives_obind:
  "gives R E x \<Longrightarrow> (\<And>a s. R a s \<Longrightarrow> gives Q E (f a s)) \<Longrightarrow> gives Q E (obind x f)"
  by (cases x; cases "fst x") (auto simp: gives_def)

lemma gives_unwrap: "gives Q E x \<Longrightarrow> gives Q E (unwrap x)"
  by (cases x; cases "fst x") (auto simp: gives_def unwrap_def)

lemma gives_unwind: "gives Q E' x \<Longrightarrow> (\<And>s. E' s \<Longrightarrow> E (d s)) \<Longrightarrow> gives Q E (unwind d x)"
  by (cases x; cases "fst x") (auto simp: gives_def)

lemma gives_and:
  "gives Q E x \<Longrightarrow> (\<And>a s. x = (Ok a, s) \<Longrightarrow> R a s) \<Longrightarrow> gives (\<lambda>a s. Q a s \<and> R a s) E x"
  by (cases x; cases "fst x") (auto simp: gives_def)

lemma gives_of_res: "E s \<Longrightarrow> gives (\<lambda>_. E) E (of_res x, s)"
  by (cases x) (auto simp: gives_def)

lemma gives_creates: "gives Q E (creates f x) = gives (\<lambda>a. Q (f a)) E x"
  by (cases x; cases "fst x") (auto simp: gives_def creates_def)

subsection \<open>Calls\<close>

text \<open>A call on handles that are held gives its new handle, or fails and gives nothing.\<close>

abbreviation world ::
  "('k \<Rightarrow> slice multiset) \<Rightarrow> ('k \<Rightarrow> c_int multiset) \<Rightarrow> slice multiset \<Rightarrow> c_int multiset \<Rightarrow>
     handle multiset \<Rightarrow> 'k proc \<Rightarrow> bool" where
  "world maps opens m0 o0 hs p \<equiv> world_ok maps opens m0 o0 (hs, p)"

lemma call_gives:
  assumes "accounts_all S maps opens" and "world maps opens m0 o0 hs p"
    and "set (borrows c) \<subseteq> set_mset hs" and "panics_safely S pf c"
  shows "gives (\<lambda>new. world maps opens m0 o0 (hs + new)) (world maps opens m0 o0 hs) (api_call S pf c p)"
proof -
  obtain r p' where run: "api_call S pf c p = (r, p')" by (metis surj_pair)
  show ?thesis
    using run assms(4) api_call_ok[OF assms(1-3), of pf _ p'] by (cases r) (auto simp: gives_def)
qed

lemma calls_give:
  assumes "accounts_all S maps opens" and "world maps opens m0 o0 hs p"
  shows "gives (\<lambda>u. world maps opens m0 o0 (add_mset (HUmem u) hs)) (world maps opens m0 o0 hs) (Umem_new S pf config area p)"
    and "gives (\<lambda>s. world maps opens m0 o0 (add_mset (HSocket s) hs)) (world maps opens m0 o0 hs) (Socket_new S info p)"
    and "HUmem u \<in># hs \<Longrightarrow> gives (\<lambda>s. world maps opens m0 o0 (add_mset (HSocket s) hs)) (world maps opens m0 o0 hs)
      (Socket_with_shared S info u p)"
    and "HUmem u \<in># hs \<Longrightarrow> HSocket s \<in># hs \<Longrightarrow> panics_safely S pf (FqCq u s) \<Longrightarrow>
      gives (\<lambda>dq. world maps opens m0 o0 (add_mset (HQueue dq) hs)) (world maps opens m0 o0 hs) (Umem_fq_cq S pf u s p)"
    and "HUmem u \<in># hs \<Longrightarrow> HSocket s \<in># hs \<Longrightarrow>
      gives (\<lambda>us. world maps opens m0 o0 (add_mset (HUser us) hs)) (world maps opens m0 o0 hs) (Umem_rx_tx S pf s sc p)"
    and "HUser us \<in># hs \<Longrightarrow> panics_safely S pf (MapRx us) \<Longrightarrow>
      gives (\<lambda>rx. world maps opens m0 o0 (add_mset (HRx rx) hs)) (world maps opens m0 o0 hs) (User_map_rx S pf us p)"
    and "HUser us \<in># hs \<Longrightarrow> panics_safely S pf (MapTx us) \<Longrightarrow>
      gives (\<lambda>tx. world maps opens m0 o0 (add_mset (HTx tx) hs)) (world maps opens m0 o0 hs) (User_map_tx S pf us p)"
    and "HUmem u \<in># hs \<Longrightarrow> HUser us \<in># hs \<Longrightarrow>
      gives (\<lambda>_. world maps opens m0 o0 hs) (world maps opens m0 o0 hs) (Umem_bind S u us p)"
    and "HQueue dq \<in># hs \<Longrightarrow> HUser us \<in># hs \<Longrightarrow>
      gives (\<lambda>_. world maps opens m0 o0 hs) (world maps opens m0 o0 hs) (DeviceQueue_bind S dq us p)"
  using call_gives[OF assms, of "UmemNew config area" pf] call_gives[OF assms, of "SocketNew info" pf]
    call_gives[OF assms, of "WithShared info u" pf] call_gives[OF assms, of "FqCq u s" pf]
    call_gives[OF assms, of "RxTx u s sc" pf] call_gives[OF assms, of "MapRx us" pf]
    call_gives[OF assms, of "MapTx us" pf] call_gives[OF assms, of "BindUmem u us" pf]
    call_gives[OF assms, of "BindQueue dq us" pf]
  by (simp_all add: gives_creates)

text \<open>Dropping what is held, one handle or a vector of them.\<close>

lemma drops_handle:
  assumes "accounts_all S maps opens"
  shows "world maps opens m0 o0 (add_mset h hs) p \<Longrightarrow> world maps opens m0 o0 hs (h_drop S h p)"
  by (rule drop_ok[OF accounts_allD(1)[OF assms]])

lemma drops_all:
  assumes "accounts_all S maps opens" and "\<And>x q. d x q = h_drop S (H x) q"
    and "world maps opens m0 o0 (image_mset H (mset xs) + hs) p"
  shows "world maps opens m0 o0 hs (fold d xs p)"
  using assms(3)
proof (induction xs arbitrary: p)
  case (Cons x xs)
  have "world maps opens m0 o0 (image_mset H (mset xs) + hs) (h_drop S (H x) p)"
    by (rule drops_handle[OF assms(1)]) (use Cons.prems in simp)
  from Cons.IH[OF this] show ?case by (simp add: assms(2))
qed simp

lemma unwinds:
  assumes "accounts_all S maps opens"
  shows "gives Q (world maps opens m0 o0 (add_mset (HUmem u) hs)) x \<Longrightarrow>
      gives Q (world maps opens m0 o0 hs) (unwind (Umem_drop S u) x)"
    and "gives Q (world maps opens m0 o0 (add_mset (HSocket s) hs)) x \<Longrightarrow>
      gives Q (world maps opens m0 o0 hs) (unwind (Socket_drop S s) x)"
    and "gives Q (world maps opens m0 o0 (add_mset (HQueue dq) hs)) x \<Longrightarrow>
      gives Q (world maps opens m0 o0 hs) (unwind (DeviceQueue_drop S dq) x)"
    and "gives Q (world maps opens m0 o0 (add_mset (HUser us) hs)) x \<Longrightarrow>
      gives Q (world maps opens m0 o0 hs) (unwind (User_drop S us) x)"
    and "gives Q (world maps opens m0 o0 (add_mset (HTx tx) hs)) x \<Longrightarrow>
      gives Q (world maps opens m0 o0 hs) (unwind (RingTx_drop S tx) x)"
  by (erule gives_unwind, drule drops_handle[OF assms], simp)+

subsection \<open>The set-up of \<open>flood\<close>\<close>

lemma ifinfo_of_accounts:
  assumes "accounts_all S maps opens" and "ifinfo_of S name q k = (r, k')"
  shows "maps k' = maps k \<and> opens k' = opens k"
  using assms(2) accounts_allD(8,9)[OF assms(1)]
  by (auto simp: ifinfo_of_def IfInfo_from_name_def Let_def case_prod_unfold obind_def split: if_splits outcome.splits)

lemma ifinfos_accounts:
  assumes "accounts_all S maps opens"
  shows "ifinfos S q names k = (r, k') \<Longrightarrow> maps k' = maps k \<and> opens k' = opens k"
proof (induction names arbitrary: k r k')
  case (Cons name names)
  obtain r1 k1 where 1: "ifinfo_of S name q k = (r1, k1)" by (metis surj_pair)
  note a = ifinfo_of_accounts[OF assms 1]
  obtain r2 k2 where 2: "ifinfos S q names k1 = (r2, k2)" by (metis surj_pair)
  show ?case
  proof (cases r1)
    case (Ok info)
    have "maps k2 = maps k1 \<and> opens k2 = opens k1" by (rule Cons.IH[OF 2])
    with Cons.prems 1 2 a show ?thesis by (cases r2) (auto simp: Ok)
  qed (use Cons.prems 1 a in auto)
qed simp

lemma on_os_gives:
  assumes "world maps opens m0 o0 hs p" and "\<And>r k. f (os p) = (r, k) \<Longrightarrow> maps k = maps (os p) \<and> opens k = opens (os p)"
  shows "gives (\<lambda>_. world maps opens m0 o0 hs) (world maps opens m0 o0 hs) (on_os f p)"
proof -
  obtain r k where run: "f (os p) = (r, k)" by (metis surj_pair)
  have "world maps opens m0 o0 hs (p\<lparr>os := k\<rparr>)"
    by (rule world_ok_same[OF assms(1)]) (simp_all add: assms(2)[OF run])
  then show ?thesis using run by (cases r) (auto simp: gives_def on_os_def)
qed

lemma assert_no_rx_gives:
  assumes "accounts_all S maps opens" and "world maps opens m0 o0 hs p" and "HUser us \<in># hs"
    and "panics_safely S pf (MapRx us)"
  shows "gives (\<lambda>_. world maps opens m0 o0 hs) (world maps opens m0 o0 hs) (assert_no_rx S pf us p)"
proof -
  obtain r p' where run: "User_map_rx S pf us p = (r, p')" by (metis surj_pair)
  note g = calls_give(6)[OF assms, unfolded run]
  show ?thesis
    using g drops_handle[OF assms(1), where h = "HRx _"] by (cases r) (auto simp: gives_def assert_no_rx_def run)
qed

text \<open>The rings that the clients ask for have sizes that are powers of two.\<close>

lemma client_sizes:
  assumes "maps_nonnull S"
  shows "umem_config u = UmemConfig_default \<Longrightarrow> panics_safely S pf (FqCq u s)"
    and "user_config us = flood_config \<Longrightarrow> panics_safely S pf (MapRx us)"
    and "user_config us = flood_config \<Longrightarrow> panics_safely S pf (MapTx us)"
    and "user_config us = mt_config \<Longrightarrow> panics_safely S pf (MapRx us)"
    and "user_config us = mt_config \<Longrightarrow> panics_safely S pf (MapTx us)"
proof -
  have "is_power_of_two 2048" "is_power_of_two 4096" "is_power_of_two 16384"
    by (auto simp: is_power_of_two_iff intro: exI[of _ 11] exI[of _ 12] exI[of _ 14])
  then show "umem_config u = UmemConfig_default \<Longrightarrow> panics_safely S pf (FqCq u s)"
    and "user_config us = flood_config \<Longrightarrow> panics_safely S pf (MapRx us)"
    and "user_config us = flood_config \<Longrightarrow> panics_safely S pf (MapTx us)"
    and "user_config us = mt_config \<Longrightarrow> panics_safely S pf (MapRx us)"
    and "user_config us = mt_config \<Longrightarrow> panics_safely S pf (MapTx us)"
    using assms by (auto simp: map_safe_def UmemConfig_default_def flood_config_def mt_config_def)
qed

definition flood_held :: "flood_setup \<Rightarrow> handle multiset" where
  "flood_held su = {#HTx (su_tx su), HUser (su_rxtx su), HQueue (su_device su), HSocket (su_sock su), HUmem (su_umem su)#}"

lemma flood_set_up_gives:
  assumes acc: "accounts_all S maps opens" and nn: "maps_nonnull S" and ok: "world maps opens m0 o0 {#} p"
  shows "gives (\<lambda>su. world maps opens m0 o0 (flood_held su)) (world maps opens m0 o0 {#}) (flood_set_up S pf args area p)"
proof -
  note call = calls_give[OF acc] and unw = unwinds[OF acc] and sizes = client_sizes[OF nn]
  show ?thesis
    unfolding flood_set_up_def
    apply (rule gives_obind[OF gives_unwrap[OF gives_and[OF call(1)[OF ok] Umem_new_config]]], assumption)
    apply (elim conjE, rule unw(1))
    apply (rule gives_obind[OF gives_unwrap[OF on_os_gives]], assumption)
     apply (simp only: ifinfo_def ifinfo_of_accounts[OF acc])
    apply (rule gives_obind[OF gives_unwrap[OF call(3)]], assumption, simp)
    apply (rule unw(2))
    apply (rule gives_obind[OF gives_unwrap[OF call(4)]], assumption, simp, simp, erule sizes(1))
    apply (rule unw(3))
    apply (rule gives_obind[OF gives_unwrap[OF gives_and[OF call(5) rx_tx_config]]], assumption, simp, simp, assumption)
    apply (elim conjE, rule unw(4))
    apply (rule gives_obind[OF assert_no_rx_gives[OF acc]], assumption, simp, erule sizes(2))
    apply (rule gives_obind[OF gives_unwrap[OF call(7)]], assumption, simp, erule sizes(3))
    apply (rule unw(5))
    apply (rule gives_obind[OF gives_unwrap[OF call(8)]], assumption, simp, simp)
    apply (rule gives_obind[OF gives_of_res], assumption)
    apply (simp add: flood_held_def split: prod.splits)
    done
qed

subsection \<open>Rounds\<close>

text \<open>Using a ring changes neither its mapping nor the socket it is on.\<close>

lemma send_same_handle:
  assumes "flood_send pf env m tx n desc = Inr (k, tx', m')"
  shows "same_handle (HTx tx) (HTx tx')"
  using assms
  by (auto simp: flood_send_def RingTx_transmit_def BufIdxIter_reserve_def reserve_def count_free_def Let_def
      WriteTx_insert_from_def WriteTx_commit_def WriteTx_drop_def RingProd_cancel_def res_simps
      split: prod.splits if_splits)

lemma count_reads_queue: "count_reads pf m w n = Inr (k, w') \<Longrightarrow> rc_queue w' = rc_queue w"
proof (induction pf m w n rule: count_reads.induct)
  case (1 pf m w n)
  then show ?case
    by (subst (asm) (2) count_reads.simps)
      (auto simp: ReadComplete_read_def res_simps split: prod.splits option.splits)
qed

lemma reap_same_handle:
  assumes "flood_reap pf env env' m dq n = Inr (k, dq', m')"
  shows "same_handle (HQueue dq) (HQueue dq')"
  using assms
  by (auto simp: flood_reap_def DeviceQueue_complete_def BufIdxIter_peek_def peek_def count_available_def Let_def
      ReadComplete_release_def ReadComplete_drop_def RingCons_cancel_def res_simps
      dest!: count_reads_queue split: prod.splits if_splits)

lemma uses_handle:
  "same_handle h h' \<Longrightarrow> world maps opens m0 o0 (add_mset h hs) p \<Longrightarrow> world maps opens m0 o0 (add_mset h' hs) p"
  by (rule use_ok)

lemma wakes_tx:
  assumes "accounts_all S maps opens" and "world maps opens m0 o0 hs p"
  shows "world maps opens m0 o0 hs (RingTx_wake S tx p)"
  by (rule quiet_calls(4)[OF assms])

text \<open>What \<open>main\<close> holds while it loops.\<close>

definition flood_holds :: "flood_setup \<Rightarrow> 'k flood \<Rightarrow> handle multiset" where
  "flood_holds su st =
     {#HTx (fl_tx st), HUser (su_rxtx su), HQueue (fl_device st), HSocket (su_sock su), HUmem (su_umem su)#}"

lemma flood_round_holds:
  assumes acc: "accounts_all S maps opens" and run: "flood_round S pf batch tot desc r st = Inr st'"
    and ok: "world maps opens m0 o0 (flood_holds su st) (fl_proc st)"
  shows "world maps opens m0 o0 (flood_holds su st') (fl_proc st')"
proof -
  let ?W = "world maps opens m0 o0" and ?rest = "{#HUser (su_rxtx su), HSocket (su_sock su), HUmem (su_umem su)#}"
  obtain sent_now tx m1 p woken comp_now device m3 where
    send: "flood_send pf (kr_submit r) (kr_start r (fl_mem st)) (fl_tx st)
      (min (saturating_sub tot (fl_sent st)) batch) desc = Inr (sent_now, tx, m1)"
    and wake: "flood_wake S pf (RingTx_needs_wakeup (kr_flags r m1) tx) tx (fl_proc st, fl_woken st) = Inr (p, woken)"
    and reap: "flood_reap pf (kr_peek r) (kr_release r) (kr_wait r (RingTx_needs_wakeup (kr_flags r m1) tx) (kr_flags r m1))
      (fl_device st) (min (saturating_sub (fl_sent st) (fl_completed st)) batch) = Inr (comp_now, device, m3)"
    and st': "fl_tx st' = tx" "fl_device st' = device" "fl_proc st' = p"
    using run by (auto simp: flood_round_def flood_stats_def Let_def res_simps)
  have "?W (add_mset (HTx (fl_tx st)) (add_mset (HQueue (fl_device st)) ?rest)) (fl_proc st)"
    using ok by (simp add: flood_holds_def add_mset_commute)
  from uses_handle[OF send_same_handle[OF send] this]
  have "?W (add_mset (HQueue (fl_device st)) (add_mset (HTx tx) ?rest)) (fl_proc st)" by (simp add: add_mset_commute)
  from uses_handle[OF reap_same_handle[OF reap] this]
  have "?W (add_mset (HQueue device) (add_mset (HTx tx) ?rest)) (fl_proc st)" .
  moreover from this have "?W (add_mset (HQueue device) (add_mset (HTx tx) ?rest)) p"
    using wake wakes_tx[OF acc] by (auto simp: flood_wake_def res_simps split: if_splits)
  ultimately show ?thesis by (simp add: flood_holds_def st' add_mset_commute)
qed

lemma flood_loop_holds:
  assumes acc: "accounts_all S maps opens"
    and "flood_loop S pf batch tot desc ks n st = Some r" and "r = Inr st'"
    and "world maps opens m0 o0 (flood_holds su st) (fl_proc st)"
  shows "world maps opens m0 o0 (flood_holds su st') (fl_proc st')"
proof -
  let ?P = "\<lambda>S' pf' batch' tot' desc' ks' n st r. S' = S \<longrightarrow> (\<forall>st'. r = Inr st' \<longrightarrow>
    world maps opens m0 o0 (flood_holds su st) (fl_proc st) \<longrightarrow> world maps opens m0 o0 (flood_holds su st') (fl_proc st'))"
  have "?P S pf batch tot desc ks n st r"
  proof (rule flood_loop.raw_induct[where P = ?P, OF _ assms(2)], intro impI allI)
    fix loop S' pf' batch' tot' desc' ks' n st r st'
    assume IH: "\<And>S' pf batch tot desc ks n st r. loop S' pf batch tot desc ks n st = Some r \<Longrightarrow> ?P S' pf batch tot desc ks n st r"
      and body: "(if flood_done tot' st then Some (Inr st)
        else case flood_round S' pf' batch' tot' desc' (ks' n) st of Inl e \<Rightarrow> Some (Inl e)
        | Inr st1 \<Rightarrow> loop S' pf' batch' tot' desc' ks' (Suc n) st1) = Some r"
      and "S' = S" "r = Inr st'" and ok: "world maps opens m0 o0 (flood_holds su st) (fl_proc st)"
    then show "world maps opens m0 o0 (flood_holds su st') (fl_proc st')"
      using flood_round_holds[OF acc _ ok, of pf' batch' tot' desc' "ks' n"]
      by (auto split: if_splits sum.splits)
  qed
  with assms(3,4) show ?thesis by simp
qed

lemma flood_exit_frees:
  assumes "accounts_all S maps opens" and "world maps opens m0 o0 (flood_holds su st) (fl_proc st)"
  shows "world maps opens m0 o0 {#} (flood_exit S su st)"
proof -
  note drop = drops_handle[OF assms(1)]
  have "world maps opens m0 o0 (add_mset (HQueue (fl_device st)) (add_mset (HTx (fl_tx st))
      (add_mset (HUser (su_rxtx su)) (add_mset (HSocket (su_sock su)) {#HUmem (su_umem su)#})))) (fl_proc st)"
    using assms(2) by (simp add: flood_holds_def add_mset_commute)
  from drop[OF drop[OF drop[OF drop[OF drop[OF this]]]]] show ?thesis by (simp add: flood_exit_def)
qed

subsection \<open>No other way out\<close>

text \<open>Only the argument check of \<open>flood-mt\<close> exits.\<close>

definition exits :: "'a outcome \<times> 's \<Rightarrow> bool" where
  "exits x \<longleftrightarrow> fst x = Panic Exited"

lemma exits_simps [simp]:
  "\<not> exits (Ok a, s)" "\<not> exits (Err e, s)" "exits (Panic q, s) \<longleftrightarrow> q = Exited"
  "exits (on_os f p) \<longleftrightarrow> exits (f (os p))"
  by (simp_all add: exits_def on_os_def split: prod.splits)

lemma exits_wrapped [simp]:
  "exits (unwrap x) \<longleftrightarrow> exits x" "exits (unwind d x) \<longleftrightarrow> exits x" "exits (on_fail d x) \<longleftrightarrow> exits x"
  by (cases x; cases "fst x"; simp add: exits_def unwrap_def)+

lemma exits_mapped [simp]: "exits (apfst (map_outcome g) x) \<longleftrightarrow> exits x" "exits (map_outcome g r, s) \<longleftrightarrow> exits (r, s)"
  by (cases x; cases "fst x"; simp add: exits_def) (cases r; simp add: exits_def)

lemma exits_of_res [simp]: "exits (of_res y, s) \<longleftrightarrow> y = Inl Exited"
  by (cases y) (simp_all add: exits_def)

lemma exits_obind [simp]: "\<not> exits x \<Longrightarrow> (\<And>a s. \<not> exits (f a s)) \<Longrightarrow> \<not> exits (obind x f)"
  by (cases x; cases "fst x") (auto simp: exits_def)

lemma chk_exits [simp]:
  "add_chk pf a b \<noteq> Inl Exited" "sub_chk pf a b \<noteq> Inl Exited" "mul_chk pf a b \<noteq> Inl Exited"
  by (simp_all add: add_chk_def sub_chk_def mul_chk_def)

lemma setsockopt_exits [simp]: "\<not> exits (setsockopt_or S fd opt bs k)"
  by (simp add: setsockopt_or_def split: prod.splits)

lemma map_exits [simp]: "\<not> exits (XskRing_map S pf fd off n sz offset k)"
proof -
  have "XskRing_new pf m a off n \<noteq> Inl Exited" for m a
    by (auto simp: XskRing_new_def Let_def res_simps)
  then show ?thesis by (auto simp: XskRing_map_def res_simps split: sum.splits prod.splits)
qed

lemma offsets_exits [simp]: "\<not> exits (SocketMmapOffsets_new S pf fd k)"
proof -
  have "fixup_all pf v \<noteq> Inl Exited" for v by (auto simp: fixup_all_def fixup_v1_def Let_def res_simps)
  then show ?thesis
    by (auto simp: SocketMmapOffsets_new_def SocketMmapOffsets_set_from_fd_def Let_def split: prod.splits sum.splits)
qed

lemma calls_exit [simp]:
  "\<not> exits (Umem_new S pf config area p)" "\<not> exits (Socket_new S info p)" "\<not> exits (Socket_with_shared S info u p)"
  "\<not> exits (Umem_fq_cq S pf u s p)" "\<not> exits (Umem_rx_tx S pf s sc p)" "\<not> exits (User_map_rx S pf us p)"
  "\<not> exits (User_map_tx S pf us p)" "\<not> exits (Umem_bind S u us p)" "\<not> exits (DeviceQueue_bind S dq us p)"
  "\<not> exits (ifinfo_of S name q k)"
  apply (auto simp: Umem_new_def is_page_aligned_def SocketFd_new_def Umem_configure_def Let_def res_simps DeviceControl_new_def arc_new_def split: sum.splits bool.splits prod.splits)[1]
  apply (auto simp: Socket_new_def SocketFd_new_def Socket_with_xdp_socket_def Let_def arc_new_def split: prod.splits)[1]
  apply (auto simp: Socket_with_shared_def Socket_with_xdp_socket_def Let_def split: prod.splits)[1]
  apply (auto simp: Umem_fq_cq_def fq_cq_rings_def Umem_configure_cq_def RingProd_fill_def RingCons_comp_def Let_def split: prod.splits)[1]
  apply (auto simp: Umem_rx_tx_def Umem_configure_rt_def Let_def split: option.splits)[1]
  apply (auto simp: User_map_rx_def RingCons_rx_def split: option.splits)[1]
  apply (auto simp: User_map_tx_def RingProd_tx_def split: option.splits)[1]
  apply (auto simp: Umem_bind_def Umem_bind_at_def split: prod.splits)[1]
  apply (auto simp: DeviceQueue_bind_def Umem_bind_at_def split: prod.splits)[1]
  apply (auto simp: ifinfo_of_def IfInfo_from_name_def Let_def split: prod.splits)[1]
  done

lemma flood_set_up_exits: "\<not> exits (flood_set_up S pf args area p)"
proof -
  have "\<not> exits (assert_no_rx S pf us q)" for us q
    using calls_exit(6)[of S pf us q] by (auto simp: assert_no_rx_def exits_def split: prod.splits outcome.splits)
  moreover have "prepare_frame pf u idx len m \<noteq> Inl Exited" for u idx len m
    by (auto simp: prepare_frame_def prepare_buffer_eq Umem_frame_def Let_def res_simps split: option.splits if_splits)
  ultimately show ?thesis by (simp add: flood_set_up_def ifinfo_def split: prod.splits)
qed

subsection \<open>The set-up of \<open>flood-mt\<close>\<close>

definition vectors ::
  "Umem \<Rightarrow> DeviceQueue list \<Rightarrow> Socket list \<Rightarrow> User list \<Rightarrow> RingTx list \<Rightarrow> handle multiset" where
  "vectors u ds ss bs txs = image_mset HTx (mset txs) + image_mset HUser (mset bs) +
     image_mset HQueue (mset ds) + image_mset HSocket (mset ss) + {#HUmem u#}"

lemma vectors_snoc:
  "vectors u (ds @ [dq]) ss bs txs = add_mset (HQueue dq) (vectors u ds ss bs txs)"
  "vectors u ds (ss @ [s]) bs txs = add_mset (HSocket s) (vectors u ds ss bs txs)"
  "vectors u ds ss (bs @ [us]) txs = add_mset (HUser us) (vectors u ds ss bs txs)"
  "vectors u ds ss bs (txs @ [tx]) = add_mset (HTx tx) (vectors u ds ss bs txs)"
  by (simp_all add: vectors_def)

lemma vectors_mem:
  "HUmem u \<in># vectors u ds ss bs txs"
  "us \<in> set bs \<Longrightarrow> HUser us \<in># vectors u ds ss bs txs"
  "dq \<in> set ds \<Longrightarrow> HQueue dq \<in># vectors u ds ss bs txs"
  by (auto simp: vectors_def)

lemma mt_unwind_frees:
  assumes "accounts_all S maps opens" and "world maps opens m0 o0 (vectors u ds ss bs txs) p"
  shows "world maps opens m0 o0 {#HUmem u#} (mt_unwind S ds ss bs txs p)"
proof -
  note drops = drops_all[OF assms(1)]
  have "world maps opens m0 o0 (image_mset HSocket (mset ss) + (image_mset HQueue (mset ds) +
      (image_mset HUser (mset bs) + (image_mset HTx (mset txs) + {#HUmem u#})))) p"
    using assms(2) by (simp add: vectors_def ac_simps)
  then have "world maps opens m0 o0 (image_mset HQueue (mset ds) +
      (image_mset HUser (mset bs) + (image_mset HTx (mset txs) + {#HUmem u#}))) (fold (Socket_drop S) ss p)" (is "world_ok _ _ _ _ (_, ?p1)")
    by (rule drops[rotated]) simp
  then have "world maps opens m0 o0 (image_mset HUser (mset bs) + (image_mset HTx (mset txs) + {#HUmem u#}))
      (fold (DeviceQueue_drop S) ds ?p1)" (is "world_ok _ _ _ _ (_, ?p2)") by (rule drops[rotated]) simp
  then have "world maps opens m0 o0 (image_mset HTx (mset txs) + {#HUmem u#}) (fold (User_drop S) bs ?p2)" (is "world_ok _ _ _ _ (_, ?p3)")
    by (rule drops[rotated]) simp
  then have "world maps opens m0 o0 {#HUmem u#} (fold (RingTx_drop S) txs ?p3)" by (rule drops[rotated]) simp
  then show ?thesis by (simp add: mt_unwind_def)
qed

lemma mt_open_gives:
  assumes acc: "accounts_all S maps opens" and nn: "maps_nonnull S" and conf: "umem_config u = UmemConfig_default"
    and "world maps opens m0 o0 (vectors u ds ss bs []) p" and "list_all (\<lambda>us. user_config us = mt_config) bs"
  shows "gives (\<lambda>(ds, ss, bs) p. world maps opens m0 o0 (vectors u ds ss bs []) p \<and>
      list_all (\<lambda>us. user_config us = mt_config) bs) (world maps opens m0 o0 {#HUmem u#})
    (mt_open S pf u todo ds ss bs p)"
  using assms(4,5)
proof (induction todo arbitrary: ds ss bs p)
  case (Cons t todo)
  obtain idx dev_idx info where t: "t = (idx, dev_idx, info)" by (metis surj_pair)
  let ?W = "world maps opens m0 o0"
  note call = calls_give[OF acc] and undo = mt_unwind_frees[OF acc]
  have undo': "?W {#HUmem u#} (mt_unwind S ds ss bs [] (Socket_drop S s q))"
    if "?W (add_mset (HSocket s) (vectors u ds ss bs [])) q" for ds s q
    using undo drops_handle[OF acc that] by simp
  have 1: "gives (\<lambda>s. ?W (add_mset (HSocket s) (vectors u ds ss bs []))) (?W {#HUmem u#})
      (unwind (mt_unwind S ds ss bs []) (unwrap (if idx = 0 then Socket_with_shared S info u p else Socket_new S info p)))"
    by (rule gives_unwind[OF gives_unwrap, where E' = "?W (vectors u ds ss bs [])"])
      (use call(2,3)[OF Cons.prems(1)] vectors_mem(1) undo in simp_all)
  have 2: "gives (\<lambda>ds1. ?W (add_mset (HSocket s) (vectors u ds1 ss bs []))) (?W {#HUmem u#})
      (unwind (\<lambda>q. mt_unwind S ds ss bs [] (Socket_drop S s q))
        (if idx = dev_idx then obind (unwrap (Umem_fq_cq S pf u s q)) (\<lambda>dq q. (Ok (ds @ [dq]), q)) else (Ok ds, q)))"
    if "?W (add_mset (HSocket s) (vectors u ds ss bs [])) q" for s q
  proof (rule gives_unwind)
    show "gives (\<lambda>ds1. ?W (add_mset (HSocket s) (vectors u ds1 ss bs []))) (?W (add_mset (HSocket s) (vectors u ds ss bs [])))
        (if idx = dev_idx then obind (unwrap (Umem_fq_cq S pf u s q)) (\<lambda>dq q. (Ok (ds @ [dq]), q)) else (Ok ds, q))"
      using that client_sizes(1)[OF nn conf] vectors_mem(1)
      by (auto intro!: gives_obind[OF gives_unwrap[OF call(4)[OF that]]] simp: vectors_snoc add_mset_commute
          simp del: panics_safely.simps)
  qed (rule undo')
  have 3: "gives (\<lambda>us q. ?W (add_mset (HUser us) (add_mset (HSocket s) (vectors u ds ss bs []))) q \<and> user_config us = mt_config)
      (?W {#HUmem u#}) (unwind (\<lambda>q. mt_unwind S ds ss bs [] (Socket_drop S s q)) (unwrap (Umem_rx_tx S pf s mt_config q)))"
    if "?W (add_mset (HSocket s) (vectors u ds ss bs [])) q" for ds s q
  proof (rule gives_unwind[OF gives_unwrap])
    show "gives (\<lambda>us q. ?W (add_mset (HUser us) (add_mset (HSocket s) (vectors u ds ss bs []))) q \<and> user_config us = mt_config)
        (?W (add_mset (HSocket s) (vectors u ds ss bs []))) (Umem_rx_tx S pf s mt_config q)"
      by (rule gives_and[OF call(5)[OF that, where u = u] rx_tx_config]) (use vectors_mem(1) in auto)
  qed (rule undo')
  show ?case
    unfolding t mt_open.simps
    by (intro gives_obind[OF 1] gives_obind[OF 2] gives_obind[OF 3] Cons.IH; (elim conjE)?)
      (use Cons.prems(2) in \<open>auto simp: vectors_snoc add_mset_commute\<close>)
qed simp

lemma mt_bind_gives:
  assumes acc: "accounts_all S maps opens" and u: "HUmem u \<in># hs"
    and "world maps opens m0 o0 hs p" and "\<And>i d dq us. (i, (d, dq), us) \<in> set todo \<Longrightarrow> HQueue dq \<in># hs \<and> HUser us \<in># hs"
  shows "gives (\<lambda>_. world maps opens m0 o0 hs) (world maps opens m0 o0 hs) (mt_bind S u todo p)"
  using assms(3,4)
proof (induction todo arbitrary: p)
  case (Cons t todo)
  obtain i d dq us where t: "t = (i, (d, dq), us)" by (metis surj_pair)
  with Cons.prems(2) have h: "HQueue dq \<in># hs" "HUser us \<in># hs" by auto
  have 1: "gives (\<lambda>_. world maps opens m0 o0 hs) (world maps opens m0 o0 hs)
      (unwrap (if i = d then Umem_bind S u us p else DeviceQueue_bind S dq us p))"
    by (rule gives_unwrap) (use calls_give(8,9)[OF acc Cons.prems(1)] u h in simp)
  show ?case
    unfolding t mt_bind.simps by (intro gives_obind[OF 1] Cons.IH) (use Cons.prems(2) in auto)
qed simp

lemma mt_map_gives:
  assumes acc: "accounts_all S maps opens" and nn: "maps_nonnull S"
    and undo: "\<And>txs p. world maps opens m0 o0 (vectors u ds ss bs txs) p \<Longrightarrow> E (undo txs p)"
    and "world maps opens m0 o0 (vectors u ds ss bs txs) p"
    and "\<And>us. us \<in> set todo \<Longrightarrow> us \<in> set bs \<and> user_config us = mt_config"
  shows "gives (\<lambda>txs. world maps opens m0 o0 (vectors u ds ss bs txs)) E (mt_map S pf undo todo txs p)"
  using assms(4,5)
proof (induction todo arbitrary: txs p)
  case (Cons us todo)
  let ?W = "world maps opens m0 o0" and ?v = "vectors u ds ss bs txs"
  have us: "HUser us \<in># ?v" "user_config us = mt_config" using Cons.prems(2)[of us] vectors_mem(2) by auto
  note safe = client_sizes(4,5)[OF nn us(2)]
  have 1: "gives (\<lambda>tx. ?W (add_mset (HTx tx) ?v)) E (unwind (undo txs) (unwrap (User_map_tx S pf us p)))"
    by (rule gives_unwind[OF gives_unwrap[OF calls_give(7)[OF acc Cons.prems(1) us(1) safe(2)]]], rule undo)
  have 2: "gives (\<lambda>_. ?W (add_mset (HTx tx) ?v)) E (unwind (\<lambda>q. undo txs (RingTx_drop S tx q)) (assert_no_rx S pf us q))"
    if "?W (add_mset (HTx tx) ?v) q" for tx q
  proof (rule gives_unwind)
    show "gives (\<lambda>_. ?W (add_mset (HTx tx) ?v)) (?W (add_mset (HTx tx) ?v)) (assert_no_rx S pf us q)"
      by (rule assert_no_rx_gives[OF acc that _ safe(1)]) (use us in simp)
    show "E (undo txs (RingTx_drop S tx q'))" if "?W (add_mset (HTx tx) ?v) q'" for q'
      using undo drops_handle[OF acc that] by simp
  qed
  show ?case
    unfolding mt_map.simps
    by (intro gives_obind[OF 1] gives_obind[OF 2] Cons.IH) (use Cons.prems(2) in \<open>auto simp: vectors_snoc\<close>)
qed simp

lemma cycled_set: "x \<in> set (cycled xs n) \<Longrightarrow> snd x \<in> set xs"
  by (cases x) (auto simp: cycled_def enumerate_eq_zip dest!: in_set_takeD set_zip_rightD split: if_splits)

lemma mt_bound_gives:
  assumes acc: "accounts_all S maps opens" and ok: "world maps opens m0 o0 (vectors u ds ss bs []) p"
  shows "gives (\<lambda>_. world maps opens m0 o0 (vectors u ds ss bs [])) (world maps opens m0 o0 {#HUmem u#})
    (unwind (mt_unwind S ds ss bs []) (mt_bind S u (enumerate 0 (zip (cycled ds (length bs)) bs)) p))"
proof (rule gives_unwind)
  have "dq \<in> set ds \<and> us \<in> set bs" if "(i, (d, dq), us) \<in> set (enumerate 0 (zip (cycled ds (length bs)) bs))" for i d dq us
  proof -
    have "((d, dq), us) \<in> set (zip (cycled ds (length bs)) bs)"
      using set_zip_rightD[OF that[unfolded enumerate_eq_zip]] .
    from set_zip_leftD[OF this] set_zip_rightD[OF this] show ?thesis using cycled_set[of "(d, dq)"] by simp
  qed
  then show "gives (\<lambda>_. world maps opens m0 o0 (vectors u ds ss bs [])) (world maps opens m0 o0 (vectors u ds ss bs []))
      (mt_bind S u (enumerate 0 (zip (cycled ds (length bs)) bs)) p)"
    by (intro mt_bind_gives[OF acc _ ok]) (use vectors_mem in auto)
qed (rule mt_unwind_frees[OF acc])

definition mt_held :: "mt_setup \<Rightarrow> handle multiset" where
  "mt_held ms = vectors (ms_umem ms) (ms_devices ms) (ms_socks ms) (ms_to_binds ms) (ms_txs ms)"

lemma mt_set_up_gives:
  assumes acc: "accounts_all S maps opens" and nn: "maps_nonnull S" and ok: "world maps opens m0 o0 {#} p"
  shows "gives (\<lambda>ms. world maps opens m0 o0 (mt_held ms)) (world maps opens m0 o0 {#}) (mt_set_up S pf args area p)"
proof -
  note call = calls_give[OF acc] and unw = unwinds[OF acc] and undo = mt_unwind_frees[OF acc]
  have info: "maps k = maps k0 \<and> opens k = opens k0" if "mt_ifinfo S args k0 = (r, k)" for k0 r k
    using that ifinfos_accounts[OF acc] by (auto simp: mt_ifinfo_def split: if_splits)
  show ?thesis
    unfolding mt_set_up_def
    apply (rule gives_obind[OF gives_unwrap[OF gives_and[OF call(1)[OF ok] Umem_new_config]]], assumption)
    apply (elim conjE, rule unw(1))
    apply (rule gives_obind[OF gives_unwrap[OF on_os_gives[OF _ info]]], assumption, assumption)
    apply (rule gives_obind[OF mt_open_gives[OF acc nn]], assumption, simp add: vectors_def, simp)
    apply (clarsimp, rule gives_obind[OF mt_bound_gives[OF acc]], assumption)
    apply (rule gives_obind[OF mt_map_gives[OF acc nn]], erule undo, assumption, simp add: list_all_iff)
    apply (rule gives_obind[OF gives_unwind[OF gives_of_res]], assumption, erule undo)
    apply (simp add: mt_held_def split: prod.splits)
    done
qed

subsection \<open>The threads of \<open>flood-mt\<close>\<close>

text \<open>What a thread owns until it ends, and what all of them and \<open>main\<close> hold.\<close>

definition completer_holds :: "completer \<Rightarrow> handle multiset" where
  "completer_holds th = (if cp_pc th = CEnd then {#} else {#HQueue (cp_queue th)#})"

definition sender_holds :: "sender \<Rightarrow> handle multiset" where
  "sender_holds th = (if sd_pc th = SEnd then {#} else {#HTx (sd_tx th)#})"

definition mt_holds :: "mt_setup \<Rightarrow> 'k mt \<Rightarrow> handle multiset" where
  "mt_holds ms st = sum_list (map sender_holds (mt_senders st)) + sum_list (map completer_holds (mt_completers st)) +
     vectors (ms_umem ms) [] (ms_socks ms) (ms_to_binds ms) []"

lemma one_thread:
  fixes f :: "'a \<Rightarrow> 'b multiset"
  assumes "i < length xs"
  obtains R where "sum_list (map f xs) = f (xs ! i) + R" and "\<And>y. sum_list (map f (xs[i := y])) = f y + R"
proof
  show "sum_list (map f xs) = f (xs ! i) + (sum_list (map f (take i xs)) + sum_list (map f (drop (Suc i) xs)))"
    by (subst id_take_nth_drop[OF assms]) (simp add: ac_simps)
  show "sum_list (map f (xs[i := y])) = f y + (sum_list (map f (take i xs)) + sum_list (map f (drop (Suc i) xs)))" for y
    by (simp add: upd_conv_take_nth_drop[OF assms] ac_simps)
qed

lemma completer_step_holds:
  assumes acc: "accounts_all S maps opens" and run: "completer_step S pf batch tot env env' sh th = Inr (sh', th')"
    and ok: "world maps opens m0 o0 (completer_holds th + R) (sh_proc sh)"
  shows "world maps opens m0 o0 (completer_holds th' + R) (sh_proc sh')"
proof (cases "cp_pc th")
  case CLoad
  with ok have "world maps opens m0 o0 R (DeviceQueue_drop S (cp_queue th) (sh_proc sh))"
    using drops_handle[OF acc, where h = "HQueue (cp_queue th)"] by (simp add: completer_holds_def)
  with CLoad run ok show ?thesis by (auto simp: completer_step_def completer_holds_def split: if_splits)
next
  case (CReap b)
  with run obtain n dq m where reap: "flood_reap pf env env' (sh_mem sh) (cp_queue th) b = Inr (n, dq, m)"
    and "sh_proc sh' = sh_proc sh" "cp_queue th' = dq" "cp_pc th' \<noteq> CEnd"
    by (auto simp: completer_step_def res_simps split: if_splits)
  with uses_handle[OF reap_same_handle[OF reap]] ok CReap show ?thesis by (simp add: completer_holds_def)
qed (use run ok in \<open>auto simp: completer_step_def completer_holds_def res_simps\<close>)

lemma sender_step_holds:
  assumes acc: "accounts_all S maps opens" and run: "sender_step S pf batch tot desc env sh th = Inr (sh', th')"
    and ok: "world maps opens m0 o0 (sender_holds th + R) (sh_proc sh)"
  shows "world maps opens m0 o0 (sender_holds th' + R) (sh_proc sh')"
proof (cases "sd_pc th")
  case SLoadCompleted
  with ok have "world maps opens m0 o0 R (RingTx_drop S (sd_tx th) (sh_proc sh))"
    using drops_handle[OF acc, where h = "HTx (sd_tx th)"] by (simp add: sender_holds_def)
  with SLoadCompleted run ok show ?thesis by (auto simp: sender_step_def sender_holds_def split: if_splits)
next
  case (SSend b)
  with run obtain n tx m where send: "flood_send pf env (sh_mem sh) (sd_tx th) b desc = Inr (n, tx, m)"
    and "sh_proc sh' = sh_proc sh" "sd_tx th' = tx" "sd_pc th' \<noteq> SEnd"
    by (auto simp: sender_step_def res_simps split: if_splits)
  with uses_handle[OF send_same_handle[OF send]] ok SSend show ?thesis by (simp add: sender_holds_def)
next
  case (SWake b n)
  with run ok wakes_tx[OF acc] show ?thesis by (auto simp: sender_step_def sender_holds_def res_simps)
qed (use run ok in \<open>auto simp: sender_step_def sender_holds_def res_simps Let_def split: if_splits\<close>)

lemma mt_step_holds:
  assumes acc: "accounts_all S maps opens" and "mt_step S pf batch tot desc st st'"
    and ok: "world maps opens m0 o0 (mt_holds ms st) (sh_proc (mt_shared st))"
  shows "world maps opens m0 o0 (mt_holds ms st') (sh_proc (mt_shared st'))"
  using assms(2)
proof (cases rule: mt_step.cases)
  case (mt_complete i env env' sh th)
  obtain R where R: "sum_list (map completer_holds (mt_completers st)) = completer_holds (mt_completers st ! i) + R"
      "sum_list (map completer_holds ((mt_completers st)[i := th])) = completer_holds th + R"
    using one_thread[OF mt_complete(2)] by metis
  from ok completer_step_holds[OF acc mt_complete(3), where R = "R + sum_list (map sender_holds (mt_senders st)) +
      vectors (ms_umem ms) [] (ms_socks ms) (ms_to_binds ms) []" and ?m0.0 = m0 and ?o0.0 = o0] show ?thesis
    by (simp add: mt_holds_def R mt_complete(1) ac_simps)
next
  case (mt_send i env sh th)
  obtain R where R: "sum_list (map sender_holds (mt_senders st)) = sender_holds (mt_senders st ! i) + R"
      "sum_list (map sender_holds ((mt_senders st)[i := th])) = sender_holds th + R"
    using one_thread[OF mt_send(2)] by metis
  from ok sender_step_holds[OF acc mt_send(3), where R = "R + sum_list (map completer_holds (mt_completers st)) +
      vectors (ms_umem ms) [] (ms_socks ms) (ms_to_binds ms) []" and ?m0.0 = m0 and ?o0.0 = o0] show ?thesis
    by (simp add: mt_holds_def R mt_send(1) ac_simps)
qed (use ok in \<open>simp add: mt_holds_def\<close>)

lemma mt_steps_hold:
  assumes "(mt_step S pf batch tot desc)\<^sup>*\<^sup>* st st'" and "accounts_all S maps opens"
    and "world maps opens m0 o0 (mt_holds ms st) (sh_proc (mt_shared st))"
  shows "world maps opens m0 o0 (mt_holds ms st') (sh_proc (mt_shared st'))"
  using assms by (induction rule: rtranclp_induct) (auto intro: mt_step_holds)

lemma mset_enumerate: "{#f (snd x). x \<in># mset (enumerate n xs)#} = image_mset f (mset xs)"
  by (induction xs arbitrary: n) simp_all

lemma mt_init_holds: "mt_holds ms (mt_init p ms) = mt_held ms"
  by (simp add: mt_holds_def mt_held_def mt_init_def vectors_def comp_def sender_holds_def completer_holds_def
      case_prod_unfold mset_enumerate ac_simps)

lemma mt_exit_drops:
  assumes acc: "accounts_all S maps opens"
    and ok: "world maps opens m0 o0 (vectors (ms_umem ms) [] (ms_socks ms) (ms_to_binds ms) []) (sh_proc (mt_shared st))"
  shows "world maps opens m0 o0 {#} (mt_exit S ms st)"
proof -
  from mt_unwind_frees[OF acc ok] have "world maps opens m0 o0 (add_mset (HUmem (ms_umem ms)) {#})
      (fold (User_drop S) (ms_to_binds ms) (fold (Socket_drop S) (ms_socks ms) (sh_proc (mt_shared st))))"
    by (simp add: mt_unwind_def)
  from drops_handle[OF acc this] show ?thesis by (simp add: mt_exit_def)
qed

lemma mt_exit_frees:
  assumes acc: "accounts_all S maps opens" and ok: "world maps opens m0 o0 (mt_holds ms st) (sh_proc (mt_shared st))"
    and fin: "mt_ended st"
  shows "world maps opens m0 o0 {#} (mt_exit S ms st)"
proof (rule mt_exit_drops[OF acc])
  have "sum_list (map sender_holds (mt_senders st)) = {#}" "sum_list (map completer_holds (mt_completers st)) = {#}"
    using fin by (auto simp: mt_ended_def list_all_iff sender_holds_def completer_holds_def intro!: sum_list_0 cong: map_cong)
  with ok show "world maps opens m0 o0 (vectors (ms_umem ms) [] (ms_socks ms) (ms_to_binds ms) []) (sh_proc (mt_shared st))"
    by (simp add: mt_holds_def)
qed

subsection \<open>Properties\<close>

text \<open>Nothing is left of what came into being since the start.\<close>

definition freed :: "('k \<Rightarrow> slice multiset) \<Rightarrow> ('k \<Rightarrow> c_int multiset) \<Rightarrow> 'k proc \<Rightarrow> 'k proc \<Rightarrow> bool" where
  "freed maps opens p q \<longleftrightarrow> maps (os q) = maps (os p) \<and> opens (os q) = opens (os p) \<and>
     set (ctls q) \<subseteq> {[]} \<and> set (map snd (fds q)) \<subseteq> {0}"

lemma world_freed: "world maps opens (maps (os p)) (opens (os p)) {#} q \<Longrightarrow> freed maps opens p q"
  using nothing_held[of maps opens "maps (os p)" "opens (os p)" q] by (simp add: freed_def)

lemma demo_nonnull: "maps_nonnull demo_libc"
  by (simp add: maps_nonnull_def demo_libc_def Let_def MAP_FAILED_def)

text \<open>
  In either build and on any system that accounts for mappings and descriptors: if the set-up of \<open>flood\<close>
  fails, whichever of its calls or assertions it is that fails or panics, unwinding leaves nothing of it behind;
  if it succeeds and the loop ends, the end of \<open>main\<close> leaves nothing behind, whatever the kernel did
  meanwhile: every mapping is gone, every descriptor is closed, once, and no queue stays claimed.
\<close>

theorem flood_leaves_nothing:
  assumes "accounts_all S maps opens" and "maps_nonnull S" and "fds p = []" and "ctls p = []"
  shows "case flood_set_up S pf args area p of
      (Ok su, p1) \<Rightarrow>
        (\<forall>ks st. flood_loop S pf (flood_batch args) (flood_total args) (su_desc su) ks 0 (flood_init p1 su) = Some (Inr st) \<longrightarrow>
           freed maps opens p (flood_exit S su st))
    | (Err e, p1) \<Rightarrow> freed maps opens p p1
    | (Panic e, p1) \<Rightarrow> freed maps opens p p1"
proof -
  obtain r p1 where run: "flood_set_up S pf args area p = (r, p1)" by (metis surj_pair)
  note up = flood_set_up_gives[OF assms(1,2) start_ok[OF assms(3,4)], where pf = pf and args = args and area = area,
    unfolded run gives_def prod.case]
  show ?thesis
  proof (cases r)
    case (Ok su)
    have "freed maps opens p (flood_exit S su st)"
      if "flood_loop S pf (flood_batch args) (flood_total args) (su_desc su) ks 0 (flood_init p1 su) = Some (Inr st)" for ks st
    proof -
      have "flood_holds su (flood_init p1 su) = flood_held su" "fl_proc (flood_init p1 su) = p1"
        by (simp_all add: flood_holds_def flood_held_def flood_init_def)
      with up Ok flood_loop_holds[OF assms(1) that refl] show ?thesis
        by (intro world_freed flood_exit_frees[OF assms(1)]) simp
    qed
    with run Ok show ?thesis by simp
  next
    case (Panic e)
    with run flood_set_up_exits[of S pf args area p] have "e \<noteq> Exited" by auto
    with up run Panic show ?thesis by (auto intro: world_freed)
  qed (use up run in \<open>auto intro: world_freed\<close>)
qed

theorem flood_leaves_nothing_witness:
  "\<exists>su p1 ks st. flood_set_up demo_libc Release demo_args (65536, 1048576) demo_start = (Ok su, p1) \<and>
    flood_loop demo_libc Release (flood_batch demo_args) (flood_total demo_args) (su_desc su) ks 0 (flood_init p1 su) =
      Some (Inr st) \<and>
    d_opens (os (flood_exit demo_libc su st)) = {#} \<and> d_maps (os (flood_exit demo_libc su st)) = {#}"
proof (rule demo_ready)
  fix su p1
  assume run: "flood_set_up demo_libc Release demo_args (65536, 1048576) demo_start = (Ok su, p1)"
    and pair: "ring_pair (su_txr su) (su_cqr su)"
    and quiet: "rings_quiet (su_mem su) (su_txr su) (su_cqr su)"
  have "flood_batch demo_args \<noteq> 0" by (simp add: flood_batch_def demo_args_def)
  from flood_loop_ends[OF steady_lawful[OF pair] this _ flood_init_inv[where p = p1, OF pair quiet]] steady_prompt[OF pair]
  obtain ks st where loop: "flood_loop demo_libc Release (flood_batch demo_args) (flood_total demo_args) (su_desc su) ks 0
      (flood_init p1 su) = Some (Inr st)" by blast
  have "fds demo_start = []" "ctls demo_start = []" by simp_all
  from flood_leaves_nothing[OF demo_accounts_all demo_nonnull this, of Release demo_args "(65536, 1048576)"] run loop
  have "freed d_maps d_opens demo_start (flood_exit demo_libc su st)" by auto
  with run loop show ?thesis by (fastforce simp: freed_def demo_kernel_def demo_state_def)
qed

text \<open>
  The same of \<open>flood-mt\<close>, in every interleaving of its threads: a set-up that fails part way drops what
  its vectors hold, and once all threads have ended, each having dropped its own ring, the end of \<open>main\<close>
  leaves nothing.  Only the check for a missing interface name exits without running destructors.
\<close>

theorem mt_leaves_nothing:
  assumes "accounts_all S maps opens" and "maps_nonnull S" and "fds p = []" and "ctls p = []"
  shows "case mt_set_up S pf args area p of
      (Ok ms, p1) \<Rightarrow>
        (\<forall>st. (mt_step S pf (mt_batch_size args) (mt_total_count args) (ms_desc ms))\<^sup>*\<^sup>* (mt_init p1 ms) st \<longrightarrow>
           mt_ended st \<longrightarrow> freed maps opens p (mt_exit S ms st))
    | (Err e, p1) \<Rightarrow> freed maps opens p p1
    | (Panic e, p1) \<Rightarrow> e = Exited \<or> freed maps opens p p1"
proof -
  obtain r p1 where run: "mt_set_up S pf args area p = (r, p1)" by (metis surj_pair)
  note up = mt_set_up_gives[OF assms(1,2) start_ok[OF assms(3,4)], where pf = pf and args = args and area = area,
    unfolded run gives_def prod.case]
  have "freed maps opens p (mt_exit S ms st)"
    if "r = Ok ms" "(mt_step S pf (mt_batch_size args) (mt_total_count args) (ms_desc ms))\<^sup>*\<^sup>* (mt_init p1 ms) st"
      "mt_ended st" for ms st
  proof -
    have "sh_proc (mt_shared (mt_init p1 ms)) = p1" by (simp add: mt_init_def)
    with up that(1) mt_steps_hold[OF that(2) assms(1), of "maps (os p)" "opens (os p)" ms] show ?thesis
      by (intro world_freed mt_exit_frees[OF assms(1) _ that(3)]) (simp add: mt_init_holds)
  qed
  with run up show ?thesis by (cases r) (auto intro: world_freed)
qed

theorem mt_leaves_nothing_witness:
  "\<exists>ms p1 st. mt_set_up demo_libc Release demo_mt_args (65536, 1048576) demo_start = (Ok ms, p1) \<and>
    (mt_step demo_libc Release 1024 1 (ms_desc ms))\<^sup>*\<^sup>* (mt_init p1 ms) st \<and> mt_ended st \<and>
    d_opens (os (mt_exit demo_libc ms st)) = {#} \<and> d_maps (os (mt_exit demo_libc ms st)) = {#}"
proof (rule demo_mt_run)
  fix ms p1 st
  assume run: "mt_set_up demo_libc Release demo_mt_args (65536, 1048576) demo_start = (Ok ms, p1)"
    and steps: "(mt_step demo_libc Release 1024 1 (ms_desc ms))\<^sup>*\<^sup>* (mt_init p1 ms) st" and fin: "mt_ended st"
  have "fds demo_start = []" "ctls demo_start = []" by simp_all
  from mt_leaves_nothing[OF demo_accounts_all demo_nonnull this, of Release demo_mt_args "(65536, 1048576)"] run steps fin
  have "freed d_maps d_opens demo_start (mt_exit demo_libc ms st)" by (simp add: demo_mt_numbers)
  with run steps fin show ?thesis by (auto simp: freed_def demo_kernel_def demo_state_def)
qed

end
