(* ===== verification/Panics.thy ===== *)
theory Panics
  imports Teardown
begin

text \<open>
  The clients through their panics.  A panic inside the loop of \<open>flood\<close> unwinds: the proxy in whose call it
  arose is dropped, then the locals of \<open>main\<close>; if the proxy's destructor panics as well, the process aborts.  In
  \<open>flood-mt\<close> a panicking thread drops what it owns and is gone, the others go on, and the scope, once all have ended
  or are gone, panics in turn.
\<close>

subsection \<open>A proxy whose commit panicked\<close>

text \<open>The cursor as \<open>commit_prod\<close> and \<open>release_cons\<close> leave it when they panic: \<open>base\<close> is what could not be moved.\<close>

definition commit_left :: "profile \<Rightarrow> BufIdxIter \<Rightarrow> BufIdxIter" where
  "commit_left pf it =
     (case rbind (sub_chk pf (it_buffers it) (it_remain it)) (sub_chk pf (it_buffers it)) of
        Inl e \<Rightarrow> it
      | Inr buffers \<Rightarrow> it\<lparr>it_buffers := buffers\<rparr>)"

definition panics :: "'a res \<Rightarrow> bool" where
  "panics x \<longleftrightarrow> (case x of Inl e \<Rightarrow> True | Inr a \<Rightarrow> False)"

text \<open>Whether the destructor that runs when the sending, or the reaping, scope of \<open>flood\<close> panics does so too.\<close>

definition send_aborts :: "profile \<Rightarrow> env \<Rightarrow> mem \<Rightarrow> RingTx \<Rightarrow> u32 \<Rightarrow> XdpDesc \<Rightarrow> bool" where
  "send_aborts pf env m tx n desc \<longleftrightarrow>
     (case RingTx_transmit pf m tx n of
        Inl e \<Rightarrow> False
      | Inr writer \<Rightarrow>
          case WriteTx_insert_from repeat_next m writer desc of (sent_now, bufs, writer1, m1) \<Rightarrow>
          case fst (WriteTx_commit pf env m1 writer1) of
            Inl e \<Rightarrow> panics (WriteTx_drop pf (writer1\<lparr>wt_idx := commit_left pf (wt_idx writer1)\<rparr>))
          | Inr writer2 \<Rightarrow> False)"

definition reap_aborts :: "profile \<Rightarrow> env \<Rightarrow> env \<Rightarrow> mem \<Rightarrow> DeviceQueue \<Rightarrow> u32 \<Rightarrow> bool" where
  "reap_aborts pf env env' m dq n \<longleftrightarrow>
     (case DeviceQueue_complete pf env m dq n of
        Inl e \<Rightarrow> False
      | Inr (reader, m1) \<Rightarrow>
          case count_reads pf m1 reader 0 of
            Inl e \<Rightarrow> panics (ReadComplete_drop pf reader)
          | Inr (comp_now, reader1) \<Rightarrow>
              case fst (ReadComplete_release pf env' m1 reader1) of
                Inl e \<Rightarrow> panics (ReadComplete_drop pf (reader1\<lparr>rc_idx := commit_left pf (rc_idx reader1)\<rparr>))
              | Inr reader2 \<Rightarrow> False)"

text \<open>Both scopes use up their cursor before they publish, so there is nothing left to give back.\<close>

lemma commit_left_used: "it_remain it = 0 \<Longrightarrow> it_buffers (commit_left pf it) = 0"
  by (simp add: commit_left_def sub_chk_def)

lemma drop_used:
  "it_remain it = 0 \<Longrightarrow> \<not> panics (WriteTx_drop pf (w\<lparr>wt_idx := commit_left pf it\<rparr>))"
  "it_remain it = 0 \<Longrightarrow> \<not> panics (ReadComplete_drop pf (r\<lparr>rc_idx := commit_left pf it\<rparr>))"
  by (simp_all add: panics_def WriteTx_drop_def ReadComplete_drop_def commit_left_used)

lemma send_never_aborts: "\<not> send_aborts pf env m tx n desc"
proof (cases "RingTx_transmit pf m tx n")
  case (Inr writer)
  obtain k s w1 m1 where ins: "WriteTx_insert_from repeat_next m writer desc = (k, s, w1, m1)" by (metis surj_pair)
  with Inr drop_used(1)[OF insert_repeat_used[OF ins]] show ?thesis
    by (cases "fst (WriteTx_commit pf env m1 w1)") (simp_all add: send_aborts_def)
qed (simp add: send_aborts_def)

lemma reap_never_aborts: "\<not> reap_aborts pf env env' m dq n"
proof (cases "DeviceQueue_complete pf env m dq n")
  case (Inr x)
  obtain reader m1 where x: "x = (reader, m1)" by force
  have "unat (0 :: u32) + unat (it_remain (rc_idx reader)) < 2 ^ 32" using unat_u32[of "it_remain (rc_idx reader)"] by simp
  from count_reads_fits[OF this] obtain k w1 where
    "count_reads pf m1 reader 0 = Inr (k, w1)" and "it_remain (rc_idx w1) = 0" by blast
  with Inr x drop_used(2)[of "rc_idx w1" pf w1] show ?thesis
    by (cases "fst (ReadComplete_release pf env' m1 w1)") (simp_all add: reap_aborts_def)
qed (simp add: reap_aborts_def)

subsection \<open>\<open>flood\<close> as a process\<close>

datatype ending = Returned | Panicked panic | Aborted

text \<open>
  How a round that panics leaves the process: whether a destructor panics on the way out of a scope, and what
  \<open>wake\<close> did to the system before the counter behind it overflowed, if it got that far.  The rings' own state
  matters to no destructor any more.
\<close>

definition round_left ::
  "'k libc \<Rightarrow> profile \<Rightarrow> u32 \<Rightarrow> u32 \<Rightarrow> XdpDesc \<Rightarrow> kround \<Rightarrow> 'k flood \<Rightarrow> bool \<times> 'k proc" where
  "round_left S pf batch tot desc r st =
     (let send_batch = min (saturating_sub tot (fl_sent st)) batch; m = kr_start r (fl_mem st) in
      case flood_send pf (kr_submit r) m (fl_tx st) send_batch desc of
        Inl e \<Rightarrow> (send_aborts pf (kr_submit r) m (fl_tx st) send_batch desc, fl_proc st)
      | Inr (sent_now, tx, m1) \<Rightarrow>
          let m2 = kr_flags r m1; needed = RingTx_needs_wakeup m2 tx;
              p = if needed then RingTx_wake S tx (fl_proc st) else fl_proc st;
              comp_batch = min (saturating_sub (fl_sent st) (fl_completed st)) batch
          in (\<not> panics (flood_wake S pf needed tx (fl_proc st, fl_woken st)) \<and>
              reap_aborts pf (kr_peek r) (kr_release r) (kr_wait r needed m2) (fl_device st) comp_batch, p))"

partial_function (option) flood_run ::
  "'k libc \<Rightarrow> profile \<Rightarrow> u32 \<Rightarrow> u32 \<Rightarrow> flood_setup \<Rightarrow> (nat \<Rightarrow> kround) \<Rightarrow> nat \<Rightarrow> 'k flood \<Rightarrow> (ending \<times> 'k proc) option"
where
  "flood_run S pf batch tot su ks n st =
     (if flood_done tot st then Some (Returned, flood_exit S su st)
      else case flood_round S pf batch tot (su_desc su) (ks n) st of
        Inl e \<Rightarrow>
          (case round_left S pf batch tot (su_desc su) (ks n) st of (aborts, p) \<Rightarrow>
             Some (if aborts then (Aborted, p) else (Panicked e, flood_exit S su (st\<lparr>fl_proc := p\<rparr>))))
      | Inr st1 \<Rightarrow> flood_run S pf batch tot su ks (Suc n) st1)"

definition flood_process ::
  "'k libc \<Rightarrow> profile \<Rightarrow> Args \<Rightarrow> slice \<Rightarrow> (nat \<Rightarrow> kround) \<Rightarrow> 'k proc \<Rightarrow> (ending \<times> 'k proc) option" where
  "flood_process S pf args area ks p =
     (case flood_set_up S pf args area p of
        (Ok su, p1) \<Rightarrow> flood_run S pf (flood_batch args) (flood_total args) su ks 0 (flood_init p1 su)
      | (Err e, p1) \<Rightarrow> Some (Panicked Unwrapped, p1)
      | (Panic e, p1) \<Rightarrow> Some (Panicked e, p1))"

text \<open>A panicking round keeps the accounts, and no destructor panics on top.\<close>

lemma round_left_holds:
  assumes acc: "accounts_all S maps opens" and ok: "world maps opens m0 o0 (flood_holds su st) (fl_proc st)"
    and left: "round_left S pf batch tot desc r st = (aborts, p)"
  shows "\<not> aborts" and "world maps opens m0 o0 (flood_holds su st) p"
proof -
  show "\<not> aborts"
    using left by (auto simp: round_left_def Let_def send_never_aborts reap_never_aborts split: sum.splits)
  show "world maps opens m0 o0 (flood_holds su st) p"
  proof (cases "flood_send pf (kr_submit r) (kr_start r (fl_mem st)) (fl_tx st)
      (min (saturating_sub tot (fl_sent st)) batch) desc")
    case (Inl e)
    with left ok show ?thesis by (simp add: round_left_def Let_def)
  next
    case (Inr x)
    obtain k tx m1 where x: "x = (k, tx, m1)" by (metis surj_pair)
    with Inr left ok wakes_tx[OF acc ok, of tx] show ?thesis
      by (auto simp: round_left_def Let_def split: if_splits)
  qed
qed

lemma flood_run_frees:
  assumes acc: "accounts_all S maps opens" and "flood_run S pf batch tot su ks n st = Some x"
    and "world maps opens m0 o0 (flood_holds su st) (fl_proc st)"
  shows "fst x \<noteq> Aborted \<and> world maps opens m0 o0 {#} (snd x)"
proof -
  let ?P = "\<lambda>S' pf' batch' tot' su' ks' n st x. S' = S \<longrightarrow> su' = su \<longrightarrow>
    world maps opens m0 o0 (flood_holds su st) (fl_proc st) \<longrightarrow> fst x \<noteq> Aborted \<and> world maps opens m0 o0 {#} (snd x)"
  have "?P S pf batch tot su ks n st x"
  proof (rule flood_run.raw_induct[where P = ?P, OF _ assms(2)], intro impI)
    fix loop S' pf' batch' tot' su' ks' n st x
    assume IH: "\<And>S' pf batch tot su ks n st x. loop S' pf batch tot su ks n st = Some x \<Longrightarrow> ?P S' pf batch tot su ks n st x"
      and body: "(if flood_done tot' st then Some (Returned, flood_exit S' su' st)
        else case flood_round S' pf' batch' tot' (su_desc su') (ks' n) st of
          Inl e \<Rightarrow> (case round_left S' pf' batch' tot' (su_desc su') (ks' n) st of (aborts, p) \<Rightarrow>
             Some (if aborts then (Aborted, p) else (Panicked e, flood_exit S' su' (st\<lparr>fl_proc := p\<rparr>))))
        | Inr st1 \<Rightarrow> loop S' pf' batch' tot' su' ks' (Suc n) st1) = Some x"
      and eq: "S' = S" "su' = su" and ok: "world maps opens m0 o0 (flood_holds su st) (fl_proc st)"
    show "fst x \<noteq> Aborted \<and> world maps opens m0 o0 {#} (snd x)"
    proof (cases "flood_done tot' st")
      case True
      with body eq flood_exit_frees[OF acc ok] show ?thesis by auto
    next
      case False
      show ?thesis
      proof (cases "flood_round S' pf' batch' tot' (su_desc su') (ks' n) st")
        case (Inl e)
        obtain aborts p where left: "round_left S pf' batch' tot' (su_desc su) (ks' n) st = (aborts, p)" by force
        note L = round_left_holds[OF acc ok left]
        have "world maps opens m0 o0 (flood_holds su (st\<lparr>fl_proc := p\<rparr>)) (fl_proc (st\<lparr>fl_proc := p\<rparr>))"
          using L(2) by (simp add: flood_holds_def)
        from flood_exit_frees[OF acc this] body False Inl eq left L(1) show ?thesis by auto
      next
        case (Inr st1)
        with body False eq IH flood_round_holds[OF acc _ ok] show ?thesis by auto
      qed
    qed
  qed
  with assms(3) show ?thesis by simp
qed

text \<open>Where the loop returns, so does the process.\<close>

lemma flood_loop_run:
  assumes "flood_loop S pf batch tot (su_desc su) ks n st = Some r" and "r = Inr st'"
  shows "flood_run S pf batch tot su ks n st = Some (Returned, flood_exit S su st')"
proof -
  let ?P = "\<lambda>S pf batch tot desc ks n st r. \<forall>st' (su :: flood_setup). r = Inr st' \<longrightarrow> desc = su_desc su \<longrightarrow>
    flood_run S pf batch tot su ks n st = Some (Returned, flood_exit S su st')"
  have "?P S pf batch tot (su_desc su) ks n st r"
  proof (rule flood_loop.raw_induct[where P = ?P, OF _ assms(1)], intro allI impI)
    fix loop S pf batch tot desc ks n st r st' and su :: flood_setup
    assume IH: "\<And>S pf batch tot desc ks n st r. loop S pf batch tot desc ks n st = Some r \<Longrightarrow> ?P S pf batch tot desc ks n st r"
      and body: "(if flood_done tot st then Some (Inr st)
        else case flood_round S pf batch tot desc (ks n) st of Inl e \<Rightarrow> Some (Inl e)
        | Inr st1 \<Rightarrow> loop S pf batch tot desc ks (Suc n) st1) = Some r"
      and eq: "r = Inr st'" "desc = su_desc su"
    then show "flood_run S pf batch tot su ks n st = Some (Returned, flood_exit S su st')"
      by (subst flood_run.simps) (auto split: if_splits sum.splits)
  qed
  with assms(2) show ?thesis by blast
qed

subsection \<open>Properties\<close>

lemma demo_flood_debug:
  "\<exists>su p1. flood_set_up demo_libc Debug demo_args (65536, 1048576) demo_start = (Ok su, p1) \<and>
    cached_producer (prod_inner (tx_ring (su_tx su))) = 0 \<and> cached_consumer (prod_inner (tx_ring (su_tx su))) = 0 \<and>
    ring_size (prod_inner (tx_ring (su_tx su))) = 16384"
  by (simp add: flood_set_up_def demo_flood demo_args_def demo_offsets_def demo_ring_def zero_heads
      dec_enc_offsets[of _ "[]", simplified] add_chk_def sub_chk_def mul_chk_def powers)

text \<open>
  C13. However \<open>flood\<close> ends, it leaves nothing behind: in either build, for any kernel behaviour during
  the loop and on any system that accounts for mappings and descriptors, a failing or panicking set-up, a panic anywhere
  in the loop and the regular end all run the destructors that give every mapping, descriptor and claim back, and
  none of them panics while another panic unwinds.  Where the loop ends, the process returns.
\<close>

theorem flood_process_frees:
  assumes "accounts_all S maps opens" and "maps_nonnull S" and "fds p = []" and "ctls p = []"
  shows "(\<forall>e q. flood_process S pf args area ks p = Some (e, q) \<longrightarrow> e \<noteq> Aborted \<and> freed maps opens p q) \<and>
    (\<forall>st. flood_main S pf args area ks p = Some (Inr st) \<longrightarrow> (\<exists>q. flood_process S pf args area ks p = Some (Returned, q)))"
proof -
  obtain r p1 where run: "flood_set_up S pf args area p = (r, p1)" by (metis surj_pair)
  note up = flood_set_up_gives[OF assms(1,2) start_ok[OF assms(3,4)], where pf = pf and args = args and area = area,
    unfolded run gives_def prod.case]
  have "e \<noteq> Aborted \<and> freed maps opens p q" if proc: "flood_process S pf args area ks p = Some (e, q)" for e q
  proof (cases r)
    case (Ok su)
    have h: "flood_holds su (flood_init p1 su) = flood_held su" "fl_proc (flood_init p1 su) = p1"
      by (simp_all add: flood_holds_def flood_held_def flood_init_def)
    with up Ok have "world maps opens (maps (os p)) (opens (os p)) (flood_holds su (flood_init p1 su)) (fl_proc (flood_init p1 su))"
      by simp
    moreover have "flood_run S pf (flood_batch args) (flood_total args) su ks 0 (flood_init p1 su) = Some (e, q)"
      using proc run Ok by (simp add: flood_process_def)
    ultimately show ?thesis using flood_run_frees[OF assms(1)] by (fastforce intro: world_freed)
  next
    case (Panic x)
    with run flood_set_up_exits[of S pf args area p] have "x \<noteq> Exited" by auto
    with up run Panic proc show ?thesis by (auto simp: flood_process_def intro: world_freed)
  qed (use up run proc in \<open>auto simp: flood_process_def intro: world_freed\<close>)
  moreover have "\<exists>q. flood_process S pf args area ks p = Some (Returned, q)"
    if main: "flood_main S pf args area ks p = Some (Inr st)" for st
  proof (cases r)
    case (Ok su)
    with main run have "flood_loop S pf (flood_batch args) (flood_total args) (su_desc su) ks 0 (flood_init p1 su) = Some (Inr st)"
      by (simp add: flood_main_def)
    from flood_loop_run[OF this refl] show ?thesis using run Ok by (simp add: flood_process_def)
  qed (use main run in \<open>auto simp: flood_main_def\<close>)
  ultimately show ?thesis by blast
qed

theorem flood_process_frees_witness:
  "\<exists>ks q. flood_process demo_libc Debug demo_args (65536, 1048576) ks demo_start = Some (Panicked ArithOverflow, q) \<and>
    d_opens (os q) = {#} \<and> d_maps (os q) = {#}"
proof -
  obtain su p1 where run: "flood_set_up demo_libc Debug demo_args (65536, 1048576) demo_start = (Ok su, p1)"
    and tx: "cached_producer (prod_inner (tx_ring (su_tx su))) = 0"
      "cached_consumer (prod_inner (tx_ring (su_tx su))) = 0" "ring_size (prod_inner (tx_ring (su_tx su))) = 16384"
    using demo_flood_debug by blast
  let ?m = "store_u32 (\<lambda>_. 0) (consumer (prod_inner (tx_ring (su_tx su)))) 4294967295"
  have total: "flood_total demo_args = 5000" "flood_batch demo_args = 1024" by (simp_all add: flood_total_def flood_batch_def demo_args_def)
  let ?ks = "\<lambda>_. \<lparr>kr_start = \<lambda>_. ?m, kr_submit = \<lambda>m. m, kr_flags = \<lambda>m. m, kr_wait = \<lambda>_ m. m,
    kr_peek = \<lambda>m. m, kr_release = \<lambda>m. m\<rparr>"
  have "flood_process demo_libc Debug demo_args (65536, 1048576) ?ks demo_start \<noteq> None \<and>
      fst (the (flood_process demo_libc Debug demo_args (65536, 1048576) ?ks demo_start)) = Panicked ArithOverflow"
    by (simp add: flood_process_def run flood_run.simps flood_init_def flood_done_def total
        flood_round_def flood_send_def RingTx_transmit_def BufIdxIter_reserve_def reserve_def
        count_free_def Let_def tx add_chk_def round_left_def saturating_sub_def send_aborts_def)
  then obtain q where out: "flood_process demo_libc Debug demo_args (65536, 1048576) ?ks demo_start = Some (Panicked ArithOverflow, q)"
    by force
  have "fds demo_start = []" "ctls demo_start = []" by simp_all
  from flood_process_frees[OF demo_accounts_all demo_nonnull this, of Debug demo_args "(65536, 1048576)" ?ks] out
  have "freed d_maps d_opens demo_start q" by blast
  with out show ?thesis by (auto simp: freed_def demo_kernel_def demo_state_def)
qed

end
