(* ===== verification/MtPanics.thy ===== *)
theory MtPanics
  imports Panics
begin

text \<open>
  The threads of \<open>flood-mt\<close> through their panics.  A thread that panics unwinds: the proxy in whose call the
  panic arose is dropped, then the queue or transmit ring the thread owns, and the thread is gone; the others
  go on, with whatever it had taken out of the shared counters missing.  The scope joins all threads and
  panics if one of them did; what \<open>main\<close> then drops is what it drops at its end.
\<close>

subsection \<open>A panicking thread\<close>

text \<open>
  What a step that panics has done before, and the destructor of the thread's own ring after it.
  \<open>RingTx_wake\<close> and its counter come before the threshold that overflows.
\<close>

definition completer_unwinds :: "'k libc \<Rightarrow> 'k shared \<Rightarrow> completer \<Rightarrow> 'k shared" where
  "completer_unwinds S sh th = sh\<lparr>sh_proc := DeviceQueue_drop S (cp_queue th) (sh_proc sh)\<rparr>"

definition sender_unwinds :: "'k libc \<Rightarrow> 'k shared \<Rightarrow> sender \<Rightarrow> 'k shared" where
  "sender_unwinds S sh th =
     (let sh1 = (case sd_pc th of
          SWake b n \<Rightarrow> sh\<lparr>sh_proc := RingTx_wake S (sd_tx th) (sh_proc sh), stat_woken := stat_woken sh + 1\<rparr>
        | _ \<Rightarrow> sh)
      in sh1\<lparr>sh_proc := RingTx_drop S (sd_tx th) (sh_proc sh1)\<rparr>)"

text \<open>Whether the proxy's destructor panics as well, which aborts the process.\<close>

definition completer_aborts :: "profile \<Rightarrow> env \<Rightarrow> env \<Rightarrow> 'k shared \<Rightarrow> completer \<Rightarrow> bool" where
  "completer_aborts pf env env' sh th =
     (case cp_pc th of CReap b \<Rightarrow> reap_aborts pf env env' (sh_mem sh) (cp_queue th) b | _ \<Rightarrow> False)"

definition sender_aborts :: "profile \<Rightarrow> XdpDesc \<Rightarrow> env \<Rightarrow> 'k shared \<Rightarrow> sender \<Rightarrow> bool" where
  "sender_aborts pf desc env sh th =
     (case sd_pc th of SSend b \<Rightarrow> send_aborts pf env (sh_mem sh) (sd_tx th) b desc | _ \<Rightarrow> False)"

lemma threads_never_abort:
  "\<not> completer_aborts pf env env' sh c" "\<not> sender_aborts pf desc env sh s"
  by (simp_all add: completer_aborts_def sender_aborts_def reap_never_aborts send_never_aborts
      split: comp_pc.split send_pc.split)

subsection \<open>All threads, living and lost\<close>

text \<open>A lost thread keeps its place and the step it was lost in.\<close>

record 'k crew =
  crew_mt :: "'k mt"
  lost_completers :: "nat set"
  lost_senders :: "nat set"
  aborted :: bool

definition crew_init :: "'k proc \<Rightarrow> mt_setup \<Rightarrow> 'k crew" where
  "crew_init p ms = \<lparr>crew_mt = mt_init p ms, lost_completers = {}, lost_senders = {}, aborted = False\<rparr>"

inductive crew_step :: "'k libc \<Rightarrow> profile \<Rightarrow> u32 \<Rightarrow> u32 \<Rightarrow> XdpDesc \<Rightarrow> 'k crew \<Rightarrow> 'k crew \<Rightarrow> bool"
  for S pf batch tot desc
where
  crew_complete: "\<not> aborted cr \<Longrightarrow> i \<notin> lost_completers cr \<Longrightarrow> st = crew_mt cr \<Longrightarrow> i < length (mt_completers st) \<Longrightarrow>
    completer_step S pf batch tot env env' (mt_shared st) (mt_completers st ! i) = Inr (sh, th) \<Longrightarrow>
    crew_step S pf batch tot desc cr (cr\<lparr>crew_mt := st\<lparr>mt_shared := sh, mt_completers := (mt_completers st)[i := th]\<rparr>\<rparr>)"
| crew_send: "\<not> aborted cr \<Longrightarrow> i \<notin> lost_senders cr \<Longrightarrow> st = crew_mt cr \<Longrightarrow> i < length (mt_senders st) \<Longrightarrow>
    sender_step S pf batch tot desc env (mt_shared st) (mt_senders st ! i) = Inr (sh, th) \<Longrightarrow>
    crew_step S pf batch tot desc cr (cr\<lparr>crew_mt := st\<lparr>mt_shared := sh, mt_senders := (mt_senders st)[i := th]\<rparr>\<rparr>)"
| crew_kernel: "\<not> aborted cr \<Longrightarrow> st = crew_mt cr \<Longrightarrow>
    crew_step S pf batch tot desc cr (cr\<lparr>crew_mt := st\<lparr>mt_shared := (mt_shared st)\<lparr>sh_mem := m\<rparr>\<rparr>\<rparr>)"
| crew_completer_lost: "\<not> aborted cr \<Longrightarrow> i \<notin> lost_completers cr \<Longrightarrow> st = crew_mt cr \<Longrightarrow> i < length (mt_completers st) \<Longrightarrow>
    completer_step S pf batch tot env env' (mt_shared st) (mt_completers st ! i) = Inl e \<Longrightarrow>
    crew_step S pf batch tot desc cr
      (cr\<lparr>crew_mt := st\<lparr>mt_shared := completer_unwinds S (mt_shared st) (mt_completers st ! i)\<rparr>,
          lost_completers := insert i (lost_completers cr),
          aborted := completer_aborts pf env env' (mt_shared st) (mt_completers st ! i)\<rparr>)"
| crew_sender_lost: "\<not> aborted cr \<Longrightarrow> i \<notin> lost_senders cr \<Longrightarrow> st = crew_mt cr \<Longrightarrow> i < length (mt_senders st) \<Longrightarrow>
    sender_step S pf batch tot desc env (mt_shared st) (mt_senders st ! i) = Inl e \<Longrightarrow>
    crew_step S pf batch tot desc cr
      (cr\<lparr>crew_mt := st\<lparr>mt_shared := sender_unwinds S (mt_shared st) (mt_senders st ! i)\<rparr>,
          lost_senders := insert i (lost_senders cr),
          aborted := sender_aborts pf desc env (mt_shared st) (mt_senders st ! i)\<rparr>)"

text \<open>The scope has joined every thread; it then panics if one was lost.\<close>

definition crew_joined :: "'k crew \<Rightarrow> bool" where
  "crew_joined cr \<longleftrightarrow>
     (\<forall>i<length (mt_completers (crew_mt cr)). i \<in> lost_completers cr \<or> cp_pc (mt_completers (crew_mt cr) ! i) = CEnd) \<and>
     (\<forall>i<length (mt_senders (crew_mt cr)). i \<in> lost_senders cr \<or> sd_pc (mt_senders (crew_mt cr) ! i) = SEnd)"

definition crew_panics :: "'k crew \<Rightarrow> bool" where
  "crew_panics cr \<longleftrightarrow> lost_completers cr \<noteq> {} \<or> lost_senders cr \<noteq> {}"

text \<open>As long as no thread panics the crew is the threads.\<close>

lemma crew_of_threads:
  assumes "(mt_step S pf batch tot desc)\<^sup>*\<^sup>* (mt_init p ms) st"
  shows "(crew_step S pf batch tot desc)\<^sup>*\<^sup>* (crew_init p ms) ((crew_init p ms)\<lparr>crew_mt := st\<rparr>)"
  using assms
proof (induction rule: rtranclp_induct)
  case base
  then show ?case by (simp add: crew_init_def)
next
  case (step st st')
  let ?c = "(crew_init p ms)\<lparr>crew_mt := st\<rparr>"
  from step(2) have "crew_step S pf batch tot desc ?c ((crew_init p ms)\<lparr>crew_mt := st'\<rparr>)"
  proof (cases rule: mt_stepE[consumes 1, case_names complete send kernel])
    case (complete i env env' sh th)
    with crew_complete[of ?c i st] show ?thesis by (simp add: crew_init_def)
  next
    case (send i env sh th)
    with crew_send[of ?c i st] show ?thesis by (simp add: crew_init_def)
  next
    case (kernel m)
    with crew_kernel[of ?c st] show ?thesis by (simp add: crew_init_def)
  qed
  with step.IH show ?case by (rule rtranclp.rtrancl_into_rtrancl)
qed

subsection \<open>The counters\<close>

text \<open>Being lost leaves the counters as they are, so what is lost stays owed.\<close>

lemma unwinds_counters:
  "sent (completer_unwinds S sh c) = sent sh" "sent_reserved (completer_unwinds S sh c) = sent_reserved sh"
  "tx_by_sock (completer_unwinds S sh c) = tx_by_sock sh" "tx_log_batch (completer_unwinds S sh c) = tx_log_batch sh"
  "cq_log_batch (completer_unwinds S sh c) = cq_log_batch sh"
  "sent (sender_unwinds S sh s) = sent sh" "sent_reserved (sender_unwinds S sh s) = sent_reserved sh"
  "tx_by_sock (sender_unwinds S sh s) = tx_by_sock sh" "tx_log_batch (sender_unwinds S sh s) = tx_log_batch sh"
  "cq_log_batch (sender_unwinds S sh s) = cq_log_batch sh"
  by (simp_all add: completer_unwinds_def sender_unwinds_def Let_def split: send_pc.split)

text \<open>Every step of the crew either is a step of its threads or loses one, which sees no other thread change.\<close>

lemma crew_step_inv:
  assumes "crew_step S pf batch tot desc cr cr'" and inv: "mt_inv tot (crew_mt cr)"
  shows "mt_inv tot (crew_mt cr')" and "lost_senders cr \<subseteq> lost_senders cr'"
    and "\<And>j. j \<in> lost_senders cr \<Longrightarrow> mt_senders (crew_mt cr') ! j = mt_senders (crew_mt cr) ! j"
    and "length (mt_senders (crew_mt cr')) = length (mt_senders (crew_mt cr))"
proof -
  have same: "mt_inv tot ((crew_mt cr)\<lparr>mt_shared := sh\<rparr>)"
    if "sent sh = sent (mt_shared (crew_mt cr))" "sent_reserved sh = sent_reserved (mt_shared (crew_mt cr))"
      "tx_by_sock sh = tx_by_sock (mt_shared (crew_mt cr))" "tx_log_batch sh = tx_log_batch (mt_shared (crew_mt cr))"
      "cq_log_batch sh = cq_log_batch (mt_shared (crew_mt cr))" for sh
    using inv that by (simp add: mt_inv_def Let_def sender_ok_def)
  have "mt_inv tot (crew_mt cr') \<and> lost_senders cr \<subseteq> lost_senders cr' \<and>
    (\<forall>j. j \<in> lost_senders cr \<longrightarrow> mt_senders (crew_mt cr') ! j = mt_senders (crew_mt cr) ! j) \<and>
    length (mt_senders (crew_mt cr')) = length (mt_senders (crew_mt cr))"
    using assms(1)
  proof (cases rule: crew_step.cases)
    case (crew_complete i st env env' sh th)
    with mt_inv_step(1)[OF mt_step.mt_complete[OF crew_complete(5,6)]] inv show ?thesis by simp
  next
    case (crew_send i st env sh th)
    with mt_inv_step(1)[OF mt_step.mt_send[OF crew_send(5,6)]] inv show ?thesis by (auto simp: nth_list_update)
  qed (use same in \<open>auto simp: unwinds_counters\<close>)
  then show "mt_inv tot (crew_mt cr')" and "lost_senders cr \<subseteq> lost_senders cr'"
    and "\<And>j. j \<in> lost_senders cr \<Longrightarrow> mt_senders (crew_mt cr') ! j = mt_senders (crew_mt cr) ! j"
    and "length (mt_senders (crew_mt cr')) = length (mt_senders (crew_mt cr))" by blast+
qed

lemma crew_steps_inv:
  assumes "(crew_step S pf batch tot desc)\<^sup>*\<^sup>* cr cr'" and "mt_inv tot (crew_mt cr)"
  shows "mt_inv tot (crew_mt cr') \<and> lost_senders cr \<subseteq> lost_senders cr' \<and>
    (\<forall>j\<in>lost_senders cr. mt_senders (crew_mt cr') ! j = mt_senders (crew_mt cr) ! j) \<and>
    length (mt_senders (crew_mt cr')) = length (mt_senders (crew_mt cr))"
  using assms
proof (induction rule: rtranclp_induct)
  case (step cr1 cr2)
  then show ?case using crew_step_inv[OF step(2)] by (metis subset_iff)
qed simp

text \<open>What a lost thread owes is never sent.\<close>

lemma owed_never_sent:
  assumes inv: "mt_inv tot st" and "j < length (mt_senders st)" and "0 < owed (sd_pc (mt_senders st ! j))"
  shows "sent (mt_shared st) < tot" and "i < length (mt_senders st) \<Longrightarrow> sd_pc (mt_senders st ! i) \<noteq> SEnd"
proof -
  have "owed (sd_pc (mt_senders st ! j)) \<le> held (owed \<circ> sd_pc) (mt_senders st)"
    using held_ge[OF assms(2), of "owed \<circ> sd_pc"] by simp
  with inv assms(3) show less: "sent (mt_shared st) < tot"
    by (simp add: mt_inv_def Let_def word_le_nat_alt word_less_nat_alt)
  with inv show "sd_pc (mt_senders st ! i) \<noteq> SEnd" if "i < length (mt_senders st)"
    using that by (auto simp: mt_inv_def Let_def sender_ok_def)
qed

subsection \<open>The handles\<close>

text \<open>What the living threads and \<open>main\<close> hold.\<close>

definition crew_holds :: "mt_setup \<Rightarrow> 'k crew \<Rightarrow> handle multiset" where
  "crew_holds ms cr = (let st = crew_mt cr in
     (\<Sum>i\<in>{..<length (mt_senders st)} - lost_senders cr. sender_holds (mt_senders st ! i)) +
     (\<Sum>i\<in>{..<length (mt_completers st)} - lost_completers cr. completer_holds (mt_completers st ! i)) +
     vectors (ms_umem ms) [] (ms_socks ms) (ms_to_binds ms) [])"

lemma one_living:
  fixes f :: "nat \<Rightarrow> 'b multiset"
  assumes "finite A" and "i \<in> A"
  obtains R where "sum f A = f i + R" and "sum f (A - {i}) = R"
    and "\<And>g. (\<And>j. j \<noteq> i \<Longrightarrow> g j = f j) \<Longrightarrow> sum g A = g i + R"
proof
  show "sum f A = f i + sum f (A - {i})" using assms by (rule sum.remove)
  show "sum g A = g i + sum f (A - {i})" if "\<And>j. j \<noteq> i \<Longrightarrow> g j = f j" for g
    using sum.remove[OF assms, of g] sum.cong[of "A - {i}" "A - {i}" g f] that by simp
qed simp

lemma completer_unwinds_holds:
  assumes "accounts_all S maps opens" and "completer_step S pf batch tot env env' sh th = Inl e"
    and ok: "world maps opens m0 o0 (completer_holds th + R) (sh_proc sh)"
  shows "world maps opens m0 o0 R (sh_proc (completer_unwinds S sh th))"
proof -
  have "cp_pc th \<noteq> CEnd" using assms(2) by (auto simp: completer_step_def)
  with drops_handle[OF assms(1), where h = "HQueue (cp_queue th)"] ok show ?thesis
    by (simp add: completer_holds_def completer_unwinds_def)
qed

lemma sender_unwinds_holds:
  assumes acc: "accounts_all S maps opens" and "sender_step S pf batch tot desc env sh th = Inl e"
    and ok: "world maps opens m0 o0 (sender_holds th + R) (sh_proc sh)"
  shows "world maps opens m0 o0 R (sh_proc (sender_unwinds S sh th))"
proof -
  have "sd_pc th \<noteq> SEnd" using assms(2) by (auto simp: sender_step_def)
  with ok have ok': "world maps opens m0 o0 (add_mset (HTx (sd_tx th)) R) (sh_proc sh)" by (simp add: sender_holds_def)
  from drops_handle[OF acc ok'] drops_handle[OF acc wakes_tx[OF acc ok', of "sd_tx th"]] show ?thesis
    by (simp add: sender_unwinds_def Let_def split: send_pc.split)
qed

lemma crew_step_holds:
  assumes acc: "accounts_all S maps opens" and "crew_step S pf batch tot desc cr cr'"
    and ok: "world maps opens m0 o0 (crew_holds ms cr) (sh_proc (mt_shared (crew_mt cr)))"
  shows "world maps opens m0 o0 (crew_holds ms cr') (sh_proc (mt_shared (crew_mt cr'))) \<and> \<not> aborted cr'"
  using assms(2)
proof (cases rule: crew_step.cases)
  case (crew_complete i st env env' sh th)
  let ?A = "{..<length (mt_completers st)} - lost_completers cr"
  let ?f = "\<lambda>j. completer_holds (mt_completers st ! j)" and ?g = "\<lambda>j. completer_holds ((mt_completers st)[i := th] ! j)"
  have "finite ?A" "i \<in> ?A" using crew_complete by auto
  from one_living[OF this, of ?f] obtain R where R: "sum ?f ?A = ?f i + R"
    and "\<And>g. (\<And>j. j \<noteq> i \<Longrightarrow> g j = ?f j) \<Longrightarrow> sum g ?A = g i + R" by blast
  from this(2)[of ?g] have "sum ?g ?A = completer_holds th + R" using crew_complete by simp
  with ok R completer_step_holds[OF acc crew_complete(6), where R = "R +
      (\<Sum>i\<in>{..<length (mt_senders st)} - lost_senders cr. sender_holds (mt_senders st ! i)) +
      vectors (ms_umem ms) [] (ms_socks ms) (ms_to_binds ms) []" and ?m0.0 = m0 and ?o0.0 = o0] crew_complete show ?thesis
    by (simp add: crew_holds_def Let_def ac_simps)
next
  case (crew_send i st env sh th)
  let ?A = "{..<length (mt_senders st)} - lost_senders cr"
  let ?f = "\<lambda>j. sender_holds (mt_senders st ! j)" and ?g = "\<lambda>j. sender_holds ((mt_senders st)[i := th] ! j)"
  have "finite ?A" "i \<in> ?A" using crew_send by auto
  from one_living[OF this, of ?f] obtain R where R: "sum ?f ?A = ?f i + R"
    and "\<And>g. (\<And>j. j \<noteq> i \<Longrightarrow> g j = ?f j) \<Longrightarrow> sum g ?A = g i + R" by blast
  from this(2)[of ?g] have "sum ?g ?A = sender_holds th + R" using crew_send by simp
  with ok R sender_step_holds[OF acc crew_send(6), where R = "R +
      (\<Sum>i\<in>{..<length (mt_completers st)} - lost_completers cr. completer_holds (mt_completers st ! i)) +
      vectors (ms_umem ms) [] (ms_socks ms) (ms_to_binds ms) []" and ?m0.0 = m0 and ?o0.0 = o0] crew_send show ?thesis
    by (simp add: crew_holds_def Let_def ac_simps)
next
  case (crew_kernel st m)
  with ok show ?thesis by (simp add: crew_holds_def Let_def)
next
  case (crew_completer_lost i st env env' e)
  let ?A = "{..<length (mt_completers st)} - lost_completers cr" and ?f = "\<lambda>j. completer_holds (mt_completers st ! j)"
  have "finite ?A" "i \<in> ?A" using crew_completer_lost by auto
  from one_living[OF this, of ?f] obtain R where R: "sum ?f ?A = ?f i + R" "sum ?f (?A - {i}) = R" by blast
  have "?A - {i} = {..<length (mt_completers st)} - insert i (lost_completers cr)" by auto
  with ok R completer_unwinds_holds[OF acc crew_completer_lost(6), where R = "R +
      (\<Sum>i\<in>{..<length (mt_senders st)} - lost_senders cr. sender_holds (mt_senders st ! i)) +
      vectors (ms_umem ms) [] (ms_socks ms) (ms_to_binds ms) []" and ?m0.0 = m0 and ?o0.0 = o0] crew_completer_lost
  show ?thesis by (simp add: crew_holds_def Let_def ac_simps threads_never_abort)
next
  case (crew_sender_lost i st env e)
  let ?A = "{..<length (mt_senders st)} - lost_senders cr" and ?f = "\<lambda>j. sender_holds (mt_senders st ! j)"
  have "finite ?A" "i \<in> ?A" using crew_sender_lost by auto
  from one_living[OF this, of ?f] obtain R where R: "sum ?f ?A = ?f i + R" "sum ?f (?A - {i}) = R" by blast
  have "?A - {i} = {..<length (mt_senders st)} - insert i (lost_senders cr)" by auto
  with ok R sender_unwinds_holds[OF acc crew_sender_lost(6), where R = "R +
      (\<Sum>i\<in>{..<length (mt_completers st)} - lost_completers cr. completer_holds (mt_completers st ! i)) +
      vectors (ms_umem ms) [] (ms_socks ms) (ms_to_binds ms) []" and ?m0.0 = m0 and ?o0.0 = o0] crew_sender_lost
  show ?thesis by (simp add: crew_holds_def Let_def ac_simps threads_never_abort)
qed

lemma crew_steps_hold:
  assumes "(crew_step S pf batch tot desc)\<^sup>*\<^sup>* cr cr'" and "accounts_all S maps opens"
    and "world maps opens m0 o0 (crew_holds ms cr) (sh_proc (mt_shared (crew_mt cr)))" and "\<not> aborted cr"
  shows "world maps opens m0 o0 (crew_holds ms cr') (sh_proc (mt_shared (crew_mt cr'))) \<and> \<not> aborted cr'"
  using assms
proof (induction rule: rtranclp_induct)
  case (step cr1 cr2)
  with crew_step_holds[OF step.prems(1) step(2)] show ?case by blast
qed simp

lemma sum_nth: "(\<Sum>i\<in>{..<length xs} - {}. f (xs ! i)) = sum_list (map f xs)"
  by (simp add: sum_list_sum_nth atLeast0LessThan)

lemma crew_init_holds: "crew_holds ms (crew_init p ms) = mt_held ms"
  unfolding mt_init_holds[of ms p, symmetric]
  by (simp only: crew_holds_def mt_holds_def crew_init_def crew.simps Let_def sum_nth)

lemma crew_joined_holds:
  assumes "crew_joined cr"
  shows "crew_holds ms cr = vectors (ms_umem ms) [] (ms_socks ms) (ms_to_binds ms) []"
proof -
  have "(\<Sum>i\<in>{..<length (mt_senders (crew_mt cr))} - lost_senders cr. sender_holds (mt_senders (crew_mt cr) ! i)) = {#}"
    using assms by (intro sum.neutral) (auto simp: crew_joined_def sender_holds_def)
  moreover have "(\<Sum>i\<in>{..<length (mt_completers (crew_mt cr))} - lost_completers cr.
      completer_holds (mt_completers (crew_mt cr) ! i)) = {#}"
    using assms by (intro sum.neutral) (auto simp: crew_joined_def completer_holds_def)
  ultimately show ?thesis by (simp add: crew_holds_def Let_def)
qed

subsection \<open>Properties\<close>

text \<open>
  C14. The same of \<open>flood-mt\<close>, in every interleaving of its threads and whichever of them panic: a set-up that
  fails part way drops what its vectors hold, no thread's unwinding aborts the process, and once every thread has
  ended or was lost, each having dropped its own ring, what \<open>main\<close> drops at its end, or the scope's panic drops,
  leaves nothing.  Only the check for a missing interface name exits without running destructors.
\<close>

theorem mt_process_frees:
  assumes "accounts_all S maps opens" and "maps_nonnull S" and "fds p = []" and "ctls p = []"
  shows "case mt_set_up S pf args area p of
      (Ok ms, p1) \<Rightarrow>
        (\<forall>cr. (crew_step S pf (mt_batch_size args) (mt_total_count args) (ms_desc ms))\<^sup>*\<^sup>* (crew_init p1 ms) cr \<longrightarrow>
           \<not> aborted cr \<and> (crew_joined cr \<longrightarrow> freed maps opens p (mt_exit S ms (crew_mt cr))))
    | (Err e, p1) \<Rightarrow> freed maps opens p p1
    | (Panic e, p1) \<Rightarrow> e = Exited \<or> freed maps opens p p1"
proof -
  obtain r p1 where run: "mt_set_up S pf args area p = (r, p1)" by (metis surj_pair)
  note up = mt_set_up_gives[OF assms(1,2) start_ok[OF assms(3,4)], where pf = pf and args = args and area = area,
    unfolded run gives_def prod.case]
  have "\<not> aborted cr \<and> (crew_joined cr \<longrightarrow> freed maps opens p (mt_exit S ms (crew_mt cr)))"
    if "r = Ok ms" "(crew_step S pf (mt_batch_size args) (mt_total_count args) (ms_desc ms))\<^sup>*\<^sup>* (crew_init p1 ms) cr"
    for ms cr
  proof -
    have "sh_proc (mt_shared (crew_mt (crew_init p1 ms))) = p1" by (simp add: crew_init_def mt_init_def)
    with up that(1) have "world maps opens (maps (os p)) (opens (os p)) (crew_holds ms (crew_init p1 ms))
        (sh_proc (mt_shared (crew_mt (crew_init p1 ms))))" by (simp add: crew_init_holds)
    note all = crew_steps_hold[OF that(2) assms(1) this]
    then show ?thesis
      using mt_exit_drops[OF assms(1)] crew_joined_holds[of cr ms] by (auto simp: crew_init_def intro: world_freed)
  qed
  with run up show ?thesis by (cases r) (auto intro: world_freed)
qed

theorem mt_process_frees_witness:
  "\<exists>ms p1 cr. mt_set_up demo_libc Release demo_mt_args (65536, 1048576) demo_start = (Ok ms, p1) \<and>
    (crew_step demo_libc Release 1024 1 (ms_desc ms))\<^sup>*\<^sup>* (crew_init p1 ms) cr \<and> crew_joined cr \<and>
    d_opens (os (mt_exit demo_libc ms (crew_mt cr))) = {#} \<and> d_maps (os (mt_exit demo_libc ms (crew_mt cr))) = {#}"
proof (rule demo_mt_run)
  fix ms p1 st
  assume run: "mt_set_up demo_libc Release demo_mt_args (65536, 1048576) demo_start = (Ok ms, p1)"
    and steps: "(mt_step demo_libc Release 1024 1 (ms_desc ms))\<^sup>*\<^sup>* (mt_init p1 ms) st" and fin: "mt_ended st"
  let ?cr = "(crew_init p1 ms)\<lparr>crew_mt := st\<rparr>"
  have fin: "crew_joined ?cr" using fin by (auto simp: crew_joined_def mt_ended_def list_all_length)
  have "fds demo_start = []" "ctls demo_start = []" by simp_all
  from mt_process_frees[OF demo_accounts_all demo_nonnull this, of Release demo_mt_args "(65536, 1048576)"] run
  have "\<forall>cr. (crew_step demo_libc Release 1024 1 (ms_desc ms))\<^sup>*\<^sup>* (crew_init p1 ms) cr \<longrightarrow> crew_joined cr \<longrightarrow>
      freed d_maps d_opens demo_start (mt_exit demo_libc ms (crew_mt cr))" by (simp add: demo_mt_numbers)
  with fin crew_of_threads[OF steps] have "freed d_maps d_opens demo_start (mt_exit demo_libc ms (crew_mt ?cr))" by blast
  with run fin crew_of_threads[OF steps] show ?thesis by (fastforce simp: freed_def demo_kernel_def demo_state_def)
qed

text \<open>
  C15. A sender that panics between taking its share of \<open>total\<close> and settling it, which needs a build with overflow
  checks, hangs the process: the share stays reserved, so \<open>sent\<close> never reaches \<open>total\<close>, no other sender ever leaves
  its loop, and the scope, which reports the panic only once all threads are joined, never does as long as one lives.
\<close>

theorem mt_panic_hangs:
  assumes "mt_set_up S pf args area p0 = (Ok ms, p)"
    and "(crew_step S pf (mt_batch_size args) (mt_total_count args) (ms_desc ms))\<^sup>*\<^sup>* (crew_init p ms) cr"
    and "j \<in> lost_senders cr" and "j < length (mt_senders (crew_mt cr))"
    and "0 < owed (sd_pc (mt_senders (crew_mt cr) ! j))"
    and "(crew_step S pf (mt_batch_size args) (mt_total_count args) (ms_desc ms))\<^sup>*\<^sup>* cr cr'"
  shows "sent (mt_shared (crew_mt cr')) < mt_total_count args \<and>
    (\<forall>i<length (mt_senders (crew_mt cr')). sd_pc (mt_senders (crew_mt cr') ! i) \<noteq> SEnd) \<and>
    (crew_joined cr' \<longrightarrow> {..<length (mt_senders (crew_mt cr'))} \<subseteq> lost_senders cr')"
proof -
  have "mt_inv (mt_total_count args) (crew_mt (crew_init p ms))"
    using mt_set_up_inv(1)[OF assms(1)] by (simp add: crew_init_def)
  from crew_steps_inv[OF assms(2) this] have "mt_inv (mt_total_count args) (crew_mt cr)" by blast
  note keeps = crew_steps_inv[OF assms(6) this]
  then have "j < length (mt_senders (crew_mt cr'))" "0 < owed (sd_pc (mt_senders (crew_mt cr') ! j))"
    using assms(3-5) by auto
  with owed_never_sent[OF keeps[THEN conjunct1] this] show ?thesis by (auto simp: crew_joined_def)
qed

theorem mt_panic_hangs_witness:
  "\<exists>ms p cr. mt_set_up demo_libc Debug demo_mt_args (65536, 1048576) demo_start = (Ok ms, p) \<and>
    (crew_step demo_libc Debug 1024 1 (ms_desc ms))\<^sup>*\<^sup>* (crew_init p ms) cr \<and> crew_panics cr \<and>
    (\<forall>cr'. (crew_step demo_libc Debug 1024 1 (ms_desc ms))\<^sup>*\<^sup>* cr cr' \<longrightarrow> sent (mt_shared (crew_mt cr')) < 1)"
proof -
  obtain ms p st tx tx2 where run: "mt_set_up demo_libc Debug demo_mt_args (65536, 1048576) demo_start = (Ok ms, p)"
    and mt: "(mt_step demo_libc Debug 1024 1 (ms_desc ms))\<^sup>*\<^sup>* (mt_init p ms) st"
    and st: "mt_senders st = [\<lparr>sd_tx = tx, sd_ctr = 0, sd_threshold = WAKE_THRESHOLD, sd_pc = SSend 1\<rparr>,
      \<lparr>sd_tx = tx2, sd_ctr = 1, sd_threshold = WAKE_THRESHOLD, sd_pc = SLoadSent\<rparr>]"
    and panic: "sender_step demo_libc Debug 1024 1 (ms_desc ms) (\<lambda>m. m) (mt_shared st) (mt_senders st ! 0) = Inl ArithOverflow"
    by (rule demo_mt_debug_run)
  from crew_of_threads[OF mt] have steps: "(crew_step demo_libc Debug 1024 1 (ms_desc ms))\<^sup>*\<^sup>*
      (crew_init p ms) ((crew_init p ms)\<lparr>crew_mt := st\<rparr>)" .
  note crew_sender_lost[OF _ _ _ _ panic, of "(crew_init p ms)\<lparr>crew_mt := st\<rparr>"]
  then obtain cr where lost: "crew_step demo_libc Debug 1024 1 (ms_desc ms) ((crew_init p ms)\<lparr>crew_mt := st\<rparr>) cr"
    and cr: "lost_senders cr = {0}" "mt_senders (crew_mt cr) = mt_senders st"
    by (simp add: crew_init_def st)
  have reach: "(crew_step demo_libc Debug 1024 1 (ms_desc ms))\<^sup>*\<^sup>* (crew_init p ms) cr"
    by (rule rtranclp.rtrancl_into_rtrancl[OF steps lost])
  have "sent (mt_shared (crew_mt cr')) < 1" if "(crew_step demo_libc Debug 1024 1 (ms_desc ms))\<^sup>*\<^sup>* cr cr'" for cr'
    using mt_panic_hangs[OF run, unfolded demo_mt_numbers, OF reach _ _ _ that, of 0] by (simp add: cr st)
  with run reach cr(1) show ?thesis
    by (intro exI[of _ ms] exI[of _ p] exI[of _ cr]) (simp add: crew_panics_def)
qed

end
