(* ===== verification/Weak.thy ===== *)
theory Weak
  imports User
begin

text \<open>
  The rings under release/acquire memory orderings.  Where \<open>Ring\<close> has one memory that both sides
  see alike, here each side has its own view of what has happened.  A head is the history of the values
  stored to it; a load may return any of them that is not older than one the side has seen.  A
  release store carries the view of the storing side, and an acquire load takes over the view carried by
  the message it reads; a relaxed load does not.  Slots are accessed by plain loads and stores: an access
  to a slot that the accessing side has not been told of all conflicting earlier accesses to is a data
  race, \<open>None\<close>.
\<close>

subsection \<open>The memory\<close>

text \<open>
  The side that fills slots and stores the producer head, and the side that drains them and stores
  the consumer head.  Each head is stored to by one side only, so stores are appended to its history.
\<close>

datatype side = Producing | Consuming

datatype head = PHead | CHead

text \<open>What a view counts: the stores to a head, the writes to and the reads of a slot.\<close>

datatype cell = Head head | Filled nat | Drained nat

type_synonym view = "cell \<Rightarrow> nat"

definition join :: "view \<Rightarrow> view \<Rightarrow> view" where
  "join a b = (\<lambda>c. max (a c) (b c))"

record 'a weak =
  wk_hist :: "head \<Rightarrow> (u32 \<times> view) list"
  wk_slot :: "nat \<Rightarrow> 'a"
  wk_count :: "cell \<Rightarrow> nat"
  wk_view :: "side \<Rightarrow> view"

definition see :: "side \<Rightarrow> view \<Rightarrow> 'a weak \<Rightarrow> 'a weak" where
  "see t v w = w\<lparr>wk_view := (wk_view w)(t := v)\<rparr>"

text \<open>Loads and stores of heads.  The argument \<open>i\<close> is the store that a load reads from.\<close>

definition load_relaxed :: "side \<Rightarrow> head \<Rightarrow> nat \<Rightarrow> 'a weak \<Rightarrow> (u32 \<times> 'a weak) option" where
  "load_relaxed t l i w =
     (if wk_view w t (Head l) \<le> i \<and> i < length (wk_hist w l)
      then Some (fst (wk_hist w l ! i), see t ((wk_view w t)(Head l := i)) w) else None)"

definition load_acquire :: "side \<Rightarrow> head \<Rightarrow> nat \<Rightarrow> 'a weak \<Rightarrow> (u32 \<times> 'a weak) option" where
  "load_acquire t l i w =
     (if wk_view w t (Head l) \<le> i \<and> i < length (wk_hist w l)
      then Some (fst (wk_hist w l ! i), see t ((join (wk_view w t) (snd (wk_hist w l ! i)))(Head l := i)) w)
      else None)"

definition store_with :: "view \<Rightarrow> side \<Rightarrow> head \<Rightarrow> u32 \<Rightarrow> 'a weak \<Rightarrow> 'a weak" where
  "store_with carried t l v w =
     (let i = length (wk_hist w l)
      in see t ((wk_view w t)(Head l := i))
           (w\<lparr>wk_hist := (wk_hist w)(l := wk_hist w l @ [(v, carried(Head l := i))])\<rparr>))"

definition store_release :: "side \<Rightarrow> head \<Rightarrow> u32 \<Rightarrow> 'a weak \<Rightarrow> 'a weak" where
  "store_release t l v w = store_with (wk_view w t) t l v w"

definition store_relaxed :: "side \<Rightarrow> head \<Rightarrow> u32 \<Rightarrow> 'a weak \<Rightarrow> 'a weak" where
  "store_relaxed t l v w = store_with (\<lambda>_. 0) t l v w"

text \<open>Plain accesses to slots.\<close>

definition knows :: "side \<Rightarrow> cell \<Rightarrow> 'a weak \<Rightarrow> bool" where
  "knows t c w \<longleftrightarrow> wk_view w t c = wk_count w c"

definition tick :: "side \<Rightarrow> cell \<Rightarrow> 'a weak \<Rightarrow> 'a weak" where
  "tick t c w = see t ((wk_view w t)(c := wk_count w c + 1)) (w\<lparr>wk_count := (wk_count w)(c := wk_count w c + 1)\<rparr>)"

definition write_slot :: "side \<Rightarrow> nat \<Rightarrow> 'a \<Rightarrow> 'a weak \<Rightarrow> 'a weak option" where
  "write_slot t s x w =
     (if knows t (Filled s) w \<and> knows t (Drained s) w
      then Some (tick t (Filled s) (w\<lparr>wk_slot := (wk_slot w)(s := x)\<rparr>)) else None)"

definition read_slot :: "side \<Rightarrow> nat \<Rightarrow> 'a weak \<Rightarrow> ('a \<times> 'a weak) option" where
  "read_slot t s w = (if knows t (Filled s) w then Some (wk_slot w s, tick t (Drained s) w) else None)"

subsection \<open>The ring operations, with the orderings of the source\<close>

definition w_count_free ::
  "profile \<Rightarrow> nat \<Rightarrow> u32 \<Rightarrow> RingProd \<Rightarrow> 'a weak \<Rightarrow> ((u32 \<times> RingProd) res \<times> 'a weak) option" where
  "w_count_free pf c mininmum r w =
     (let i = prod_inner r; free_entries = cached_consumer i - cached_producer i
      in if mininmum \<le> free_entries then Some (Inr (free_entries, r), w)
         else Option.bind (load_acquire Producing CHead c w) (\<lambda>(v, w1).
           Some (rbind (add_chk pf v (ring_size i)) (\<lambda>cc.
                 rbind (sub_chk pf cc (cached_producer i)) (\<lambda>free.
                   Inr (free, r\<lparr>prod_inner := i\<lparr>cached_consumer := cc\<rparr>\<rparr>))), w1)))"

definition w_reserve ::
  "profile \<Rightarrow> nat \<Rightarrow> u32 \<times> u32 \<Rightarrow> BufIdx \<Rightarrow> RingProd \<Rightarrow> 'a weak \<Rightarrow>
     ((u32 \<times> BufIdx \<times> RingProd) res \<times> 'a weak) option" where
  "w_reserve pf c nb idx r w =
     (case nb of (start, end1) \<Rightarrow>
        Option.bind (w_count_free pf c start r w) (\<lambda>(x, w1).
          Some (rbind x (\<lambda>(free, r1).
            if free < start then Inr (0, idx, r1)
            else
              let free1 = min free end1; i = prod_inner r1
              in rbind (add_chk pf (cached_producer i) free1) (\<lambda>q.
                   Inr (free1, cached_producer i, r1\<lparr>prod_inner := i\<lparr>cached_producer := q\<rparr>\<rparr>))), w1)))"

definition w_submit :: "nat \<Rightarrow> u32 \<Rightarrow> 'a weak \<Rightarrow> 'a weak option" where
  "w_submit c nb w =
     Option.bind (load_relaxed Producing PHead c w) (\<lambda>(cur, w1). Some (store_release Producing PHead (cur + nb) w1))"

definition w_count_available ::
  "nat \<Rightarrow> nat \<Rightarrow> u32 \<Rightarrow> RingCons \<Rightarrow> 'a weak \<Rightarrow> (u32 \<times> RingCons \<times> 'a weak) option" where
  "w_count_available c c' expected r w =
     (let i = cons_inner r; available = cached_producer i - cached_consumer i
      in if available < expected
         then Option.bind (load_relaxed Consuming PHead c w) (\<lambda>(new_val, w1).
              Option.bind (load_acquire Consuming PHead c' w1) (\<lambda>(v, w2).
                Some (new_val - cached_consumer i, r\<lparr>cons_inner := i\<lparr>cached_producer := v\<rparr>\<rparr>, w2)))
         else Some (available, r, w))"

definition w_peek ::
  "profile \<Rightarrow> nat \<Rightarrow> nat \<Rightarrow> u32 \<times> u32 \<Rightarrow> BufIdx \<Rightarrow> RingCons \<Rightarrow> 'a weak \<Rightarrow>
     ((u32 \<times> BufIdx \<times> RingCons) res \<times> 'a weak) option" where
  "w_peek pf c c' nb idx r w =
     (case nb of (start, end1) \<Rightarrow>
        Option.bind (w_count_available c c' start r w) (\<lambda>(count, r1, w1).
          Some (if count < start then Inr (0, idx, r1)
            else
              let count1 = min count end1; i = cons_inner r1
              in rbind (add_chk pf (cached_consumer i) count1) (\<lambda>q.
                   Inr (count1, cached_consumer i, r1\<lparr>cons_inner := i\<lparr>cached_consumer := q\<rparr>\<rparr>)), w1)))"

definition w_release :: "nat \<Rightarrow> u32 \<Rightarrow> 'a weak \<Rightarrow> 'a weak option" where
  "w_release c nb w =
     Option.bind (load_relaxed Consuming CHead c w) (\<lambda>(cur, w1). Some (store_release Consuming CHead (cur + nb) w1))"

text \<open>The two \<open>count_pending\<close>: relaxed loads of both heads.\<close>

definition w_prod_count_pending :: "nat \<Rightarrow> nat \<Rightarrow> 'a weak \<Rightarrow> (u32 \<times> 'a weak) option" where
  "w_prod_count_pending c c' w =
     Option.bind (load_relaxed Producing PHead c w) (\<lambda>(comitted, w1).
     Option.bind (load_relaxed Producing CHead c' w1) (\<lambda>(consumed, w2). Some (comitted - consumed, w2)))"

definition w_cons_count_pending :: "nat \<Rightarrow> nat \<Rightarrow> 'a weak \<Rightarrow> (u32 \<times> 'a weak) option" where
  "w_cons_count_pending c c' w =
     Option.bind (load_relaxed Consuming PHead c w) (\<lambda>(available, w1).
     Option.bind (load_relaxed Consuming CHead c' w1) (\<lambda>(consumed, w2). Some (available - consumed, w2)))"

text \<open>\<open>XskRing::new\<close>: both heads are loaded relaxed, by the side that user space is on.\<close>

definition w_ring_new ::
  "profile \<Rightarrow> side \<Rightarrow> nat \<Rightarrow> nat \<Rightarrow> u64 \<Rightarrow> XdpRingOffsets \<Rightarrow> u32 \<Rightarrow> 'a weak \<Rightarrow> (XskRing res \<times> 'a weak) option" where
  "w_ring_new pf t c c' tx_map off count w =
     (if pf = Debug \<and> \<not> is_power_of_two count then Some (Inl AssertFailed, w)
      else Option.bind (load_relaxed t PHead c w) (\<lambda>(p, w1).
           Option.bind (load_relaxed t CHead c' w1) (\<lambda>(q, w2).
             Some (rbind (sub_chk pf count 1) (\<lambda>msk.
               Inr \<lparr>cached_producer = p, cached_consumer = q, ring_mask = msk, ring_size = count,
                 producer = tx_map + off_producer off, consumer = tx_map + off_consumer off,
                 ring_ptr = tx_map + off_desc off, flags_ptr = tx_map + off_flags off\<rparr>), w2))))"

text \<open>
  A ring as the kernel hands it out: nothing stored to either head since both were set to \<open>p0\<close>.
\<close>

definition w_start :: "u32 \<Rightarrow> (nat \<Rightarrow> 'a) \<Rightarrow> 'a weak" where
  "w_start p0 f = \<lparr>wk_hist = (\<lambda>_. [(p0, \<lambda>_. 0)]), wk_slot = f, wk_count = (\<lambda>_. 0), wk_view = (\<lambda>_ _. 0)\<rparr>"

subsection \<open>The cursor\<close>

text \<open>\<open>BufIdxIter::reserve\<close> and \<open>BufIdxIter::peek\<close>, as the writers and readers call them.\<close>

definition w_cursor_reserve ::
  "profile \<Rightarrow> nat \<Rightarrow> RingProd \<Rightarrow> u32 \<Rightarrow> 'a weak \<Rightarrow> ((BufIdxIter \<times> RingProd) res \<times> 'a weak) option" where
  "w_cursor_reserve pf c q n w =
     map_option (apfst (\<lambda>x. rbind x (\<lambda>(buffers, base, q1).
       Inr (\<lparr>it_base = base, it_buffers = buffers, it_remain = buffers\<rparr>, q1)))) (w_reserve pf c (1, n) 0 q w)"

definition w_cursor_peek ::
  "profile \<Rightarrow> nat \<Rightarrow> nat \<Rightarrow> RingCons \<Rightarrow> u32 \<Rightarrow> 'a weak \<Rightarrow> ((BufIdxIter \<times> RingCons) res \<times> 'a weak) option" where
  "w_cursor_peek pf c c' q n w =
     map_option (apfst (\<lambda>x. rbind x (\<lambda>(buffers, base, q1).
       Inr (\<lparr>it_base = base, it_buffers = buffers, it_remain = buffers\<rparr>, q1)))) (w_peek pf c c' (1, n) 0 q w)"

text \<open>One turn of \<open>insert\<close>, and \<open>read\<close>: the slot is chosen by the masked index and accessed plainly.\<close>

definition w_insert_once :: "RingProd \<Rightarrow> BufIdxIter \<Rightarrow> 'a \<Rightarrow> 'a weak \<Rightarrow> (bool \<times> BufIdxIter \<times> 'a weak) option" where
  "w_insert_once r it x w =
     (case BufIdxIter_next it of
        (None, it1) \<Rightarrow> Some (False, it1, w)
      | (Some bufidx, it1) \<Rightarrow>
          map_option (\<lambda>w1. (True, it1, w1)) (write_slot Producing (unat (bufidx AND ring_mask (prod_inner r))) x w))"

definition w_read :: "RingCons \<Rightarrow> BufIdxIter \<Rightarrow> 'a weak \<Rightarrow> ('a option \<times> BufIdxIter \<times> 'a weak) option" where
  "w_read r it w =
     (case BufIdxIter_next it of
        (None, it1) \<Rightarrow> Some (None, it1, w)
      | (Some bufidx, it1) \<Rightarrow>
          map_option (\<lambda>(x, w1). (Some x, it1, w1)) (read_slot Consuming (unat (bufidx AND ring_mask (cons_inner r))) w))"

definition w_commit_prod :: "profile \<Rightarrow> nat \<Rightarrow> BufIdxIter \<Rightarrow> 'a weak \<Rightarrow> (BufIdxIter res \<times> 'a weak) option" where
  "w_commit_prod pf c it w =
     (if 0 < it_buffers it
      then case sub_chk pf (it_buffers it) (it_remain it) of
             Inl e \<Rightarrow> Some (Inl e, w)
           | Inr count \<Rightarrow> map_option (Pair
               (rbind (sub_chk pf (it_buffers it) count) (\<lambda>buffers.
                rbind (add_chk pf (it_base it) count) (\<lambda>base.
                  Inr (it\<lparr>it_buffers := buffers, it_base := base\<rparr>))))) (w_submit c count w)
      else Some (Inr it, w))"

definition w_release_cons :: "profile \<Rightarrow> nat \<Rightarrow> BufIdxIter \<Rightarrow> 'a weak \<Rightarrow> (BufIdxIter res \<times> 'a weak) option" where
  "w_release_cons pf c it w =
     (if 0 < it_buffers it
      then case sub_chk pf (it_buffers it) (it_remain it) of
             Inl e \<Rightarrow> Some (Inl e, w)
           | Inr count \<Rightarrow> map_option (Pair
               (rbind (sub_chk pf (it_buffers it) count) (\<lambda>buffers.
                rbind (add_chk pf (it_base it) count) (\<lambda>base.
                  Inr (it\<lparr>it_buffers := buffers, it_base := base\<rparr>))))) (w_release c count w)
      else Some (Inr it, w))"

text \<open>The two \<open>drop\<close>s touch no shared memory.\<close>

definition w_drop_prod :: "profile \<Rightarrow> BufIdxIter \<Rightarrow> RingProd \<Rightarrow> RingProd res" where
  "w_drop_prod pf it q = (if it_buffers it \<noteq> 0 then RingProd_cancel pf (it_buffers it) q else Inr q)"

definition w_drop_cons :: "profile \<Rightarrow> BufIdxIter \<Rightarrow> RingCons \<Rightarrow> RingCons res" where
  "w_drop_cons pf it q = (if it_buffers it \<noteq> 0 then RingCons_cancel pf (it_buffers it) q else Inr q)"

subsection \<open>The same computations\<close>

text \<open>A small ring, and what evaluates a step on it.\<close>

definition weak_offsets :: XdpRingOffsets where
  "weak_offsets = \<lparr>off_producer = 0, off_consumer = 64, off_desc = 192, off_flags = 128\<rparr>"

definition weak_ring :: XskRing where
  "weak_ring = \<lparr>cached_producer = 0, cached_consumer = 0, ring_mask = 1, ring_size = 2, producer = 4096,
     consumer = 4160, ring_ptr = 4288, flags_ptr = 4224\<rparr>"

lemmas weak_eval = w_ring_new_def weak_offsets_def load_relaxed_def load_acquire_def see_def w_start_def w_cursor_reserve_def w_reserve_def
  w_count_free_def w_insert_once_def w_commit_prod_def w_submit_def store_release_def store_with_def write_slot_def
  read_slot_def knows_def tick_def join_def is_power_of_two_def upt_rec w_count_available_def w_peek_def BufIdxIter_next_def
  checked_sub_def rbind_def w_drop_prod_def
  Let_def

lemma w_count_free_computes:
  assumes "w_count_free pf c k r w = Some (x, w1)" and "load_u32 m (consumer (prod_inner r)) = fst (wk_hist w CHead ! c)"
  shows "x = count_free pf m k r"
  using assms
  by (cases "k \<le> cached_consumer (prod_inner r) - cached_producer (prod_inner r)")
    (auto simp: w_count_free_def count_free_def load_acquire_def Let_def split: bind_splits if_splits)

lemma w_count_available_computes:
  assumes "w_count_available c c' k r w = Some (n, r1, w1)"
    and "load_u32 m (producer (cons_inner r)) = fst (wk_hist w PHead ! c)"
    and "load_u32 (env m) (producer (cons_inner r)) = fst (wk_hist w PHead ! c')"
  shows "\<exists>m1. count_available env m k r = (n, r1, m1)"
  using assms
  by (cases "cached_producer (cons_inner r) - cached_consumer (cons_inner r) < k")
    (auto simp: w_count_available_def count_available_def load_acquire_def load_relaxed_def see_def Let_def
      split: bind_splits if_splits)

text \<open>
  The orderings decide what is read, not what is computed from it: \<open>reserve\<close> and \<open>peek\<close> under
  release/acquire memory return what they return over plain memory that holds, at each of their loads,
  the value of the store the load read, in both build profiles.
\<close>

lemma weak_ops_compute:
  assumes "w_reserve pf c nb idx r w = Some (x, w1)"
    and "load_u32 m (consumer (prod_inner r)) = fst (wk_hist w CHead ! c)"
    and "w_peek pf c' c'' nb' idx' q u = Some (y, u1)"
    and "load_u32 m' (producer (cons_inner q)) = fst (wk_hist u PHead ! c')"
    and "load_u32 (env m') (producer (cons_inner q)) = fst (wk_hist u PHead ! c'')"
  shows "reserve pf m nb idx r = x \<and>
    (\<exists>m1. peek pf env m' nb' idx' q = rbind y (\<lambda>(k, i, q1). Inr (k, i, q1, m1)))"
proof
  obtain x0 where cf: "w_count_free pf c (fst nb) r w = Some (x0, w1)"
    and x: "count_free pf m (fst nb) r = x0 \<Longrightarrow> reserve pf m nb idx r = x"
    using assms(1) by (auto simp: w_reserve_def reserve_def case_prod_unfold split: bind_splits)
  show "reserve pf m nb idx r = x" by (rule x[OF w_count_free_computes[OF cf assms(2), symmetric]])
next
  obtain n q1 where ca: "w_count_available c' c'' (fst nb') q u = Some (n, q1, u1)"
    and y: "\<And>m1. count_available env m' (fst nb') q = (n, q1, m1) \<Longrightarrow>
      peek pf env m' nb' idx' q = rbind y (\<lambda>(k, i, q1). Inr (k, i, q1, m1))"
    using assms(3)
    by (fastforce simp: w_peek_def peek_def case_prod_unfold Let_def rbind_def split: bind_splits sum.splits)
  from w_count_available_computes[where env = env, OF ca assms(4,5)] y
  show "\<exists>m1. peek pf env m' nb' idx' q = rbind y (\<lambda>(k, i, q1). Inr (k, i, q1, m1))" by blast
qed

end
