(* ===== verification/WeakRing.thy ===== *)
theory WeakRing
  imports Weak
begin

text \<open>
  What keeps the two sides of a ring apart under release/acquire orderings: an invariant on the
  histories of the heads, the views and the slots, and that each access the protocol allows is free of
  races and keeps it.  Heads are counted from the first one, \<open>p0\<close>, without wrapping around; \<open>hp\<close> and \<open>hc\<close>
  are the histories of the two heads counted so, \<open>cc\<close> is the consumer head that the producing side has
  acquired, \<open>kp\<close> the producer head that the consuming side has acquired, and \<open>sent\<close> is all that was published.
\<close>

subsection \<open>Slots of positions\<close>

definition slot_of :: "u32 \<Rightarrow> u32 \<Rightarrow> nat \<Rightarrow> nat" where
  "slot_of n p0 q = unat ((p0 + of_nat q) AND (n - 1))"

lemma slot_of_mod: "is_power_of_two n \<Longrightarrow> slot_of n p0 q = (unat p0 + q) mod unat n"
  by (simp add: slot_of_def and_mask_mod mod_wrap_add)

lemma slot_of_neq:
  assumes "is_power_of_two n" and "q < q'" and "q' < q + unat n"
  shows "slot_of n p0 q \<noteq> slot_of n p0 q'"
proof
  assume "slot_of n p0 q = slot_of n p0 q'"
  then have "(unat p0 + q + 0) mod unat n = (unat p0 + q + (q' - q)) mod unat n"
    using assms(1,2) by (simp add: slot_of_mod)
  from mod_window_le[OF _ _ this] assms(2,3) show False by fastforce
qed

subsection \<open>Views\<close>

text \<open>No view is ahead of what has happened.\<close>

definition view_ok :: "'a weak \<Rightarrow> view \<Rightarrow> bool" where
  "view_ok w v \<longleftrightarrow> (\<forall>s. v (Filled s) \<le> wk_count w (Filled s) \<and> v (Drained s) \<le> wk_count w (Drained s)) \<and>
     (\<forall>l. v (Head l) < length (wk_hist w l))"

definition views_ok :: "'a weak \<Rightarrow> bool" where
  "views_ok w \<longleftrightarrow> (\<forall>t. view_ok w (wk_view w t)) \<and> (\<forall>l. \<forall>m\<in>set (wk_hist w l). view_ok w (snd m))"

lemma view_ok_join [intro]: "view_ok w a \<Longrightarrow> view_ok w b \<Longrightarrow> view_ok w (join a b)"
  by (simp add: view_ok_def join_def)

lemma view_ok_head [intro]: "view_ok w v \<Longrightarrow> i < length (wk_hist w l) \<Longrightarrow> view_ok w (v(Head l := i))"
  by (auto simp: view_ok_def)

lemma see_simps [simp]:
  "wk_hist (see t v w) = wk_hist w" "wk_slot (see t v w) = wk_slot w" "wk_count (see t v w) = wk_count w"
  "wk_view (see t v w) = (wk_view w)(t := v)" "view_ok (see t v w) = view_ok w"
  by (simp_all add: see_def view_ok_def[abs_def])

lemma views_ok_see: "views_ok w \<Longrightarrow> view_ok w v \<Longrightarrow> views_ok (see t v w)"
  by (auto simp: views_ok_def)

subsection \<open>The invariant\<close>

definition head_hist :: "u32 \<Rightarrow> nat list \<Rightarrow> (u32 \<times> view) list \<Rightarrow> bool" where
  "head_hist p0 h ms \<longleftrightarrow> h \<noteq> [] \<and> sorted h \<and> map fst ms = map (\<lambda>q. p0 + of_nat q) h"

definition weak_inv ::
  "u32 \<Rightarrow> u32 \<Rightarrow> nat list \<Rightarrow> nat list \<Rightarrow> nat \<Rightarrow> nat \<Rightarrow> 'a list \<Rightarrow> 'a weak \<Rightarrow> bool" where
  "weak_inv n p0 hp hc cc kp sent w \<longleftrightarrow> is_power_of_two n \<and> views_ok w \<and>
     head_hist p0 hp (wk_hist w PHead) \<and> head_hist p0 hc (wk_hist w CHead) \<and>
     wk_view w Producing (Head PHead) = length hp - 1 \<and> wk_view w Consuming (Head CHead) = length hc - 1 \<and>
     cc \<le> hc ! wk_view w Producing (Head CHead) \<and> kp \<le> hp ! wk_view w Consuming (Head PHead) \<and>
     cc \<le> last hc \<and> last hc \<le> kp \<and> kp \<le> last hp \<and> last hp \<le> cc + unat n \<and>
     (\<forall>s. knows Producing (Filled s) w \<and> knows Consuming (Drained s) w) \<and>
     (\<forall>q. last hp \<le> q \<and> q < cc + unat n \<longrightarrow> knows Producing (Drained (slot_of n p0 q)) w) \<and>
     (\<forall>q. last hc \<le> q \<and> q < kp \<longrightarrow> knows Consuming (Filled (slot_of n p0 q)) w) \<and>
     (\<forall>j<length hc. \<forall>q. last hp \<le> q \<and> q < hc ! j + unat n \<longrightarrow>
        snd (wk_hist w CHead ! j) (Drained (slot_of n p0 q)) = wk_count w (Drained (slot_of n p0 q))) \<and>
     (\<forall>j<length hp. \<forall>q. last hc \<le> q \<and> q < hp ! j \<longrightarrow>
        snd (wk_hist w PHead ! j) (Filled (slot_of n p0 q)) = wk_count w (Filled (slot_of n p0 q))) \<and>
     length sent = last hp \<and> (\<forall>q. last hc \<le> q \<and> q < last hp \<longrightarrow> wk_slot w (slot_of n p0 q) = sent ! q)"

lemma head_hist_nth: "head_hist p0 h ms \<Longrightarrow> i < length h \<Longrightarrow> fst (ms ! i) = p0 + of_nat (h ! i)"
  unfolding head_hist_def by (metis length_map nth_map)

lemma head_hist_length [simp]: "head_hist p0 h ms \<Longrightarrow> length ms = length h"
  unfolding head_hist_def by (metis length_map)

lemma head_hist_le_last: "head_hist p0 h ms \<Longrightarrow> i < length h \<Longrightarrow> h ! i \<le> last h"
  by (simp add: head_hist_def last_conv_nth sorted_nth_mono)

lemma weak_invD:
  assumes "weak_inv n p0 hp hc cc kp sent w"
  shows "is_power_of_two n" "views_ok w" "head_hist p0 hp (wk_hist w PHead)" "head_hist p0 hc (wk_hist w CHead)"
    and "wk_view w Producing (Head PHead) = length hp - 1" "wk_view w Consuming (Head CHead) = length hc - 1"
    and "cc \<le> hc ! wk_view w Producing (Head CHead)" "kp \<le> hp ! wk_view w Consuming (Head PHead)"
    and "cc \<le> last hc" "last hc \<le> kp" "kp \<le> last hp" "last hp \<le> cc + unat n"
    and "knows Producing (Filled s) w" "knows Consuming (Drained s) w"
    and "last hp \<le> q \<Longrightarrow> q < cc + unat n \<Longrightarrow> knows Producing (Drained (slot_of n p0 q)) w"
    and "last hc \<le> q \<Longrightarrow> q < kp \<Longrightarrow> knows Consuming (Filled (slot_of n p0 q)) w"
    and "j < length hc \<Longrightarrow> last hp \<le> q \<Longrightarrow> q < hc ! j + unat n \<Longrightarrow>
      snd (wk_hist w CHead ! j) (Drained (slot_of n p0 q)) = wk_count w (Drained (slot_of n p0 q))"
    and "j < length hp \<Longrightarrow> last hc \<le> q \<Longrightarrow> q < hp ! j \<Longrightarrow>
      snd (wk_hist w PHead ! j) (Filled (slot_of n p0 q)) = wk_count w (Filled (slot_of n p0 q))"
    and "length sent = last hp"
    and "last hc \<le> q \<Longrightarrow> q < last hp \<Longrightarrow> wk_slot w (slot_of n p0 q) = sent ! q"
  using assms unfolding weak_inv_def by blast+

lemma weak_invI:
  assumes "is_power_of_two n" "views_ok w" "head_hist p0 hp (wk_hist w PHead)" "head_hist p0 hc (wk_hist w CHead)"
    and "wk_view w Producing (Head PHead) = length hp - 1" "wk_view w Consuming (Head CHead) = length hc - 1"
    and "cc \<le> hc ! wk_view w Producing (Head CHead)" "kp \<le> hp ! wk_view w Consuming (Head PHead)"
    and "cc \<le> last hc" "last hc \<le> kp" "kp \<le> last hp" "last hp \<le> cc + unat n"
    and "\<And>s. knows Producing (Filled s) w" "\<And>s. knows Consuming (Drained s) w"
    and "\<And>q. last hp \<le> q \<Longrightarrow> q < cc + unat n \<Longrightarrow> knows Producing (Drained (slot_of n p0 q)) w"
    and "\<And>q. last hc \<le> q \<Longrightarrow> q < kp \<Longrightarrow> knows Consuming (Filled (slot_of n p0 q)) w"
    and "\<And>j q. j < length hc \<Longrightarrow> last hp \<le> q \<Longrightarrow> q < hc ! j + unat n \<Longrightarrow>
      snd (wk_hist w CHead ! j) (Drained (slot_of n p0 q)) = wk_count w (Drained (slot_of n p0 q))"
    and "\<And>j q. j < length hp \<Longrightarrow> last hc \<le> q \<Longrightarrow> q < hp ! j \<Longrightarrow>
      snd (wk_hist w PHead ! j) (Filled (slot_of n p0 q)) = wk_count w (Filled (slot_of n p0 q))"
    and "length sent = last hp"
    and "\<And>q. last hc \<le> q \<Longrightarrow> q < last hp \<Longrightarrow> wk_slot w (slot_of n p0 q) = sent ! q"
  shows "weak_inv n p0 hp hc cc kp sent w"
  using assms unfolding weak_inv_def by blast

subsection \<open>Loads\<close>

lemma message_ok: "views_ok w \<Longrightarrow> i < length (wk_hist w l) \<Longrightarrow> view_ok w (snd (wk_hist w l ! i))"
  using nth_mem unfolding views_ok_def by blast

lemma views_ok_load:
  assumes "views_ok w" and "i < length (wk_hist w l)"
  shows "views_ok (see t ((wk_view w t)(Head l := i)) w)"
    and "views_ok (see t ((join (wk_view w t) (snd (wk_hist w l ! i)))(Head l := i)) w)"
  using assms message_ok[OF assms] by (auto intro!: views_ok_see view_ok_head view_ok_join simp: views_ok_def)

lemma knows_join:
  assumes "views_ok w" and "m \<in> set (wk_hist w l)" and "t' = t \<longrightarrow> knows t c w \<or> snd m c = wk_count w c"
    and "t' \<noteq> t \<longrightarrow> knows t' c w" and "c = Filled s \<or> c = Drained s"
  shows "knows t' c (see t ((join (wk_view w t) (snd m))(Head l := i)) w)"
proof -
  have "wk_view w t c \<le> wk_count w c" "snd m c \<le> wk_count w c"
    using assms(1,2,5) by (auto simp: views_ok_def view_ok_def)
  with assms(3-5) show ?thesis by (auto simp: knows_def join_def)
qed

text \<open>The producing side learns how far the other has drained.\<close>

lemma acquire_cons:
  assumes inv: "weak_inv n p0 hp hc cc kp sent w" and load: "load_acquire Producing CHead i w = Some (v, w')"
  shows "i < length hc" and "v = p0 + of_nat (hc ! i)" and "cc \<le> hc ! i" and "hc ! i \<le> last hc"
    and "weak_inv n p0 hp hc (hc ! i) kp sent w'"
proof -
  note I = weak_invD[OF inv]
  have len: "length (wk_hist w CHead) = length hc" using I(4) by simp
  have i: "wk_view w Producing (Head CHead) \<le> i" "i < length (wk_hist w CHead)" and v: "v = fst (wk_hist w CHead ! i)"
    and w': "w' = see Producing ((join (wk_view w Producing) (snd (wk_hist w CHead ! i)))(Head CHead := i)) w"
    using load by (auto simp: load_acquire_def split: if_splits)
  show i': "i < length hc" using i(2) len by simp
  show "v = p0 + of_nat (hc ! i)" using head_hist_nth[OF I(4) i'] v by simp
  have srt: "sorted hc" using I(4) by (simp add: head_hist_def)
  show cc: "cc \<le> hc ! i" using I(7) sorted_nth_mono[OF srt i(1) i'] by simp
  show last: "hc ! i \<le> last hc" by (rule head_hist_le_last[OF I(4) i'])
  have m: "wk_hist w CHead ! i \<in> set (wk_hist w CHead)" using i(2) by simp
  have "snd (wk_hist w CHead ! i) (Head PHead) < length hp"
    using message_ok[OF I(2) i(2)] I(3) by (auto simp: view_ok_def dest: spec[of _ PHead])
  then have own: "wk_view w' Producing (Head PHead) = length hp - 1" using I(5) by (simp add: w' join_def)
  show "weak_inv n p0 hp hc (hc ! i) kp sent w'"
  proof (rule weak_invI)
    show "views_ok w'" unfolding w' by (rule views_ok_load(2)[OF I(2) i(2)])
    show "knows Producing (Drained (slot_of n p0 q)) w'" if "last hp \<le> q" "q < hc ! i + unat n" for q
      unfolding w' using I(17)[OF i' that] by (intro knows_join[OF I(2) m]) auto
    show "knows Producing (Filled s) w'" "knows Consuming (Drained s) w'" for s
      unfolding w' using I(13,14) by (intro knows_join[OF I(2) m]; auto)+
    show "knows Consuming (Filled (slot_of n p0 q)) w'" if "last hc \<le> q" "q < kp" for q
      unfolding w' using I(16)[OF that] by (intro knows_join[OF I(2) m]) auto
  qed (use I cc last own in \<open>auto simp: w'\<close>)
qed

text \<open>The consuming side learns how far the other has published.\<close>

lemma acquire_prod:
  assumes inv: "weak_inv n p0 hp hc cc kp sent w" and load: "load_acquire Consuming PHead i w = Some (v, w')"
  shows "i < length hp" and "v = p0 + of_nat (hp ! i)" and "kp \<le> hp ! i" and "hp ! i \<le> last hp"
    and "wk_view w Consuming (Head PHead) \<le> i" and "weak_inv n p0 hp hc cc (hp ! i) sent w'"
proof -
  note I = weak_invD[OF inv]
  have len: "length (wk_hist w PHead) = length hp" using I(3) by simp
  have i: "wk_view w Consuming (Head PHead) \<le> i" "i < length (wk_hist w PHead)" and v: "v = fst (wk_hist w PHead ! i)"
    and w': "w' = see Consuming ((join (wk_view w Consuming) (snd (wk_hist w PHead ! i)))(Head PHead := i)) w"
    using load by (auto simp: load_acquire_def split: if_splits)
  show i': "i < length hp" and "wk_view w Consuming (Head PHead) \<le> i" using i len by simp_all
  show "v = p0 + of_nat (hp ! i)" using head_hist_nth[OF I(3) i'] v by simp
  have srt: "sorted hp" using I(3) by (simp add: head_hist_def)
  show kp: "kp \<le> hp ! i" using I(8) sorted_nth_mono[OF srt i(1) i'] by simp
  show last: "hp ! i \<le> last hp" by (rule head_hist_le_last[OF I(3) i'])
  have m: "wk_hist w PHead ! i \<in> set (wk_hist w PHead)" using i(2) by simp
  have "snd (wk_hist w PHead ! i) (Head CHead) < length hc"
    using message_ok[OF I(2) i(2)] I(4) by (auto simp: view_ok_def dest: spec[of _ CHead])
  then have own: "wk_view w' Consuming (Head CHead) = length hc - 1" using I(6) by (simp add: w' join_def)
  show "weak_inv n p0 hp hc cc (hp ! i) sent w'"
  proof (rule weak_invI)
    show "views_ok w'" unfolding w' by (rule views_ok_load(2)[OF I(2) i(2)])
    show "knows Consuming (Filled (slot_of n p0 q)) w'" if "last hc \<le> q" "q < hp ! i" for q
      unfolding w' using I(18)[OF i' that] by (intro knows_join[OF I(2) m]) auto
    show "knows Producing (Filled s) w'" "knows Consuming (Drained s) w'" for s
      unfolding w' using I(13,14) by (intro knows_join[OF I(2) m]; auto)+
    show "knows Producing (Drained (slot_of n p0 q)) w'" if "last hp \<le> q" "q < cc + unat n" for q
      unfolding w' using I(15)[OF that] by (intro knows_join[OF I(2) m]) auto
  qed (use I kp last own in \<open>auto simp: w'\<close>)
qed

text \<open>A relaxed load tells where a head is, and keeps the side from reading an older store later.\<close>

lemma relaxed_prod:
  assumes inv: "weak_inv n p0 hp hc cc kp sent w" and load: "load_relaxed t PHead i w = Some (v, w')"
  shows "i < length hp" and "v = p0 + of_nat (hp ! i)" and "t = Producing \<Longrightarrow> hp ! i = last hp"
    and "t = Consuming \<Longrightarrow> kp \<le> hp ! i" and "wk_view w' t (Head PHead) = i"
    and "weak_inv n p0 hp hc cc kp sent w'"
proof -
  note I = weak_invD[OF inv]
  have i: "wk_view w t (Head PHead) \<le> i" "i < length (wk_hist w PHead)" and v: "v = fst (wk_hist w PHead ! i)"
    and w': "w' = see t ((wk_view w t)(Head PHead := i)) w"
    using load by (auto simp: load_relaxed_def split: if_splits)
  show i': "i < length hp" using i(2) I(3) by simp
  show "v = p0 + of_nat (hp ! i)" using head_hist_nth[OF I(3) i'] v by simp
  have srt: "sorted hp" "hp \<noteq> []" using I(3) by (simp_all add: head_hist_def)
  have own: "i = length hp - 1" if "t = Producing" using i(1) i' I(5) that by simp
  then show "t = Producing \<Longrightarrow> hp ! i = last hp" using srt(2) by (simp add: last_conv_nth)
  have kp: "kp \<le> hp ! i" if "t = Consuming" using I(8) sorted_nth_mono[OF srt(1) i(1) i'] that by simp
  then show "t = Consuming \<Longrightarrow> kp \<le> hp ! i" .
  show "wk_view w' t (Head PHead) = i" by (simp add: w')
  have knw: "knows t' c w' = knows t' c w" if "c = Filled s \<or> c = Drained s" for t' c s
    using that by (auto simp: knows_def w')
  show "weak_inv n p0 hp hc cc kp sent w'"
  proof (rule weak_invI)
    show "views_ok w'" unfolding w' by (rule views_ok_load(1)[OF I(2) i(2)])
    show "wk_view w' Producing (Head PHead) = length hp - 1" "kp \<le> hp ! wk_view w' Consuming (Head PHead)"
      using own kp I(5,8) by (cases t; simp add: w')+
  qed (use I in \<open>auto simp: w' knows_def\<close>)
qed

lemma relaxed_cons:
  assumes inv: "weak_inv n p0 hp hc cc kp sent w" and load: "load_relaxed t CHead i w = Some (v, w')"
  shows "i < length hc" and "v = p0 + of_nat (hc ! i)" and "t = Consuming \<Longrightarrow> hc ! i = last hc"
    and "t = Producing \<Longrightarrow> cc \<le> hc ! i" and "weak_inv n p0 hp hc cc kp sent w'"
proof -
  note I = weak_invD[OF inv]
  have i: "wk_view w t (Head CHead) \<le> i" "i < length (wk_hist w CHead)" and v: "v = fst (wk_hist w CHead ! i)"
    and w': "w' = see t ((wk_view w t)(Head CHead := i)) w"
    using load by (auto simp: load_relaxed_def split: if_splits)
  show i': "i < length hc" using i(2) I(4) by simp
  show "v = p0 + of_nat (hc ! i)" using head_hist_nth[OF I(4) i'] v by simp
  have srt: "sorted hc" "hc \<noteq> []" using I(4) by (simp_all add: head_hist_def)
  have own: "i = length hc - 1" if "t = Consuming" using i(1) i' I(6) that by simp
  then show "t = Consuming \<Longrightarrow> hc ! i = last hc" using srt(2) by (simp add: last_conv_nth)
  have cc: "cc \<le> hc ! i" if "t = Producing" using I(7) sorted_nth_mono[OF srt(1) i(1) i'] that by simp
  then show "t = Producing \<Longrightarrow> cc \<le> hc ! i" .
  show "weak_inv n p0 hp hc cc kp sent w'"
  proof (rule weak_invI)
    show "views_ok w'" unfolding w' by (rule views_ok_load(1)[OF I(2) i(2)])
    show "wk_view w' Consuming (Head CHead) = length hc - 1" "cc \<le> hc ! wk_view w' Producing (Head CHead)"
      using own cc I(6,7) by (cases t; simp add: w')+
  qed (use I in \<open>auto simp: w' knows_def\<close>)
qed

lemma load_slots:
  "load_acquire t l i w = Some (v, w1) \<Longrightarrow> wk_slot w1 = wk_slot w"
  "load_relaxed t l i w = Some (v, w1) \<Longrightarrow> wk_slot w1 = wk_slot w"
  by (auto simp: load_acquire_def load_relaxed_def split: if_splits)

subsection \<open>Slots\<close>

lemma tick_simps [simp]:
  "wk_hist (tick t c w) = wk_hist w" "wk_slot (tick t c w) = wk_slot w"
  "wk_count (tick t c w) = (wk_count w)(c := wk_count w c + 1)"
  "wk_view (tick t c w) = (wk_view w)(t := (wk_view w t)(c := wk_count w c + 1))"
  by (simp_all add: tick_def)

lemma knows_tick: "knows t' c' (tick t c w) \<longleftrightarrow> (if c' = c then t' = t \<or> wk_view w t' c = wk_count w c + 1 else knows t' c' w)"
  by (auto simp: knows_def)

lemma views_ok_tick:
  assumes "views_ok w" and "c = Filled s \<or> c = Drained s"
  shows "views_ok (tick t c w)"
proof -
  have "view_ok (tick t c w) u" if "view_ok w u" for u
    using that by (auto simp: view_ok_def le_SucI)
  moreover have "view_ok (tick t c w) (u(c := wk_count w c + 1))" if "view_ok w u" for u
    using that assms(2) by (auto simp: view_ok_def le_SucI)
  ultimately show ?thesis using assms(1) by (auto simp: views_ok_def)
qed

lemma views_ok_own: "views_ok w \<Longrightarrow> wk_view w t (Head l) < length (wk_hist w l)"
  by (simp add: views_ok_def view_ok_def)

text \<open>The producing side may write any slot from the published head on, up to a ring's size past the head it acquired.\<close>

lemma write_free_slot:
  assumes inv: "weak_inv n p0 hp hc cc kp sent w" and q: "last hp \<le> q" "q < cc + unat n"
  shows "\<exists>w'. write_slot Producing (slot_of n p0 q) x w = Some w' \<and> weak_inv n p0 hp hc cc kp sent w' \<and>
    wk_slot w' = (wk_slot w)(slot_of n p0 q := x) \<and> wk_hist w' = wk_hist w"
proof -
  note I = weak_invD[OF inv]
  let ?s = "slot_of n p0 q" and ?w = "w\<lparr>wk_slot := (wk_slot w)(slot_of n p0 q := x)\<rparr>"
  let ?w' = "tick Producing (Filled (slot_of n p0 q)) (w\<lparr>wk_slot := (wk_slot w)(slot_of n p0 q := x)\<rparr>)"
  have other: "slot_of n p0 q' \<noteq> ?s" if "last hc \<le> q'" "q' < last hp" for q'
    by (rule slot_of_neq[OF I(1)]) (use that q I(9) in linarith)+
  have run: "write_slot Producing ?s x w = Some ?w'" using I(13)[of ?s] I(15)[OF q] by (simp add: write_slot_def)
  have knw: "knows t c ?w = knows t c w" for t c by (simp add: knows_def)
  have "weak_inv n p0 hp hc cc kp sent ?w'"
  proof (rule weak_invI)
    have "views_ok ?w" using I(2) by (simp add: views_ok_def view_ok_def)
    then show "views_ok ?w'" by (rule views_ok_tick) simp
    show "knows Consuming (Filled (slot_of n p0 q')) ?w'" if "last hc \<le> q'" "q' < kp" for q'
      using I(16)[OF that] other[of q'] that I(11) by (simp add: knows_tick knw)
    show "snd (wk_hist ?w' PHead ! j) (Filled (slot_of n p0 q')) = wk_count ?w' (Filled (slot_of n p0 q'))"
      if "j < length hp" "last hc \<le> q'" "q' < hp ! j" for j q'
      using I(18)[OF that] other[of q'] that head_hist_le_last[OF I(3) that(1)] by simp
    show "wk_slot ?w' (slot_of n p0 q') = sent ! q'" if "last hc \<le> q'" "q' < last hp" for q'
      using I(20)[OF that] other[OF that] by simp
  qed (use I in \<open>auto simp: knows_tick knw\<close>)
  with run show ?thesis by simp
qed

text \<open>The consuming side may read any slot from the released head on, up to the head it acquired.\<close>

lemma read_sent_slot:
  assumes inv: "weak_inv n p0 hp hc cc kp sent w" and q: "last hc \<le> q" "q < kp"
  shows "\<exists>w'. read_slot Consuming (slot_of n p0 q) w = Some (sent ! q, w') \<and> weak_inv n p0 hp hc cc kp sent w' \<and>
    wk_slot w' = wk_slot w \<and> wk_hist w' = wk_hist w"
proof -
  note I = weak_invD[OF inv]
  let ?s = "slot_of n p0 q" and ?w' = "tick Consuming (Drained (slot_of n p0 q)) w"
  have other: "slot_of n p0 q' \<noteq> ?s" if "last hp \<le> q'" "q' < last hc + unat n" for q'
    using slot_of_neq[OF I(1), of q q' p0] that q I(11) by fastforce
  have run: "read_slot Consuming ?s w = Some (sent ! q, ?w')"
    using I(16)[OF q] I(20)[of q] q I(11) by (simp add: read_slot_def)
  have "weak_inv n p0 hp hc cc kp sent ?w'"
  proof (rule weak_invI)
    show "views_ok ?w'" by (rule views_ok_tick[OF I(2)]) simp
    show "knows Producing (Drained (slot_of n p0 q')) ?w'" if "last hp \<le> q'" "q' < cc + unat n" for q'
      using I(15)[OF that] other[of q'] that I(9) by (simp add: knows_tick)
    show "snd (wk_hist ?w' CHead ! j) (Drained (slot_of n p0 q')) = wk_count ?w' (Drained (slot_of n p0 q'))"
      if "j < length hc" "last hp \<le> q'" "q' < hc ! j + unat n" for j q'
      using I(17)[OF that] other[of q'] that head_hist_le_last[OF I(4) that(1)] by simp
  qed (use I in \<open>auto simp: knows_tick\<close>)
  with run show ?thesis by simp
qed

subsection \<open>Stores\<close>

lemma store_simps [simp]:
  "wk_hist (store_with v t l x w) = (wk_hist w)(l := wk_hist w l @ [(x, v(Head l := length (wk_hist w l)))])"
  "wk_slot (store_with v t l x w) = wk_slot w" "wk_count (store_with v t l x w) = wk_count w"
  "wk_view (store_with v t l x w) = (wk_view w)(t := (wk_view w t)(Head l := length (wk_hist w l)))"
  by (simp_all add: store_with_def Let_def)

lemma knows_store [simp]: "knows t' (Filled s) (store_with v t l x w) = knows t' (Filled s) w"
  "knows t' (Drained s) (store_with v t l x w) = knows t' (Drained s) w"
  by (simp_all add: knows_def)

lemma views_ok_store:
  assumes "views_ok w" and "view_ok w v"
  shows "views_ok (store_with v t l x w)"
proof -
  have "view_ok (store_with v t l x w) u" if "view_ok w u" for u
    using that by (auto simp: view_ok_def less_SucI)
  moreover have "view_ok (store_with v t l x w) (u(Head l := length (wk_hist w l)))" if "view_ok w u" for u
    using that by (auto simp: view_ok_def less_SucI)
  ultimately show ?thesis using assms by (auto simp: views_ok_def)
qed

lemma head_hist_snoc:
  "head_hist p0 h ms \<Longrightarrow> last h \<le> q \<Longrightarrow> head_hist p0 (h @ [q]) (ms @ [(p0 + of_nat q, v)])"
  using order_trans[OF head_hist_le_last[of p0 h ms]]
  by (fastforce simp: head_hist_def sorted_append in_set_conv_nth)

text \<open>Publishing hands over what the slots then hold.\<close>

lemma publish:
  assumes inv: "weak_inv n p0 hp hc cc kp sent w" and q: "last hp \<le> q" "q \<le> cc + unat n"
    and xs: "length xs = q - last hp" "\<And>i. i < length xs \<Longrightarrow> wk_slot w (slot_of n p0 (last hp + i)) = xs ! i"
  shows "weak_inv n p0 (hp @ [q]) hc cc kp (sent @ xs) (store_release Producing PHead (p0 + of_nat q) w)"
proof -
  note I = weak_invD[OF inv]
  have len: "length (wk_hist w PHead) = length hp" using I(3) by simp
  have hv: "wk_view w Consuming (Head PHead) < length hp"
    using views_ok_own[OF I(2), of Consuming PHead] len by simp
  show ?thesis
    unfolding store_release_def
  proof (rule weak_invI)
    show "views_ok (store_with (wk_view w Producing) Producing PHead (p0 + of_nat q) w)"
      by (rule views_ok_store) (use I(2) in \<open>auto simp: views_ok_def\<close>)
    show "head_hist p0 (hp @ [q]) (wk_hist (store_with (wk_view w Producing) Producing PHead (p0 + of_nat q) w) PHead)"
      using head_hist_snoc[OF I(3) q(1)] by simp
    show "snd (wk_hist (store_with (wk_view w Producing) Producing PHead (p0 + of_nat q) w) PHead ! j) (Filled (slot_of n p0 q')) =
        wk_count (store_with (wk_view w Producing) Producing PHead (p0 + of_nat q) w) (Filled (slot_of n p0 q'))"
      if "j < length (hp @ [q])" "last hc \<le> q'" "q' < (hp @ [q]) ! j" for j q'
      using that I(18)[of j q'] I(13)[of "slot_of n p0 q'"] len by (auto simp: nth_append knows_def)
    show "wk_slot (store_with (wk_view w Producing) Producing PHead (p0 + of_nat q) w) (slot_of n p0 q') = (sent @ xs) ! q'"
      if "last hc \<le> q'" "q' < last (hp @ [q])" for q'
      using that I(20)[of q'] I(19) xs(1) xs(2)[of "q' - last hp"] by (auto simp: nth_append)
  qed (use I q xs(1) len hv in \<open>auto simp: nth_append\<close>)
qed

text \<open>Releasing gives back slots that were read.\<close>

lemma give_back:
  assumes inv: "weak_inv n p0 hp hc cc kp sent w" and q: "last hc \<le> q" "q \<le> kp"
  shows "weak_inv n p0 hp (hc @ [q]) cc kp sent (store_release Consuming CHead (p0 + of_nat q) w)"
proof -
  note I = weak_invD[OF inv]
  have len: "length (wk_hist w CHead) = length hc" using I(4) by simp
  have hv: "wk_view w Producing (Head CHead) < length hc"
    using views_ok_own[OF I(2), of Producing CHead] len by simp
  show ?thesis
    unfolding store_release_def
  proof (rule weak_invI)
    show "views_ok (store_with (wk_view w Consuming) Consuming CHead (p0 + of_nat q) w)"
      by (rule views_ok_store) (use I(2) in \<open>auto simp: views_ok_def\<close>)
    show "head_hist p0 (hc @ [q]) (wk_hist (store_with (wk_view w Consuming) Consuming CHead (p0 + of_nat q) w) CHead)"
      using head_hist_snoc[OF I(4) q(1)] by simp
    show "snd (wk_hist (store_with (wk_view w Consuming) Consuming CHead (p0 + of_nat q) w) CHead ! j) (Drained (slot_of n p0 q')) =
        wk_count (store_with (wk_view w Consuming) Consuming CHead (p0 + of_nat q) w) (Drained (slot_of n p0 q'))"
      if "j < length (hc @ [q])" "last hp \<le> q'" "q' < (hc @ [q]) ! j + unat n" for j q'
      using that I(17)[of j q'] I(14)[of "slot_of n p0 q'"] len by (auto simp: nth_append knows_def)
  qed (use I q len hv in \<open>auto simp: nth_append\<close>)
qed

end
