(* ===== verification/WeakTx.thy ===== *)
theory WeakTx
  imports WeakRing
begin

text \<open>
  A transmit or fill ring under release/acquire orderings: user space produces, the kernel consumes.
  User space goes through the phases of a writer, the kernel through the steps of its side of the protocol (it
  acquires the producer head, reads what lies before it, and stores its own head with release), in any
  order, each load reading any store it may read.  The calls are single steps: each makes at most one load of
  the other side's head, and of its own head it can read only its own last store.
\<close>

subsection \<open>The system\<close>

datatype wtx_phase =
    WtIdle RingProd
  | WtFilling BufIdxIter RingProd
  | WtPublished BufIdxIter RingProd

text \<open>The kernel's own counters: the next entry to take, and the producer head it last saw.\<close>

record kside =
  k_next :: u32
  k_seen :: u32

datatype 'a wtx = WtRace | WtSys wtx_phase kside "'a weak" (wt_open: "'a list") (wt_sent: "'a list") (wt_got: "'a list")

inductive wtx_step :: "u32 \<Rightarrow> 'a wtx \<Rightarrow> 'a wtx \<Rightarrow> bool" for n where
  wt_open: "w_cursor_reserve Release c q k w = Some (Inr (it, q1), w1) \<Longrightarrow>
    wtx_step n (WtSys (WtIdle q) ks w xs s g) (WtSys (WtFilling it q1) ks w1 [] s g)"
| wt_insert: "w_insert_once q it x w = Some (b, it1, w1) \<Longrightarrow>
    wtx_step n (WtSys (WtFilling it q) ks w xs s g)
      (WtSys (WtFilling it1 q) ks w1 (if b then xs @ [x] else xs) s g)"
| wt_insert_race: "w_insert_once q it x w = None \<Longrightarrow> wtx_step n (WtSys (WtFilling it q) ks w xs s g) WtRace"
| wt_commit: "w_commit_prod Release c it w = Some (Inr it1, w1) \<Longrightarrow>
    wtx_step n (WtSys (WtFilling it q) ks w xs s g) (WtSys (WtPublished it1 q) ks w1 [] (s @ xs) g)"
| wt_abort: "w_drop_prod Release it q = Inr q1 \<Longrightarrow>
    wtx_step n (WtSys (WtFilling it q) ks w xs s g) (WtSys (WtIdle q1) ks w [] s g)"
| wt_close: "w_drop_prod Release it q = Inr q1 \<Longrightarrow>
    wtx_step n (WtSys (WtPublished it q) ks w xs s g) (WtSys (WtIdle q1) ks w [] s g)"
| wt_k_look: "load_acquire Consuming PHead i w = Some (v, w1) \<Longrightarrow>
    wtx_step n (WtSys p ks w xs s g) (WtSys p (ks\<lparr>k_seen := v\<rparr>) w1 xs s g)"
| wt_k_take: "k_next ks \<noteq> k_seen ks \<Longrightarrow> read_slot Consuming (unat (k_next ks AND (n - 1))) w = Some (x, w1) \<Longrightarrow>
    wtx_step n (WtSys p ks w xs s g) (WtSys p (ks\<lparr>k_next := k_next ks + 1\<rparr>) w1 xs s (g @ [x]))"
| wt_k_race: "k_next ks \<noteq> k_seen ks \<Longrightarrow> read_slot Consuming (unat (k_next ks AND (n - 1))) w = None \<Longrightarrow>
    wtx_step n (WtSys p ks w xs s g) WtRace"
| wt_k_give: "wtx_step n (WtSys p ks w xs s g) (WtSys p ks (store_release Consuming CHead (k_next ks) w) xs s g)"

text \<open>The steps in which only the kernel moves.\<close>

inductive wtx_by_kernel :: "u32 \<Rightarrow> 'a wtx \<Rightarrow> 'a wtx \<Rightarrow> bool" for n where
  wk_look: "load_acquire Consuming PHead i w = Some (v, w1) \<Longrightarrow>
    wtx_by_kernel n (WtSys p ks w xs s g) (WtSys p (ks\<lparr>k_seen := v\<rparr>) w1 xs s g)"
| wk_take: "k_next ks \<noteq> k_seen ks \<Longrightarrow> read_slot Consuming (unat (k_next ks AND (n - 1))) w = Some (x, w1) \<Longrightarrow>
    wtx_by_kernel n (WtSys p ks w xs s g) (WtSys p (ks\<lparr>k_next := k_next ks + 1\<rparr>) w1 xs s (g @ [x]))"
| wk_give: "wtx_by_kernel n (WtSys p ks w xs s g) (WtSys p ks (store_release Consuming CHead (k_next ks) w) xs s g)"

lemma wtx_by_kernel_step: "wtx_by_kernel n y y' \<Longrightarrow> wtx_step n y y'"
  by (induction rule: wtx_by_kernel.induct) (blast intro: wt_k_look wt_k_take wt_k_give)+

lemma wtx_by_kernel_steps: "(wtx_by_kernel n)\<^sup>*\<^sup>* y y' \<Longrightarrow> (wtx_step n)\<^sup>*\<^sup>* y y'"
  by (induction rule: rtranclp_induct) (auto dest: wtx_by_kernel_step intro: rtranclp.rtrancl_into_rtrancl)

subsection \<open>The invariant\<close>

text \<open>The producing side's view of its ring: \<open>a\<close> slots are reserved behind the published head.\<close>

definition wprod_ok :: "u32 \<Rightarrow> u32 \<Rightarrow> nat \<Rightarrow> nat \<Rightarrow> XskRing \<Rightarrow> bool" where
  "wprod_ok n p0 a cc i \<longleftrightarrow> ring_mask i = n - 1 \<and> ring_size i = n \<and> cached_producer i = p0 + of_nat a \<and>
     (\<exists>l. cached_consumer i = p0 + of_nat l \<and> a \<le> l \<and> l \<le> cc + unat n)"

fun wtx_phase_ok :: "u32 \<Rightarrow> u32 \<Rightarrow> nat \<Rightarrow> 'a list \<Rightarrow> nat \<Rightarrow> 'a weak \<Rightarrow> wtx_phase \<Rightarrow> bool" where
  "wtx_phase_ok n p0 cc xs ls w (WtIdle q) \<longleftrightarrow> wprod_ok n p0 ls cc (prod_inner q)"
| "wtx_phase_ok n p0 cc xs ls w (WtFilling it q) \<longleftrightarrow>
     wprod_ok n p0 (ls + unat (it_buffers it)) cc (prod_inner q) \<and>
     unat (it_remain it) + length xs = unat (it_buffers it) \<and>
     (it_buffers it = 0 \<or> it_base it = p0 + of_nat (ls + length xs)) \<and>
     (\<forall>j<length xs. wk_slot w (slot_of n p0 (ls + j)) = xs ! j)"
| "wtx_phase_ok n p0 cc xs ls w (WtPublished it q) \<longleftrightarrow> wprod_ok n p0 (ls + unat (it_buffers it)) cc (prod_inner q)"

text \<open>The kernel's view: it has seen the producer head \<open>kp\<close> and released up to \<open>rel\<close>.\<close>

definition wtx_kernel_ok :: "u32 \<Rightarrow> nat \<Rightarrow> nat \<Rightarrow> kside \<Rightarrow> 'a list \<Rightarrow> 'a list \<Rightarrow> bool" where
  "wtx_kernel_ok p0 rel kp ks s g \<longleftrightarrow> k_next ks = p0 + of_nat (length g) \<and> k_seen ks = p0 + of_nat kp \<and>
     rel \<le> length g \<and> length g \<le> kp \<and> g = take (length g) s"

definition wtx_inv :: "u32 \<Rightarrow> u32 \<Rightarrow> 'a wtx \<Rightarrow> bool" where
  "wtx_inv n p0 y \<longleftrightarrow> (\<exists>p ks w xs s g hp hc cc kp. y = WtSys p ks w xs s g \<and>
     weak_inv n p0 hp hc cc kp s w \<and> wtx_phase_ok n p0 cc xs (length s) w p \<and> wtx_kernel_ok p0 (last hc) kp ks s g)"

lemma wtx_invI:
  "weak_inv n p0 hp hc cc kp s w \<Longrightarrow> wtx_phase_ok n p0 cc xs (length s) w p \<Longrightarrow>
    wtx_kernel_ok p0 (last hc) kp ks s g \<Longrightarrow> wtx_inv n p0 (WtSys p ks w xs s g)"
  unfolding wtx_inv_def by blast

lemma wtx_invE:
  assumes "wtx_inv n p0 (WtSys p ks w xs s g)"
  obtains hp hc cc kp where "weak_inv n p0 hp hc cc kp s w" "wtx_phase_ok n p0 cc xs (length s) w p"
    "wtx_kernel_ok p0 (last hc) kp ks s g"
  using assms unfolding wtx_inv_def by blast

lemma wtx_phase_ok_slot: "wk_slot w1 = wk_slot w \<Longrightarrow> wtx_phase_ok n p0 cc xs ls w1 p = wtx_phase_ok n p0 cc xs ls w p"
  by (cases p) simp_all

lemma unat_wdiff: "b \<le> a \<Longrightarrow> a - b \<le> unat (n :: u32) \<Longrightarrow> unat ((p0 + of_nat a) - (p0 + of_nat b) :: u32) = a - b"
proof -
  assume "b \<le> a" "a - b \<le> unat n"
  moreover have "unat n < 2 ^ 32" using unsigned_less[of n] by simp
  ultimately have "a - b < 2 ^ 32" by linarith
  moreover have eq: "(p0 + of_nat a) - (p0 + of_nat b) = (of_nat (a - b) :: u32)" using \<open>b \<le> a\<close> by (simp add: of_nat_diff)
  ultimately show ?thesis unfolding eq by (simp add: unat_of_nat take_bit_nat_eq_self)
qed

lemma wprod_okI:
  "i = i0\<lparr>cached_consumer := p0 + of_nat l, cached_producer := p0 + of_nat a\<rparr> \<Longrightarrow> ring_mask i0 = n - 1 \<Longrightarrow>
    ring_size i0 = n \<Longrightarrow> a \<le> l \<Longrightarrow> l \<le> cc + unat n \<Longrightarrow> wprod_ok n p0 a cc i"
  by (auto simp: wprod_ok_def)

subsection \<open>Reserving\<close>

lemma w_count_free_ok:
  assumes inv: "weak_inv n p0 hp hc cc kp s w" and ok: "wprod_ok n p0 a cc (prod_inner q)" and "last hp \<le> a"
    and run: "w_count_free Release c start q w = Some (Inr (free, q1), w1)"
  obtains cc' l where "weak_inv n p0 hp hc cc' kp s w1" "cc \<le> cc'" "wk_slot w1 = wk_slot w"
    "prod_inner q1 = (prod_inner q)\<lparr>cached_consumer := p0 + of_nat l\<rparr>" "a \<le> l" "l \<le> cc' + unat n"
    "unat free = l - a"
proof -
  let ?i = "prod_inner q"
  from ok obtain l where i: "ring_mask ?i = n - 1" "ring_size ?i = n" "cached_producer ?i = p0 + of_nat a"
    "cached_consumer ?i = p0 + of_nat l" "a \<le> l" "l \<le> cc + unat n"
    by (auto simp: wprod_ok_def)
  note I = weak_invD[OF inv]
  show thesis
  proof (cases "start \<le> cached_consumer ?i - cached_producer ?i")
    case True
    have "l - a \<le> unat n" using i(6) assms(3) I(9-11) by linarith
    from unat_wdiff[OF i(5) this] True run i have "unat free = l - a" "q1 = q" "w1 = w"
      by (auto simp: w_count_free_def Let_def)
    with that[of cc l] inv i show thesis by simp
  next
    case False
    then obtain v where load: "load_acquire Producing CHead c w = Some (v, w1)"
      and free: "free = v + n - (p0 + of_nat a)" and q1: "prod_inner q1 = ?i\<lparr>cached_consumer := v + n\<rparr>"
      using run i by (auto simp: w_count_free_def Let_def split: bind_splits)
    note L = acquire_cons[OF inv load]
    have l: "v + n = p0 + of_nat (hc ! c + unat n)" using L(2) by simp
    have le: "a \<le> hc ! c + unat n" using i(5,6) L(3) by linarith
    have "hc ! c + unat n - a \<le> unat n" using L(4) assms(3) I(10,11) by linarith
    then have "unat free = hc ! c + unat n - a" unfolding free l by (rule unat_wdiff[OF le])
    moreover have "wk_slot w1 = wk_slot w" by (rule load_slots(1)[OF load])
    ultimately show thesis
      using that[OF L(5) L(3) _ _ le order_refl] q1 unfolding l by blast
  qed
qed

lemma w_cursor_reserve_ok:
  assumes inv: "weak_inv n p0 hp hc cc kp s w" and ok: "wprod_ok n p0 a cc (prod_inner q)" and "last hp \<le> a"
    and run: "w_cursor_reserve Release c q k w = Some (Inr (it, q1), w1)"
  obtains cc' where "weak_inv n p0 hp hc cc' kp s w1" "wk_slot w1 = wk_slot w"
    "wprod_ok n p0 (a + unat (it_buffers it)) cc' (prod_inner q1)"
    "it_remain it = it_buffers it" "it_buffers it = 0 \<or> it_base it = p0 + of_nat a"
proof -
  obtain free q2 where cf: "w_count_free Release c 1 q w = Some (Inr (free, q2), w1)"
    and r: "(if free < 1 then Inr (0, 0, q2) else Inr (min free k, cached_producer (prod_inner q2),
      q2\<lparr>prod_inner := prod_inner q2\<lparr>cached_producer := cached_producer (prod_inner q2) + min free k\<rparr>\<rparr>)) =
      (Inr (it_buffers it, it_base it, q1) :: (u32 \<times> BufIdx \<times> RingProd) res)"
    and rem: "it_remain it = it_buffers it"
    using run by (auto simp: w_cursor_reserve_def w_reserve_def Let_def res_simps split: bind_splits if_splits)
  from w_count_free_ok[OF inv ok assms(3) cf] obtain cc' l where
    *: "weak_inv n p0 hp hc cc' kp s w1" "cc \<le> cc'" "wk_slot w1 = wk_slot w"
    "prod_inner q2 = (prod_inner q)\<lparr>cached_consumer := p0 + of_nat l\<rparr>" "a \<le> l" "l \<le> cc' + unat n"
    "unat free = l - a" .
  have i: "ring_mask (prod_inner q) = n - 1" "ring_size (prod_inner q) = n"
    "cached_producer (prod_inner q) = p0 + of_nat a" using ok by (auto simp: wprod_ok_def)
  have "it_buffers it \<le> free" using r min.cobounded1[of free k] by (auto simp del: min.cobounded1 split: if_splits)
  then have "unat (it_buffers it) \<le> unat free" by (simp add: word_le_nat_alt)
  with *(5,7) have b: "a + unat (it_buffers it) \<le> l" by linarith
  have base: "it_buffers it = 0 \<or> it_base it = p0 + of_nat a"
    and q1: "prod_inner q1 = (prod_inner q)\<lparr>cached_consumer := p0 + of_nat l,
      cached_producer := p0 + of_nat (a + unat (it_buffers it))\<rparr>"
    using r *(4) i by (auto split: if_splits)
  show thesis
    by (rule that[OF *(1,3) _ rem base]) (rule wprod_okI[OF q1 i(1,2) b *(6)])
qed

subsection \<open>Filling and publishing\<close>

lemma w_insert_ok:
  assumes inv: "weak_inv n p0 hp hc cc kp s w" and ok: "wtx_phase_ok n p0 cc xs (length s) w (WtFilling it q)"
  obtains b it1 w1 where "w_insert_once q it x w = Some (b, it1, w1)" "weak_inv n p0 hp hc cc kp s w1"
    "wtx_phase_ok n p0 cc (if b then xs @ [x] else xs) (length s) w1 (WtFilling it1 q)"
proof (cases "it_remain it = 0")
  case True
  then have "w_insert_once q it x w = Some (False, it, w)" by (simp add: w_insert_once_def)
  from that[OF this inv] ok show thesis by simp
next
  case False
  let ?q = "length s + length xs" and ?it = "it\<lparr>it_remain := it_remain it - 1, it_base := it_base it + 1\<rparr>"
  have ls: "length s = last hp" by (rule weak_invD(19)[OF inv])
  have pos: "0 < unat (it_remain it)" using False by (simp add: unat_gt_0)
  have rem: "unat (it_remain it) + length xs = unat (it_buffers it)" using ok by simp
  with pos have "it_buffers it \<noteq> 0" by auto
  with ok have base: "it_base it = p0 + of_nat ?q" by simp
  obtain l where l: "length s + unat (it_buffers it) \<le> l" "l \<le> cc + unat n" and mask: "ring_mask (prod_inner q) = n - 1"
    using ok by (auto simp: wprod_ok_def)
  have q: "last hp \<le> ?q" "?q < cc + unat n" using rem pos l ls by linarith+
  from write_free_slot[OF inv q, of x] obtain w1 where
    w1: "write_slot Producing (slot_of n p0 ?q) x w = Some w1" "weak_inv n p0 hp hc cc kp s w1"
    "wk_slot w1 = (wk_slot w)(slot_of n p0 ?q := x)" by blast
  have run: "w_insert_once q it x w = Some (True, ?it, w1)"
    using False w1(1) base mask by (simp add: w_insert_once_def slot_of_def)
  have other: "slot_of n p0 (length s + j) \<noteq> slot_of n p0 ?q" if "j < length xs" for j
    by (rule slot_of_neq[OF weak_invD(1)[OF inv]]) (use that q weak_invD(9-11)[OF inv] ls in linarith)+
  have "wtx_phase_ok n p0 cc (xs @ [x]) (length s) w1 (WtFilling ?it q)"
    using ok rem pos base unat_pred[OF False] other
    by (auto simp: w1(3) nth_append less_Suc_eq add.assoc)
  with that[OF run w1(2)] show thesis by simp
qed

lemma w_commit_ok:
  assumes inv: "weak_inv n p0 hp hc cc kp s w" and ok: "wtx_phase_ok n p0 cc xs (length s) w (WtFilling it q)"
    and run: "w_commit_prod Release c it w = Some (Inr it1, w1)"
  obtains hp' where "weak_inv n p0 hp' hc cc kp (s @ xs) w1"
    "wtx_phase_ok n p0 cc [] (length (s @ xs)) w1 (WtPublished it1 q)"
proof (cases "it_buffers it = 0")
  case True
  then have "xs = []" "it1 = it" "w1 = w" using ok run by (auto simp: w_commit_prod_def)
  with that[of hp] inv ok show thesis by simp
next
  case False
  let ?n = "it_buffers it - it_remain it"
  have ls: "length s = last hp" by (rule weak_invD(19)[OF inv])
  have rem: "unat (it_remain it) + length xs = unat (it_buffers it)" using ok by simp
  then have "it_remain it \<le> it_buffers it" by (simp add: word_le_nat_alt)
  with rem have n: "unat ?n = length xs" by (simp add: unat_sub)
  then have nw: "?n = of_nat (length xs)" unfolding n[symmetric] by simp
  from False run obtain v w0 where load: "load_relaxed Producing PHead c w = Some (v, w0)"
    and w1: "w1 = store_release Producing PHead (v + ?n) w0"
    and it1: "it1 = it\<lparr>it_buffers := it_remain it, it_base := it_base it + ?n\<rparr>"
    by (auto simp: w_commit_prod_def w_submit_def word_neq_0_conv[symmetric] split: bind_splits)
  note R = relaxed_prod[OF inv load]
  have v: "v + ?n = p0 + of_nat (last hp + length xs)" using R(2,3) nw by simp
  have slot: "wk_slot w0 = wk_slot w" by (rule load_slots(2)[OF load])
  obtain l where l: "length s + unat (it_buffers it) \<le> l" "l \<le> cc + unat n" using ok by (auto simp: wprod_ok_def)
  have "weak_inv n p0 (hp @ [last hp + length xs]) hc cc kp (s @ xs) w1"
    unfolding w1 v by (rule publish[OF R(6)]) (use ok l rem ls slot in auto)
  moreover have e: "length s + length xs + unat (it_remain it) = length s + unat (it_buffers it)" using rem by simp
  have "wprod_ok n p0 (length s + length xs + unat (it_remain it)) cc (prod_inner q)" unfolding e using ok by simp
  ultimately show thesis using that[of "hp @ [last hp + length xs]"] it1 by simp
qed

lemma w_drop_prod_ok:
  assumes "wprod_ok n p0 (a + unat (it_buffers it)) cc (prod_inner q)" and "w_drop_prod Release it q = Inr q1"
  shows "wprod_ok n p0 a cc (prod_inner q1)"
  using assms by (force simp: w_drop_prod_def RingProd_cancel_def wprod_ok_def split: if_splits)

subsection \<open>The kernel's steps\<close>

lemma w_take_ok:
  assumes inv: "weak_inv n p0 hp hc cc kp s w" and k: "wtx_kernel_ok p0 (last hc) kp ks s g"
    and new: "k_next ks \<noteq> k_seen ks"
  obtains w1 where "read_slot Consuming (unat (k_next ks AND (n - 1))) w = Some (s ! length g, w1)"
    "weak_inv n p0 hp hc cc kp s w1" "wk_slot w1 = wk_slot w"
    "wtx_kernel_ok p0 (last hc) kp (ks\<lparr>k_next := k_next ks + 1\<rparr>) s (g @ [s ! length g])"
proof -
  have lt: "last hc \<le> length g" "length g < kp" using k new by (auto simp: wtx_kernel_ok_def le_less)
  have "length g < length s" using lt(2) weak_invD(11,19)[OF inv] by linarith
  then have "take (Suc (length g)) s = g @ [s ! length g]"
    using k by (simp add: take_Suc_conv_app_nth wtx_kernel_ok_def)
  then have "wtx_kernel_ok p0 (last hc) kp (ks\<lparr>k_next := k_next ks + 1\<rparr>) s (g @ [s ! length g])"
    using k lt by (simp add: wtx_kernel_ok_def)
  moreover have "slot_of n p0 (length g) = unat (k_next ks AND (n - 1))"
    using k by (simp add: slot_of_def wtx_kernel_ok_def)
  ultimately show thesis using read_sent_slot[OF inv lt] that by auto
qed

subsection \<open>Every step\<close>

lemma wtx_step_ok:
  assumes "wtx_step n y y'" and "wtx_inv n p0 y"
  shows "wtx_inv n p0 y'"
  using assms
proof (induction rule: wtx_step.induct)
  case (wt_open c q k w it q1 w1 ks xs s g)
  from wt_open(2) obtain hp hc cc kp where *: "weak_inv n p0 hp hc cc kp s w" "wprod_ok n p0 (length s) cc (prod_inner q)"
    and k: "wtx_kernel_ok p0 (last hc) kp ks s g" by (auto elim: wtx_invE)
  have "last hp \<le> length s" using weak_invD(19)[OF *(1)] by simp
  from w_cursor_reserve_ok[OF * this wt_open(1)] obtain cc' where inv: "weak_inv n p0 hp hc cc' kp s w1"
    and "wprod_ok n p0 (length s + unat (it_buffers it)) cc' (prod_inner q1)"
    "it_remain it = it_buffers it" "it_buffers it = 0 \<or> it_base it = p0 + of_nat (length s)" .
  then have "wtx_phase_ok n p0 cc' [] (length s) w1 (WtFilling it q1)" by simp
  with inv show ?case using k by (rule wtx_invI)
next
  case (wt_insert q it x w b it1 w1 ks xs s g)
  from wt_insert(2) obtain hp hc cc kp where *: "weak_inv n p0 hp hc cc kp s w"
    "wtx_phase_ok n p0 cc xs (length s) w (WtFilling it q)" and k: "wtx_kernel_ok p0 (last hc) kp ks s g"
    by (rule wtx_invE)
  obtain b' it' w' where run: "w_insert_once q it x w = Some (b', it', w')" and inv: "weak_inv n p0 hp hc cc kp s w'"
    and ok: "wtx_phase_ok n p0 cc (if b' then xs @ [x] else xs) (length s) w' (WtFilling it' q)"
    by (rule w_insert_ok[OF *])
  from run wt_insert(1) have "b' = b" "it' = it1" "w' = w1" by simp_all
  with wtx_invI[OF inv ok k] show ?case by (simp only:)
next
  case (wt_insert_race q it x w ks xs s g)
  from wt_insert_race(2) obtain hp hc cc kp where *: "weak_inv n p0 hp hc cc kp s w"
    "wtx_phase_ok n p0 cc xs (length s) w (WtFilling it q)" by (rule wtx_invE)
  show ?case by (rule w_insert_ok[OF *, of x]) (use wt_insert_race(1) in simp)
next
  case (wt_commit c it w it1 w1 q ks xs s g)
  from wt_commit(2) obtain hp hc cc kp where *: "weak_inv n p0 hp hc cc kp s w"
    "wtx_phase_ok n p0 cc xs (length s) w (WtFilling it q)" and k: "wtx_kernel_ok p0 (last hc) kp ks s g"
    by (rule wtx_invE)
  have "length g \<le> length s" using k weak_invD(11,19)[OF *(1)] by (simp add: wtx_kernel_ok_def)
  with k have "wtx_kernel_ok p0 (last hc) kp ks (s @ xs) g" by (simp add: wtx_kernel_ok_def)
  with w_commit_ok[OF * wt_commit(1)] show ?case by (blast intro: wtx_invI)
next
  case (wt_abort it q q1 ks w xs s g)
  from wt_abort(2) obtain hp hc cc kp where "weak_inv n p0 hp hc cc kp s w" "wtx_kernel_ok p0 (last hc) kp ks s g"
    and q: "wprod_ok n p0 (length s + unat (it_buffers it)) cc (prod_inner q)" by (auto elim!: wtx_invE)
  with w_drop_prod_ok[OF q wt_abort(1)] show ?case by (intro wtx_invI) simp_all
next
  case (wt_close it q q1 ks w xs s g)
  from wt_close(2) obtain hp hc cc kp where "weak_inv n p0 hp hc cc kp s w" "wtx_kernel_ok p0 (last hc) kp ks s g"
    and q: "wprod_ok n p0 (length s + unat (it_buffers it)) cc (prod_inner q)" by (auto elim!: wtx_invE)
  with w_drop_prod_ok[OF q wt_close(1)] show ?case by (intro wtx_invI) simp_all
next
  case (wt_k_look i w v w1 p ks xs s g)
  from wt_k_look(2) obtain hp hc cc kp where *: "weak_inv n p0 hp hc cc kp s w" "wtx_phase_ok n p0 cc xs (length s) w p"
    and k: "wtx_kernel_ok p0 (last hc) kp ks s g" by (rule wtx_invE)
  note A = acquire_prod[OF *(1) wt_k_look(1)]
  have "wk_slot w1 = wk_slot w" by (rule load_slots(1)[OF wt_k_look(1)])
  with *(2) have "wtx_phase_ok n p0 cc xs (length s) w1 p" using wtx_phase_ok_slot by blast
  moreover have "wtx_kernel_ok p0 (last hc) (hp ! i) (ks\<lparr>k_seen := v\<rparr>) s g"
    using k A(2,3) by (simp add: wtx_kernel_ok_def)
  ultimately show ?case by (rule wtx_invI[OF A(6)])
next
  case (wt_k_take ks w x w1 p xs s g)
  from wt_k_take(3) obtain hp hc cc kp where *: "weak_inv n p0 hp hc cc kp s w" "wtx_phase_ok n p0 cc xs (length s) w p"
    and k: "wtx_kernel_ok p0 (last hc) kp ks s g" by (rule wtx_invE)
  obtain w' where run: "read_slot Consuming (unat (k_next ks AND (n - 1))) w = Some (s ! length g, w')"
    and inv: "weak_inv n p0 hp hc cc kp s w'" and slot: "wk_slot w' = wk_slot w"
    and k': "wtx_kernel_ok p0 (last hc) kp (ks\<lparr>k_next := k_next ks + 1\<rparr>) s (g @ [s ! length g])"
    by (rule w_take_ok[OF *(1) k wt_k_take(1)])
  have "wtx_phase_ok n p0 cc xs (length s) w' p" by (rule iffD2[OF wtx_phase_ok_slot[OF slot] *(2)])
  from wtx_invI[OF inv this k'] run wt_k_take(2) show ?case by simp
next
  case (wt_k_race ks w p xs s g)
  from wt_k_race(3) obtain hp hc cc kp where *: "weak_inv n p0 hp hc cc kp s w" "wtx_kernel_ok p0 (last hc) kp ks s g"
    by (rule wtx_invE)
  show ?case by (rule w_take_ok[OF * wt_k_race(1)]) (use wt_k_race(2) in simp)
next
  case (wt_k_give p ks w xs s g)
  from wt_k_give obtain hp hc cc kp where *: "weak_inv n p0 hp hc cc kp s w" "wtx_phase_ok n p0 cc xs (length s) w p"
    and k: "wtx_kernel_ok p0 (last hc) kp ks s g" by (rule wtx_invE)
  let ?w = "store_release Consuming CHead (p0 + of_nat (length g)) w"
  have "weak_inv n p0 hp (hc @ [length g]) cc kp s ?w" by (rule give_back[OF *(1)]) (use k in \<open>simp_all add: wtx_kernel_ok_def\<close>)
  moreover have "wtx_phase_ok n p0 cc xs (length s) ?w p"
    by (rule iffD2[OF wtx_phase_ok_slot *(2)]) (simp add: store_release_def)
  moreover have "wtx_kernel_ok p0 (last (hc @ [length g])) kp ks s g" using k by (simp add: wtx_kernel_ok_def)
  moreover have e: "k_next ks = p0 + of_nat (length g)" using k by (simp add: wtx_kernel_ok_def)
  ultimately show ?case unfolding e by (intro wtx_invI)
qed

subsection \<open>From a mapped ring on\<close>

lemma weak_inv_start:
  assumes "is_power_of_two n"
  shows "weak_inv n p0 [0] [0] 0 0 [] (w_start p0 f)"
  using assms
  by (simp add: weak_inv_def w_start_def views_ok_def view_ok_def head_hist_def knows_def)

text \<open>On a ring to whose heads nothing was stored since, mapping finds both heads where they stand.\<close>

lemma w_ring_new_start:
  assumes n: "is_power_of_two n" and run: "w_ring_new Release t c c' tx_map off n (w_start p0 f) = Some (Inr i, w)"
  shows "weak_inv n p0 [0] [0] 0 0 [] w" and "ring_mask i = n - 1" and "ring_size i = n"
    and "cached_producer i = p0" and "cached_consumer i = p0"
proof -
  from run obtain p q w1 where l: "load_relaxed t PHead c (w_start p0 f) = Some (p, w1)"
    "load_relaxed t CHead c' w1 = Some (q, w)"
    and i: "ring_mask i = n - 1" "ring_size i = n" "cached_producer i = p" "cached_consumer i = q"
    by (auto simp: w_ring_new_def split: bind_splits)
  note P = relaxed_prod[OF weak_inv_start[OF n] l(1)]
  note C = relaxed_cons[OF P(6) l(2)]
  show "weak_inv n p0 [0] [0] 0 0 [] w" by (rule C)
  show "ring_mask i = n - 1" "ring_size i = n" "cached_producer i = p0" "cached_consumer i = p0"
    using P(1,2) C(1,2) by (simp_all add: i)
qed

definition wtx_start :: "u32 \<Rightarrow> RingProd \<Rightarrow> 'a weak \<Rightarrow> 'a wtx" where
  "wtx_start p0 q w = WtSys (WtIdle q) \<lparr>k_next = p0, k_seen = p0\<rparr> w [] [] []"

lemma wtx_steps_ok: "(wtx_step n)\<^sup>*\<^sup>* y y' \<Longrightarrow> wtx_inv n p0 y \<Longrightarrow> wtx_inv n p0 y'"
  by (induction rule: rtranclp_induct) (blast intro: wtx_step_ok)+

lemma wtx_start_ok:
  assumes "is_power_of_two n" and "w_ring_new Release Producing c c' tx_map off n (w_start p0 f) = Some (Inr (prod_inner q), w)"
  shows "wtx_inv n p0 (wtx_start p0 q w)"
  using w_ring_new_start[OF assms] unfolding wtx_start_def
  by (intro wtx_invI) (auto simp: wprod_ok_def wtx_kernel_ok_def intro!: exI[of _ 0])

subsection \<open>A concrete run\<close>

lemma sample_wtx_new: "w_ring_new Release Producing 0 0 4096 weak_offsets 2 (w_start 0 (\<lambda>_. 0 :: nat)) = Some (Inr weak_ring, w_start 0 (\<lambda>_. 0))"
  by (simp add: weak_eval weak_ring_def fun_eq_iff)

lemma sample_wtx_committed:
  "\<exists>p ks u u1. (wtx_step 2)\<^sup>*\<^sup>* (wtx_start 0 \<lparr>prod_inner = weak_ring, prod_mmap_addr = (0, 0)\<rparr>
      (w_start 0 (\<lambda>_. 0 :: nat))) (WtSys p ks u [] [7] []) \<and> w_prod_count_pending 1 0 u = Some (1, u1)"
  unfolding wtx_start_def
  apply ((rule exI)+, rule conjI)
   apply (rule converse_rtranclp_into_rtranclp, rule wt_open[where c = 0 and k = 2])
    apply (simp add: weak_eval weak_ring_def)
   apply (rule converse_rtranclp_into_rtranclp, rule wt_insert[where x = 7])
    apply (simp add: weak_eval weak_ring_def)
   apply (rule converse_rtranclp_into_rtranclp, rule wt_commit[where c = 0])
    apply (simp add: weak_eval weak_ring_def)
   apply (simp only: append_Nil if_True)
   apply (rule rtranclp.rtrancl_refl)
  apply (simp add: weak_eval w_prod_count_pending_def)
  done

lemma sample_wtx_commit:
  "\<exists>y. (wtx_step 2)\<^sup>*\<^sup>* (wtx_start 0 \<lparr>prod_inner = weak_ring, prod_mmap_addr = (0, 0)\<rparr>
      (w_start 0 (\<lambda>_. 0 :: nat))) y \<and> wt_sent y = [7]"
  using sample_wtx_committed by fastforce



lemma w_take_all:
  assumes "weak_inv n p0 hp hc cc kp s w" and "wtx_phase_ok n p0 cc xs (length s) w p"
    and "wtx_kernel_ok p0 (last hc) kp ks s g" and "kp = length s" and "kp - length g < 2 ^ 32"
  shows "\<exists>ks' w'. (wtx_by_kernel n)\<^sup>*\<^sup>* (WtSys p ks w xs s g) (WtSys p ks' w' xs s s)"
  using assms
proof (induction "kp - length g" arbitrary: ks w g)
  case 0
  then have "g = s" by (auto simp: wtx_kernel_ok_def)
  then show ?case by blast
next
  case (Suc d)
  have lt: "length g < kp" using Suc.hyps(2) by simp
  have "unat ((p0 + of_nat kp) - (p0 + of_nat (length g)) :: u32) = kp - length g"
    using Suc.prems(5) lt by (simp add: unat_of_nat take_bit_nat_eq_self of_nat_diff[symmetric] del: of_nat_diff)
  with lt have "p0 + of_nat kp \<noteq> (p0 + of_nat (length g) :: u32)" by auto
  with Suc.prems(3) have new: "k_next ks \<noteq> k_seen ks" by (simp add: wtx_kernel_ok_def)
  obtain w1 where run: "read_slot Consuming (unat (k_next ks AND (n - 1))) w = Some (s ! length g, w1)"
    and inv: "weak_inv n p0 hp hc cc kp s w1" and slot: "wk_slot w1 = wk_slot w"
    and k: "wtx_kernel_ok p0 (last hc) kp (ks\<lparr>k_next := k_next ks + 1\<rparr>) s (g @ [s ! length g])"
    by (rule w_take_ok[OF Suc.prems(1,3) new])
  have ph: "wtx_phase_ok n p0 cc xs (length s) w1 p" by (rule iffD2[OF wtx_phase_ok_slot[OF slot] Suc.prems(2)])
  have "d = kp - length (g @ [s ! length g])" "kp - length (g @ [s ! length g]) < 2 ^ 32"
    using Suc.hyps(2) Suc.prems(5) by simp_all
  from Suc.hyps(1)[OF this(1) inv ph k Suc.prems(4) this(2)] show ?case
    using wk_take[OF new run] by (meson converse_rtranclp_into_rtranclp)
qed



end
