(* ===== verification/WeakRx.thy ===== *)
theory WeakRx
  imports WeakTx
begin

text \<open>
  A receive or completion ring under release/acquire orderings: the kernel produces, user space
  consumes.  The phases are those of a reader.  User space looks for new entries with two loads of the
  producer head, of which only the second acquires; both happen in one step here, which loses no
  behaviour, because the first may read any store not older than the last it knew of.
\<close>

subsection \<open>The system\<close>

datatype wrx_phase =
    WrIdle RingCons
  | WrReading BufIdxIter RingCons
  | WrReleased BufIdxIter RingCons

text \<open>The kernel's own counters: the next entry to fill, and the consumer head it last saw.\<close>

record pside =
  k_prod :: u32
  k_cons :: u32

datatype 'a wrx = WrRace
  | WrSys wrx_phase pside "'a weak" (wr_read: "'a list") (wr_pend: "'a list") (wr_sent: "'a list") (wr_got: "'a list")

inductive wrx_step :: "u32 \<Rightarrow> 'a wrx \<Rightarrow> 'a wrx \<Rightarrow> bool" for n where
  wr_open: "w_cursor_peek Release c c' q k w = Some (Inr (it, q1), w1) \<Longrightarrow>
    wrx_step n (WrSys (WrIdle q) ks w ys ps s g) (WrSys (WrReading it q1) ks w1 [] ps s g)"
| wr_read: "w_read q it w = Some (r, it1, w1) \<Longrightarrow>
    wrx_step n (WrSys (WrReading it q) ks w ys ps s g)
      (WrSys (WrReading it1 q) ks w1 (case r of None \<Rightarrow> ys | Some y \<Rightarrow> ys @ [y]) ps s g)"
| wr_read_race: "w_read q it w = None \<Longrightarrow> wrx_step n (WrSys (WrReading it q) ks w ys ps s g) WrRace"
| wr_release: "w_release_cons Release c it w = Some (Inr it1, w1) \<Longrightarrow>
    wrx_step n (WrSys (WrReading it q) ks w ys ps s g) (WrSys (WrReleased it1 q) ks w1 [] ps s (g @ ys))"
| wr_abort: "w_drop_cons Release it q = Inr q1 \<Longrightarrow>
    wrx_step n (WrSys (WrReading it q) ks w ys ps s g) (WrSys (WrIdle q1) ks w [] ps s g)"
| wr_close: "w_drop_cons Release it q = Inr q1 \<Longrightarrow>
    wrx_step n (WrSys (WrReleased it q) ks w ys ps s g) (WrSys (WrIdle q1) ks w [] ps s g)"
| wr_k_look: "load_acquire Producing CHead i w = Some (v, w1) \<Longrightarrow>
    wrx_step n (WrSys p ks w ys ps s g) (WrSys p (ks\<lparr>k_cons := v\<rparr>) w1 ys ps s g)"
| wr_k_put: "k_prod ks - k_cons ks < n \<Longrightarrow> write_slot Producing (unat (k_prod ks AND (n - 1))) x w = Some w1 \<Longrightarrow>
    wrx_step n (WrSys p ks w ys ps s g) (WrSys p (ks\<lparr>k_prod := k_prod ks + 1\<rparr>) w1 ys (ps @ [x]) s g)"
| wr_k_race: "k_prod ks - k_cons ks < n \<Longrightarrow> write_slot Producing (unat (k_prod ks AND (n - 1))) x w = None \<Longrightarrow>
    wrx_step n (WrSys p ks w ys ps s g) WrRace"
| wr_k_publish: "wrx_step n (WrSys p ks w ys ps s g)
    (WrSys p ks (store_release Producing PHead (k_prod ks) w) ys [] (s @ ps) g)"

text \<open>The steps in which only user space moves.\<close>

inductive wrx_by_user :: "'a wrx \<Rightarrow> 'a wrx \<Rightarrow> bool" where
  wu_open: "w_cursor_peek Release c c' q k w = Some (Inr (it, q1), w1) \<Longrightarrow>
    wrx_by_user (WrSys (WrIdle q) ks w ys ps s g) (WrSys (WrReading it q1) ks w1 [] ps s g)"
| wu_read: "w_read q it w = Some (r, it1, w1) \<Longrightarrow>
    wrx_by_user (WrSys (WrReading it q) ks w ys ps s g)
      (WrSys (WrReading it1 q) ks w1 (case r of None \<Rightarrow> ys | Some y \<Rightarrow> ys @ [y]) ps s g)"
| wu_release: "w_release_cons Release c it w = Some (Inr it1, w1) \<Longrightarrow>
    wrx_by_user (WrSys (WrReading it q) ks w ys ps s g) (WrSys (WrReleased it1 q) ks w1 [] ps s (g @ ys))"
| wu_abort: "w_drop_cons Release it q = Inr q1 \<Longrightarrow>
    wrx_by_user (WrSys (WrReading it q) ks w ys ps s g) (WrSys (WrIdle q1) ks w [] ps s g)"
| wu_close: "w_drop_cons Release it q = Inr q1 \<Longrightarrow>
    wrx_by_user (WrSys (WrReleased it q) ks w ys ps s g) (WrSys (WrIdle q1) ks w [] ps s g)"

lemma wrx_by_user_step: "wrx_by_user y y' \<Longrightarrow> wrx_step n y y'"
  by (induction rule: wrx_by_user.induct) (blast intro: wr_open wr_read wr_release wr_abort wr_close)+

lemma wrx_by_user_steps: "wrx_by_user\<^sup>*\<^sup>* y y' \<Longrightarrow> (wrx_step n)\<^sup>*\<^sup>* y y'"
  by (induction rule: rtranclp_induct) (auto dest: wrx_by_user_step intro: rtranclp.rtrancl_into_rtrancl)

subsection \<open>The invariant\<close>

text \<open>The consuming side's view of its ring: entries up to \<open>a\<close> are taken, up to \<open>kp\<close> known of.\<close>

definition wcons_ok :: "u32 \<Rightarrow> u32 \<Rightarrow> nat \<Rightarrow> nat \<Rightarrow> XskRing \<Rightarrow> bool" where
  "wcons_ok n p0 a kp i \<longleftrightarrow> ring_mask i = n - 1 \<and> cached_consumer i = p0 + of_nat a \<and>
     cached_producer i = p0 + of_nat kp \<and> a \<le> kp"

fun wrx_phase_ok :: "u32 \<Rightarrow> u32 \<Rightarrow> nat \<Rightarrow> 'a list \<Rightarrow> 'a list \<Rightarrow> nat \<Rightarrow> wrx_phase \<Rightarrow> bool" where
  "wrx_phase_ok n p0 kp ys s lg (WrIdle q) \<longleftrightarrow> wcons_ok n p0 lg kp (cons_inner q)"
| "wrx_phase_ok n p0 kp ys s lg (WrReading it q) \<longleftrightarrow>
     wcons_ok n p0 (lg + unat (it_buffers it)) kp (cons_inner q) \<and>
     unat (it_remain it) + length ys = unat (it_buffers it) \<and>
     (it_buffers it = 0 \<or> it_base it = p0 + of_nat (lg + length ys)) \<and> ys = take (length ys) (drop lg s)"
| "wrx_phase_ok n p0 kp ys s lg (WrReleased it q) \<longleftrightarrow> wcons_ok n p0 (lg + unat (it_buffers it)) kp (cons_inner q)"

text \<open>The kernel's view: it has acquired the consumer head \<open>cc\<close> and filled \<open>ps\<close> behind what it published.\<close>

definition wrx_kernel_ok :: "u32 \<Rightarrow> u32 \<Rightarrow> nat \<Rightarrow> 'a weak \<Rightarrow> pside \<Rightarrow> 'a list \<Rightarrow> nat \<Rightarrow> bool" where
  "wrx_kernel_ok n p0 cc w ks ps ls \<longleftrightarrow> k_prod ks = p0 + of_nat (ls + length ps) \<and> k_cons ks = p0 + of_nat cc \<and>
     ls + length ps \<le> cc + unat n \<and> (\<forall>j<length ps. wk_slot w (slot_of n p0 (ls + j)) = ps ! j)"

definition wrx_inv :: "u32 \<Rightarrow> u32 \<Rightarrow> 'a wrx \<Rightarrow> bool" where
  "wrx_inv n p0 y \<longleftrightarrow> (\<exists>p ks w ys ps s g hp hc cc kp. y = WrSys p ks w ys ps s g \<and>
     weak_inv n p0 hp hc cc kp s w \<and> wrx_phase_ok n p0 kp ys s (length g) p \<and>
     wrx_kernel_ok n p0 cc w ks ps (length s) \<and> last hc = length g \<and> g = take (length g) s)"

lemma wrx_invI:
  "weak_inv n p0 hp hc cc kp s w \<Longrightarrow> wrx_phase_ok n p0 kp ys s (length g) p \<Longrightarrow>
    wrx_kernel_ok n p0 cc w ks ps (length s) \<Longrightarrow> last hc = length g \<Longrightarrow> g = take (length g) s \<Longrightarrow>
    wrx_inv n p0 (WrSys p ks w ys ps s g)"
  unfolding wrx_inv_def by blast

lemma wrx_invE:
  assumes "wrx_inv n p0 (WrSys p ks w ys ps s g)"
  obtains hp hc cc kp where "weak_inv n p0 hp hc cc kp s w" "wrx_phase_ok n p0 kp ys s (length g) p"
    "wrx_kernel_ok n p0 cc w ks ps (length s)" "last hc = length g" "g = take (length g) s"
  using assms unfolding wrx_inv_def by blast

lemma wrx_kernel_ok_slot: "wk_slot w1 = wk_slot w \<Longrightarrow> wrx_kernel_ok n p0 cc w1 ks ps ls = wrx_kernel_ok n p0 cc w ks ps ls"
  by (simp add: wrx_kernel_ok_def)

subsection \<open>Taking entries\<close>

text \<open>The relaxed load says how many entries there are, the acquiring one after it reaches at least as far.\<close>

lemma w_count_available_ok:
  assumes inv: "weak_inv n p0 hp hc cc kp s w" and ok: "wcons_ok n p0 a kp (cons_inner q)"
    and "last hc \<le> a" and run: "w_count_available c c' start q w = Some (count, q1, w1)"
  obtains kp' where "weak_inv n p0 hp hc cc kp' s w1" "wk_slot w1 = wk_slot w"
    "cons_inner q1 = (cons_inner q)\<lparr>cached_producer := p0 + of_nat kp'\<rparr>" "kp \<le> kp'" "unat count \<le> kp' - a"
proof -
  let ?i = "cons_inner q"
  note I = weak_invD[OF inv]
  have i: "cached_consumer ?i = p0 + of_nat a" "cached_producer ?i = p0 + of_nat kp" "a \<le> kp"
    using ok by (auto simp: wcons_ok_def)
  show thesis
  proof (cases "cached_producer ?i - cached_consumer ?i < start")
    case True
    then obtain v w0 v' where l: "load_relaxed Consuming PHead c w = Some (v, w0)"
      "load_acquire Consuming PHead c' w0 = Some (v', w1)"
      and count: "count = v - (p0 + of_nat a)" and q1: "cons_inner q1 = ?i\<lparr>cached_producer := v'\<rparr>"
      using run i by (auto simp: w_count_available_def Let_def split: bind_splits)
    note R = relaxed_prod[OF inv l(1)]
    note A = acquire_prod[OF R(6) l(2)]
    have "sorted hp" using I(3) by (simp add: head_hist_def)
    from sorted_nth_mono[OF this] A(1,5) R(5) have le: "hp ! c \<le> hp ! c'" by simp
    have a: "a \<le> hp ! c" using R(4) i(3) by simp
    have "hp ! c - a \<le> unat n" using le A(4) assms(3) I(9,12) by linarith
    with a have "unat count = hp ! c - a" unfolding count R(2) by (rule unat_wdiff)
    with le have "unat count \<le> hp ! c' - a" by simp
    with that[OF A(6) _ _ A(3)] q1 A(2) l show thesis by (simp add: load_slots)
  next
    case False
    then have "count = p0 + of_nat kp - (p0 + of_nat a)" "q1 = q" "w1 = w"
      using run i by (auto simp: w_count_available_def Let_def)
    moreover have "kp - a \<le> unat n" using assms(3) I(9,11,12) by linarith
    ultimately have "unat count = kp - a" using unat_wdiff[OF i(3), of n p0] by simp
    with that[of kp] inv i \<open>q1 = q\<close> \<open>w1 = w\<close> show thesis by simp
  qed
qed

lemma w_cursor_peek_ok:
  assumes inv: "weak_inv n p0 hp hc cc kp s w" and ok: "wcons_ok n p0 a kp (cons_inner q)"
    and "last hc \<le> a" and run: "w_cursor_peek Release c c' q k w = Some (Inr (it, q1), w1)"
  obtains kp' where "weak_inv n p0 hp hc cc kp' s w1" "wk_slot w1 = wk_slot w"
    "wcons_ok n p0 (a + unat (it_buffers it)) kp' (cons_inner q1)"
    "it_remain it = it_buffers it" "it_buffers it = 0 \<or> it_base it = p0 + of_nat a"
proof -
  obtain count q2 where ca: "w_count_available c c' 1 q w = Some (count, q2, w1)"
    and r: "(if count < 1 then Inr (0, 0, q2) else Inr (min count k, cached_consumer (cons_inner q2),
      q2\<lparr>cons_inner := cons_inner q2\<lparr>cached_consumer := cached_consumer (cons_inner q2) + min count k\<rparr>\<rparr>)) =
      (Inr (it_buffers it, it_base it, q1) :: (u32 \<times> BufIdx \<times> RingCons) res)"
    and rem: "it_remain it = it_buffers it"
    using run by (auto simp: w_cursor_peek_def w_peek_def Let_def res_simps split: bind_splits if_splits)
  from w_count_available_ok[OF inv ok assms(3) ca] obtain kp' where
    *: "weak_inv n p0 hp hc cc kp' s w1" "wk_slot w1 = wk_slot w"
    "cons_inner q2 = (cons_inner q)\<lparr>cached_producer := p0 + of_nat kp'\<rparr>" "kp \<le> kp'" "unat count \<le> kp' - a" .
  have i: "ring_mask (cons_inner q) = n - 1" "cached_consumer (cons_inner q) = p0 + of_nat a" "a \<le> kp"
    using ok by (auto simp: wcons_ok_def)
  have "it_buffers it \<le> count" using r min.cobounded1[of count k] by (auto simp del: min.cobounded1 split: if_splits)
  then have "unat (it_buffers it) \<le> unat count" by (simp add: word_le_nat_alt)
  with *(4,5) i(3) have b: "a + unat (it_buffers it) \<le> kp'" by linarith
  have base: "it_buffers it = 0 \<or> it_base it = p0 + of_nat a"
    and "cons_inner q1 = (cons_inner q)\<lparr>cached_producer := p0 + of_nat kp',
      cached_consumer := p0 + of_nat (a + unat (it_buffers it))\<rparr>"
    using r *(3) i by (auto split: if_splits)
  with b i(1) have "wcons_ok n p0 (a + unat (it_buffers it)) kp' (cons_inner q1)" by (simp add: wcons_ok_def)
  from that[OF *(1,2) this rem base] show thesis .
qed

lemma w_read_ok:
  assumes inv: "weak_inv n p0 hp hc cc kp s w" and ok: "wrx_phase_ok n p0 kp ys s (length g) (WrReading it q)"
    and g: "last hc = length g"
  obtains r it1 w1 where "w_read q it w = Some (r, it1, w1)" "weak_inv n p0 hp hc cc kp s w1" "wk_slot w1 = wk_slot w"
    "wrx_phase_ok n p0 kp (case r of None \<Rightarrow> ys | Some y \<Rightarrow> ys @ [y]) s (length g) (WrReading it1 q)"
proof (cases "it_remain it = 0")
  case True
  then have "w_read q it w = Some (None, it, w)" by (simp add: w_read_def)
  from that[OF this inv refl] ok show thesis by simp
next
  case False
  let ?q = "length g + length ys" and ?it = "it\<lparr>it_remain := it_remain it - 1, it_base := it_base it + 1\<rparr>"
  have pos: "0 < unat (it_remain it)" using False by (simp add: unat_gt_0)
  have rem: "unat (it_remain it) + length ys = unat (it_buffers it)" using ok by simp
  with pos have "it_buffers it \<noteq> 0" by auto
  with ok have base: "it_base it = p0 + of_nat ?q" by simp
  have mask: "ring_mask (cons_inner q) = n - 1" and kp: "length g + unat (it_buffers it) \<le> kp"
    using ok by (auto simp: wcons_ok_def)
  have q: "last hc \<le> ?q" "?q < kp" using rem pos kp g by linarith+
  from read_sent_slot[OF inv q] obtain w1 where
    w1: "read_slot Consuming (slot_of n p0 ?q) w = Some (s ! ?q, w1)" "weak_inv n p0 hp hc cc kp s w1"
    "wk_slot w1 = wk_slot w" by blast
  have run: "w_read q it w = Some (Some (s ! ?q), ?it, w1)"
    using False w1(1) base mask by (simp add: w_read_def slot_of_def)
  have "length ys < length (drop (length g) s)" using q(2) weak_invD(11,19)[OF inv] by simp
  then have "take (Suc (length ys)) (drop (length g) s) = take (length ys) (drop (length g) s) @ [s ! ?q]"
    by (simp add: take_Suc_conv_app_nth add.commute)
  moreover have "ys = take (length ys) (drop (length g) s)" using ok by simp
  ultimately have "take (Suc (length ys)) (drop (length g) s) = ys @ [s ! ?q]" by (simp only:)
  then have "wrx_phase_ok n p0 kp (ys @ [s ! ?q]) s (length g) (WrReading ?it q)"
    using ok rem pos base unat_pred[OF False] by (simp add: add.assoc)
  with that[OF run w1(2,3)] show thesis by simp
qed

lemma w_release_ok:
  assumes inv: "weak_inv n p0 hp hc cc kp s w" and ok: "wrx_phase_ok n p0 kp ys s (length g) (WrReading it q)"
    and g: "last hc = length g" "g = take (length g) s" and run: "w_release_cons Release c it w = Some (Inr it1, w1)"
  obtains hc' where "weak_inv n p0 hp hc' cc kp s w1" "wk_slot w1 = wk_slot w" "last hc' = length (g @ ys)"
    "g @ ys = take (length (g @ ys)) s" "wrx_phase_ok n p0 kp [] s (length (g @ ys)) (WrReleased it1 q)"
proof -
  have rem: "unat (it_remain it) + length ys = unat (it_buffers it)" using ok by simp
  have kp: "length g + unat (it_buffers it) \<le> kp" and wc: "wcons_ok n p0 (length g + unat (it_buffers it)) kp (cons_inner q)"
    using ok by (auto simp: wcons_ok_def)
  have "ys = take (length ys) (drop (length g) s)" using ok by simp
  then have gs: "g @ ys = take (length (g @ ys)) s" using g(2) by (metis length_append take_add)
  show thesis
  proof (cases "it_buffers it = 0")
    case True
    then have "ys = []" "it1 = it" "w1 = w" using rem run by (auto simp: w_release_cons_def)
    with that[of hc] inv g gs wc show thesis by simp
  next
    case False
    let ?n = "it_buffers it - it_remain it"
    have "it_remain it \<le> it_buffers it" using rem by (simp add: word_le_nat_alt)
    with rem have n: "unat ?n = length ys" by (simp add: unat_sub)
    then have nw: "?n = of_nat (length ys)" unfolding n[symmetric] by simp
    from False run obtain v w0 where load: "load_relaxed Consuming CHead c w = Some (v, w0)"
      and w1: "w1 = store_release Consuming CHead (v + ?n) w0"
      and it1: "it1 = it\<lparr>it_buffers := it_remain it, it_base := it_base it + ?n\<rparr>"
      by (auto simp: w_release_cons_def w_release_def word_neq_0_conv[symmetric] split: bind_splits)
    note R = relaxed_cons[OF inv load]
    have v: "v + ?n = p0 + of_nat (length (g @ ys))" using R(2,3) nw g(1) by simp
    have A: "weak_inv n p0 hp (hc @ [length (g @ ys)]) cc kp s w1"
      unfolding w1 v by (rule give_back[OF R(5)]) (use g(1) rem kp in simp_all)
    have B: "wk_slot w1 = wk_slot w" using load_slots(2)[OF load] by (simp add: w1 store_release_def)
    have e: "length (g @ ys) + unat (it_remain it) = length g + unat (it_buffers it)" using rem by simp
    have "wcons_ok n p0 (length (g @ ys) + unat (it_remain it)) kp (cons_inner q)" unfolding e by (rule wc)
    then have D: "wrx_phase_ok n p0 kp [] s (length (g @ ys)) (WrReleased it1 q)" by (simp add: it1)
    show thesis by (rule that[OF A B _ gs D]) simp
  qed
qed

lemma w_drop_cons_ok:
  assumes "wcons_ok n p0 (a + unat (it_buffers it)) kp (cons_inner q)" and "w_drop_cons Release it q = Inr q1"
  shows "wcons_ok n p0 a kp (cons_inner q1)"
  using assms by (force simp: w_drop_cons_def RingCons_cancel_def wcons_ok_def split: if_splits)

subsection \<open>The kernel's steps\<close>

lemma w_put_ok:
  assumes inv: "weak_inv n p0 hp hc cc kp s w" and k: "wrx_kernel_ok n p0 cc w ks ps (length s)"
    and room: "k_prod ks - k_cons ks < n"
  obtains w1 where "write_slot Producing (unat (k_prod ks AND (n - 1))) x w = Some w1"
    "weak_inv n p0 hp hc cc kp s w1" "wrx_kernel_ok n p0 cc w1 (ks\<lparr>k_prod := k_prod ks + 1\<rparr>) (ps @ [x]) (length s)"
proof -
  let ?q = "length s + length ps"
  note I = weak_invD[OF inv]
  have "cc \<le> ?q" "?q - cc \<le> unat n" using k I(9-11,19) by (auto simp: wrx_kernel_ok_def)
  from unat_wdiff[OF this] have "unat (k_prod ks - k_cons ks) = ?q - cc" using k by (simp add: wrx_kernel_ok_def)
  with room have q: "last hp \<le> ?q" "?q < cc + unat n" using I(19) \<open>cc \<le> ?q\<close> by (simp_all add: word_less_nat_alt)
  from write_free_slot[OF inv q, of x] obtain w1 where
    w1: "write_slot Producing (slot_of n p0 ?q) x w = Some w1" "weak_inv n p0 hp hc cc kp s w1"
    "wk_slot w1 = (wk_slot w)(slot_of n p0 ?q := x)" by blast
  have other: "slot_of n p0 (length s + j) \<noteq> slot_of n p0 ?q" if "j < length ps" for j
    by (rule slot_of_neq[OF I(1)]) (use that q I(9-11,19) in linarith)+
  have "slot_of n p0 ?q = unat (k_prod ks AND (n - 1))" using k by (simp add: slot_of_def wrx_kernel_ok_def)
  moreover have "wrx_kernel_ok n p0 cc w1 (ks\<lparr>k_prod := k_prod ks + 1\<rparr>) (ps @ [x]) (length s)"
    using k q(2) other by (auto simp: wrx_kernel_ok_def w1(3) nth_append less_Suc_eq)
  ultimately show thesis using that w1 by simp
qed

lemma w_publish_ok:
  assumes inv: "weak_inv n p0 hp hc cc kp s w" and k: "wrx_kernel_ok n p0 cc w ks ps (length s)"
  shows "weak_inv n p0 (hp @ [length (s @ ps)]) hc cc kp (s @ ps) (store_release Producing PHead (k_prod ks) w)"
    and "wrx_kernel_ok n p0 cc (store_release Producing PHead (k_prod ks) w) ks [] (length (s @ ps))"
proof -
  have e: "k_prod ks = p0 + of_nat (length (s @ ps))" and "length (s @ ps) \<le> cc + unat n" using k by (auto simp: wrx_kernel_ok_def)
  with k weak_invD(19)[OF inv] show "weak_inv n p0 (hp @ [length (s @ ps)]) hc cc kp (s @ ps) (store_release Producing PHead (k_prod ks) w)"
    unfolding e by (intro publish[OF inv]) (auto simp: wrx_kernel_ok_def)
  show "wrx_kernel_ok n p0 cc (store_release Producing PHead (k_prod ks) w) ks [] (length (s @ ps))"
    using k by (simp add: wrx_kernel_ok_def)
qed

lemma wrx_phase_ok_grow:
  assumes "weak_inv n p0 hp hc cc kp s w" and "wrx_phase_ok n p0 kp ys s lg p"
  shows "wrx_phase_ok n p0 kp ys (s @ ps) lg p"
proof (cases p)
  case (WrReading it q)
  then have "lg + unat (it_buffers it) \<le> kp" "length ys \<le> unat (it_buffers it)" using assms(2) by (auto simp: wcons_ok_def)
  then have "lg + length ys \<le> length s" using weak_invD(11,19)[OF assms(1)] by linarith
  with WrReading assms(2) show ?thesis by simp
qed (use assms(2) in simp_all)

subsection \<open>Every step\<close>

lemma wrx_step_ok:
  assumes "wrx_step n y y'" and "wrx_inv n p0 y"
  shows "wrx_inv n p0 y'"
  using assms
proof (induction rule: wrx_step.induct)
  case (wr_open c c' q k w it q1 w1 ks ys ps s g)
  from wr_open(2) obtain hp hc cc kp where *: "weak_inv n p0 hp hc cc kp s w" "wcons_ok n p0 (length g) kp (cons_inner q)"
    and k: "wrx_kernel_ok n p0 cc w ks ps (length s)" and g: "last hc = length g" "g = take (length g) s"
    by (auto elim: wrx_invE)
  have "last hc \<le> length g" using g(1) by simp
  from w_cursor_peek_ok[OF * this wr_open(1)] obtain kp' where inv: "weak_inv n p0 hp hc cc kp' s w1"
    and slot: "wk_slot w1 = wk_slot w" and "wcons_ok n p0 (length g + unat (it_buffers it)) kp' (cons_inner q1)"
    "it_remain it = it_buffers it" "it_buffers it = 0 \<or> it_base it = p0 + of_nat (length g)" .
  then have "wrx_phase_ok n p0 kp' [] s (length g) (WrReading it q1)" by simp
  from wrx_invI[OF inv this iffD2[OF wrx_kernel_ok_slot[OF slot] k] g] show ?case .
next
  case (wr_read q it w r it1 w1 ks ys ps s g)
  from wr_read(2) obtain hp hc cc kp where *: "weak_inv n p0 hp hc cc kp s w"
    "wrx_phase_ok n p0 kp ys s (length g) (WrReading it q)" and k: "wrx_kernel_ok n p0 cc w ks ps (length s)"
    and g: "last hc = length g" "g = take (length g) s" by (rule wrx_invE)
  obtain r' it' w' where run: "w_read q it w = Some (r', it', w')" and inv: "weak_inv n p0 hp hc cc kp s w'"
    and slot: "wk_slot w' = wk_slot w"
    and ok: "wrx_phase_ok n p0 kp (case r' of None \<Rightarrow> ys | Some y \<Rightarrow> ys @ [y]) s (length g) (WrReading it' q)"
    by (rule w_read_ok[OF * g(1)])
  from run wr_read(1) have "r' = r" "it' = it1" "w' = w1" by simp_all
  with wrx_invI[OF inv ok iffD2[OF wrx_kernel_ok_slot[OF slot] k] g] show ?case by (simp only:)
next
  case (wr_read_race q it w ks ys ps s g)
  from wr_read_race(2) obtain hp hc cc kp where *: "weak_inv n p0 hp hc cc kp s w"
    "wrx_phase_ok n p0 kp ys s (length g) (WrReading it q)" "last hc = length g" by (rule wrx_invE)
  show ?case by (rule w_read_ok[OF *]) (use wr_read_race(1) in simp)
next
  case (wr_release c it w it1 w1 q ks ys ps s g)
  from wr_release(2) obtain hp hc cc kp where *: "weak_inv n p0 hp hc cc kp s w"
    "wrx_phase_ok n p0 kp ys s (length g) (WrReading it q)" and k: "wrx_kernel_ok n p0 cc w ks ps (length s)"
    and g: "last hc = length g" "g = take (length g) s" by (rule wrx_invE)
  obtain hc' where inv: "weak_inv n p0 hp hc' cc kp s w1" and slot: "wk_slot w1 = wk_slot w"
    and g': "last hc' = length (g @ ys)" "g @ ys = take (length (g @ ys)) s"
    and ok: "wrx_phase_ok n p0 kp [] s (length (g @ ys)) (WrReleased it1 q)"
    by (rule w_release_ok[OF * g wr_release(1)])
  show ?case by (rule wrx_invI[OF inv ok iffD2[OF wrx_kernel_ok_slot[OF slot] k] g'])
next
  case (wr_abort it q q1 ks w ys ps s g)
  from wr_abort(2) obtain hp hc cc kp where *: "weak_inv n p0 hp hc cc kp s w"
    and q: "wcons_ok n p0 (length g + unat (it_buffers it)) kp (cons_inner q)" and k: "wrx_kernel_ok n p0 cc w ks ps (length s)"
    and g: "last hc = length g" "g = take (length g) s" by (auto elim!: wrx_invE)
  have "wrx_phase_ok n p0 kp [] s (length g) (WrIdle q1)" using w_drop_cons_ok[OF q wr_abort(1)] by simp
  from wrx_invI[OF * this k g] show ?case .
next
  case (wr_close it q q1 ks w ys ps s g)
  from wr_close(2) obtain hp hc cc kp where *: "weak_inv n p0 hp hc cc kp s w"
    and q: "wcons_ok n p0 (length g + unat (it_buffers it)) kp (cons_inner q)" and k: "wrx_kernel_ok n p0 cc w ks ps (length s)"
    and g: "last hc = length g" "g = take (length g) s" by (auto elim!: wrx_invE)
  have "wrx_phase_ok n p0 kp [] s (length g) (WrIdle q1)" using w_drop_cons_ok[OF q wr_close(1)] by simp
  from wrx_invI[OF * this k g] show ?case .
next
  case (wr_k_look i w v w1 p ks ys ps s g)
  from wr_k_look(2) obtain hp hc cc kp where *: "weak_inv n p0 hp hc cc kp s w" "wrx_phase_ok n p0 kp ys s (length g) p"
    and k: "wrx_kernel_ok n p0 cc w ks ps (length s)" and g: "last hc = length g" "g = take (length g) s"
    by (rule wrx_invE)
  note A = acquire_cons[OF *(1) wr_k_look(1)]
  have "wrx_kernel_ok n p0 (hc ! i) w1 (ks\<lparr>k_cons := v\<rparr>) ps (length s)"
    using k A(2,3) load_slots(1)[OF wr_k_look(1)] by (simp add: wrx_kernel_ok_def)
  from wrx_invI[OF A(5) *(2) this g] show ?case .
next
  case (wr_k_put ks x w w1 p ys ps s g)
  from wr_k_put(3) obtain hp hc cc kp where *: "weak_inv n p0 hp hc cc kp s w" "wrx_phase_ok n p0 kp ys s (length g) p"
    and k: "wrx_kernel_ok n p0 cc w ks ps (length s)" and g: "last hc = length g" "g = take (length g) s"
    by (rule wrx_invE)
  obtain w' where run: "write_slot Producing (unat (k_prod ks AND (n - 1))) x w = Some w'"
    and inv: "weak_inv n p0 hp hc cc kp s w'"
    and k': "wrx_kernel_ok n p0 cc w' (ks\<lparr>k_prod := k_prod ks + 1\<rparr>) (ps @ [x]) (length s)"
    by (rule w_put_ok[OF *(1) k wr_k_put(1)])
  from wrx_invI[OF inv *(2) k' g] run wr_k_put(2) show ?case by simp
next
  case (wr_k_race ks x w p ys ps s g)
  from wr_k_race(3) obtain hp hc cc kp where *: "weak_inv n p0 hp hc cc kp s w" "wrx_kernel_ok n p0 cc w ks ps (length s)"
    by (rule wrx_invE)
  show ?case by (rule w_put_ok[OF * wr_k_race(1), of x]) (use wr_k_race(2) in simp)
next
  case (wr_k_publish p ks w ys ps s g)
  from wr_k_publish obtain hp hc cc kp where *: "weak_inv n p0 hp hc cc kp s w" "wrx_phase_ok n p0 kp ys s (length g) p"
    and k: "wrx_kernel_ok n p0 cc w ks ps (length s)" and g: "last hc = length g" "g = take (length g) s"
    by (rule wrx_invE)
  have "length g \<le> length s" using g(1) weak_invD(10,11,19)[OF *(1)] by linarith
  with g(2) have "g = take (length g) (s @ ps)" by simp
  from wrx_invI[OF w_publish_ok(1)[OF *(1) k] wrx_phase_ok_grow[OF *] w_publish_ok(2)[OF *(1) k] g(1) this] show ?case .
qed

subsection \<open>From a mapped ring on\<close>

definition wrx_start :: "u32 \<Rightarrow> RingCons \<Rightarrow> 'a weak \<Rightarrow> 'a wrx" where
  "wrx_start p0 q w = WrSys (WrIdle q) \<lparr>k_prod = p0, k_cons = p0\<rparr> w [] [] [] []"

lemma wrx_steps_ok: "(wrx_step n)\<^sup>*\<^sup>* y y' \<Longrightarrow> wrx_inv n p0 y \<Longrightarrow> wrx_inv n p0 y'"
  by (induction rule: rtranclp_induct) (blast intro: wrx_step_ok)+

lemma wrx_start_ok:
  assumes "is_power_of_two n" and "w_ring_new Release Consuming c c' tx_map off n (w_start p0 f) = Some (Inr (cons_inner q), w)"
  shows "wrx_inv n p0 (wrx_start p0 q w)"
  using w_ring_new_start[OF assms] unfolding wrx_start_def
  by (intro wrx_invI) (auto simp: wcons_ok_def wrx_kernel_ok_def)

lemma sample_wrx_new: "w_ring_new Release Consuming 0 0 4096 weak_offsets 2 (w_start 0 (\<lambda>_. 0 :: nat)) = Some (Inr weak_ring, w_start 0 (\<lambda>_. 0))"
  by (simp add: weak_eval weak_ring_def fun_eq_iff)

text \<open>The kernel fills a slot and publishes it, a reader takes it.\<close>

lemma sample_wrx_run:
  "\<exists>y. (wrx_step 2)\<^sup>*\<^sup>* (wrx_start 0 \<lparr>cons_inner = weak_ring, cons_mmap_addr = (0, 0)\<rparr>
      (w_start 0 (\<lambda>_. 0 :: nat))) y \<and> wr_got y = [7]"
  unfolding wrx_start_def
  apply (rule exI, rule conjI)
   apply (rule converse_rtranclp_into_rtranclp, rule wr_k_put[where x = 7])
     apply simp
    apply (simp add: weak_eval)
   apply (rule converse_rtranclp_into_rtranclp, rule wr_k_publish)
   apply (rule converse_rtranclp_into_rtranclp, rule wr_open[where c = 1 and c' = 1 and k = 2])
    apply (simp add: weak_eval w_cursor_peek_def w_peek_def w_count_available_def weak_ring_def)
   apply (rule converse_rtranclp_into_rtranclp, rule wr_read)
    apply (simp add: weak_eval w_read_def)
   apply (rule converse_rtranclp_into_rtranclp, rule wr_release[where c = 0])
    apply (simp add: weak_eval w_release_cons_def w_release_def)
   apply (rule rtranclp.rtrancl_refl)
  apply simp
  done



subsection \<open>The advisory counts\<close>

lemma w_prod_count_ok:
  assumes inv: "weak_inv n p0 hp hc cc kp s w" and "last hc \<le> g" and run: "w_prod_count_pending c c' w = Some (k, w')"
  shows "length s - g \<le> unat k \<and> unat k \<le> unat n"
proof -
  from run obtain p q w1 where l: "load_relaxed Producing PHead c w = Some (p, w1)"
    "load_relaxed Producing CHead c' w1 = Some (q, w')" and k: "k = p - q"
    by (auto simp: w_prod_count_pending_def split: bind_splits)
  note P = relaxed_prod[OF inv l(1)]
  note C = relaxed_cons[OF P(6) l(2)]
  note I = weak_invD[OF inv]
  have p: "p = p0 + of_nat (length s)" using P(2,3) I(19) by simp
  have "hc ! c' \<le> last hc" "cc \<le> hc ! c'" using head_hist_le_last[OF I(4) C(1)] C(4) by simp_all
  moreover from this have le: "hc ! c' \<le> length s" "length s - hc ! c' \<le> unat n" using I(10-12,19) by linarith+
  moreover have "unat k = length s - hc ! c'" unfolding k p C(2) by (rule unat_wdiff[OF le])
  ultimately show ?thesis using assms(2) by linarith
qed

lemma w_cons_count_ok:
  assumes inv: "weak_inv n p0 hp hc cc kp s w" and "last hc = g" and run: "w_cons_count_pending c c' w = Some (k, w')"
  shows "unat k \<le> length s - g \<and> unat k \<le> unat n"
proof -
  from run obtain p q w1 where l: "load_relaxed Consuming PHead c w = Some (p, w1)"
    "load_relaxed Consuming CHead c' w1 = Some (q, w')" and k: "k = p - q"
    by (auto simp: w_cons_count_pending_def split: bind_splits)
  note P = relaxed_prod[OF inv l(1)]
  note C = relaxed_cons[OF P(6) l(2)]
  note I = weak_invD[OF inv]
  have q: "q = p0 + of_nat g" using C(2,3) assms(2) by simp
  have h: "hp ! c \<le> last hp" "kp \<le> hp ! c" using head_hist_le_last[OF I(3) P(1)] P(4) by simp_all
  then have le: "g \<le> hp ! c" "hp ! c - g \<le> unat n" using I(9,10,12) assms(2) by linarith+
  have "unat k = hp ! c - g" unfolding k P(2) q by (rule unat_wdiff[OF le])
  with h(1) le(2) I(19) show ?thesis by simp
qed

text \<open>The kernel publishes an entry.\<close>

lemma sample_wrx_published:
  "\<exists>p ks u u1. (wrx_step 2)\<^sup>*\<^sup>* (wrx_start 0 \<lparr>cons_inner = weak_ring, cons_mmap_addr = (0, 0)\<rparr>
      (w_start 0 (\<lambda>_. 0 :: nat))) (WrSys p ks u [] [] [7] []) \<and> w_cons_count_pending 1 0 u = Some (1, u1)"
  unfolding wrx_start_def
  apply ((rule exI)+, rule conjI)
   apply (rule converse_rtranclp_into_rtranclp, rule wr_k_put[where x = 7])
     apply simp
    apply (simp add: weak_eval)
   apply (rule converse_rtranclp_into_rtranclp, rule wr_k_publish)
   apply (simp only: append_Nil)
   apply (rule rtranclp.rtrancl_refl)
  apply (simp add: weak_eval w_cons_count_pending_def)
  done

text \<open>
  C29. The counts that \<open>pending\<close> and \<open>available\<close> give from relaxed loads err on the safe side.  Between
  any two calls, \<open>pending\<close> of a producer ring is at least what the kernel has not taken yet, and \<open>available\<close> of a
  consumer ring at most what it can hand out; neither wraps around or exceeds the ring's size.
\<close>

theorem weak_counts_bound:
  assumes "is_power_of_two n"
    and "w_ring_new Release Producing a a' tx_map off n (w_start p0 f) = Some (Inr (prod_inner q), w)"
    and "(wtx_step n)\<^sup>*\<^sup>* (wtx_start p0 q w) (WtSys p ks w1 xs s g)"
    and "w_prod_count_pending c c' w1 = Some (k, w1')"
    and "w_ring_new Release Consuming b b' tx_map' off' n (w_start p0 f) = Some (Inr (cons_inner r), u)"
    and "(wrx_step n)\<^sup>*\<^sup>* (wrx_start p0 r u) (WrSys p' ks' u1 ys ps s' g')"
    and "w_cons_count_pending d d' u1 = Some (k', u1')"
  shows "length s - length g \<le> unat k \<and> unat k \<le> unat n \<and>
    unat k' \<le> length s' - length g' \<and> unat k' \<le> unat n"
proof -
  from wtx_steps_ok[OF assms(3) wtx_start_ok[OF assms(1,2)]] obtain hp hc cc kp where
    "weak_inv n p0 hp hc cc kp s w1" "last hc \<le> length g" by (auto elim!: wtx_invE simp: wtx_kernel_ok_def)
  from w_prod_count_ok[OF this assms(4)] have "length s - length g \<le> unat k \<and> unat k \<le> unat n" .
  moreover from wrx_steps_ok[OF assms(6) wrx_start_ok[OF assms(1,5)]] obtain hp hc cc kp where
    "weak_inv n p0 hp hc cc kp s' u1" "last hc = length g'" by (rule wrx_invE)
  from w_cons_count_ok[OF this assms(7)] have "unat k' \<le> length s' - length g' \<and> unat k' \<le> unat n" .
  ultimately show ?thesis by simp
qed

theorem weak_counts_bound_witness:
  "\<exists>(u :: nat weak) u1 (v :: nat weak) v1. w_prod_count_pending 1 0 u = Some (1, u1) \<and> w_cons_count_pending 1 0 v = Some (1, v1) \<and>
    length [7 :: nat] - length ([] :: nat list) \<le> unat (1 :: u32) \<and> unat (1 :: u32) \<le> unat (2 :: u32) \<and>
    unat (1 :: u32) \<le> length [7 :: nat] - length ([] :: nat list) \<and> unat (1 :: u32) \<le> unat (2 :: u32)"
proof -
  let ?q = "\<lparr>prod_inner = weak_ring, prod_mmap_addr = (0, 0)\<rparr>" and ?r = "\<lparr>cons_inner = weak_ring, cons_mmap_addr = (0, 0)\<rparr>"
    and ?w = "w_start 0 (\<lambda>_. 0 :: nat)"
  have n: "is_power_of_two 2" by (simp add: is_power_of_two_def upt_rec)
  have tx: "w_ring_new Release Producing 0 0 4096 weak_offsets 2 ?w = Some (Inr (prod_inner ?q), ?w)" using sample_wtx_new by simp
  have rx: "w_ring_new Release Consuming 0 0 4096 weak_offsets 2 ?w = Some (Inr (cons_inner ?r), ?w)" using sample_wrx_new by simp
  obtain p ks u u1 where y: "(wtx_step 2)\<^sup>*\<^sup>* (wtx_start 0 ?q ?w) (WtSys p ks u [] [7] [])" "w_prod_count_pending 1 0 u = Some (1, u1)"
    using sample_wtx_committed by blast
  obtain p' ks' v v1 where z: "(wrx_step 2)\<^sup>*\<^sup>* (wrx_start 0 ?r ?w) (WrSys p' ks' v [] [] [7] [])" "w_cons_count_pending 1 0 v = Some (1, v1)"
    using sample_wrx_published by blast
  from conjI[OF y(2) conjI[OF z(2) weak_counts_bound[OF n tx y rx z]]] show ?thesis by (intro exI)
qed

subsection \<open>Nothing is lost\<close>

text \<open>User space alone can always go on: close what is open, and take one entry after the other.\<close>

lemma w_drop_cons_total: "\<exists>q1. w_drop_cons Release it q = Inr q1"
  by (simp add: w_drop_cons_def RingCons_cancel_def Let_def)

lemma wrx_to_idle: "\<exists>q ys1. wrx_by_user\<^sup>*\<^sup>* (WrSys p ks w ys ps s g) (WrSys (WrIdle q) ks w ys1 ps s g)"
proof (cases p)
  case (WrReading it q)
  then show ?thesis using w_drop_cons_total wu_abort by blast
next
  case (WrReleased it q)
  then show ?thesis using w_drop_cons_total wu_close by blast
qed blast

lemma load_latest:
  assumes "views_ok w"
  shows "\<exists>w1. load_relaxed t l (length (wk_hist w l) - 1) w = Some (fst (last (wk_hist w l)), w1) \<and> wk_hist w1 = wk_hist w"
    and "\<exists>w1. load_acquire t l (length (wk_hist w l) - 1) w = Some (fst (last (wk_hist w l)), w1)"
proof -
  have own: "wk_view w t (Head l) < length (wk_hist w l)" by (rule views_ok_own[OF assms])
  then have "wk_hist w l \<noteq> []" by auto
  then have "wk_hist w l ! (length (wk_hist w l) - 1) = last (wk_hist w l)" by (simp add: last_conv_nth)
  moreover have "wk_view w t (Head l) \<le> length (wk_hist w l) - 1" "length (wk_hist w l) - 1 < length (wk_hist w l)"
    using own by linarith+
  ultimately show "\<exists>w1. load_relaxed t l (length (wk_hist w l) - 1) w = Some (fst (last (wk_hist w l)), w1) \<and> wk_hist w1 = wk_hist w"
    and "\<exists>w1. load_acquire t l (length (wk_hist w l) - 1) w = Some (fst (last (wk_hist w l)), w1)"
    by (simp_all add: load_relaxed_def load_acquire_def)
qed

lemma w_open_some:
  assumes inv: "weak_inv n p0 hp hc cc kp s w" and ok: "wcons_ok n p0 a kp (cons_inner q)" and a: "last hc \<le> a" "a < length s"
  shows "\<exists>c c' it q1 w1. w_cursor_peek Release c c' q 1 w = Some (Inr (it, q1), w1) \<and> it_buffers it = 1"
proof -
  note I = weak_invD[OF inv]
  let ?c = "length (wk_hist w PHead) - 1" and ?i = "cons_inner q"
  have i: "cached_consumer ?i = p0 + of_nat a" "cached_producer ?i = p0 + of_nat kp" "a \<le> kp"
    using ok by (auto simp: wcons_ok_def)
  obtain v w0 where l: "load_relaxed Consuming PHead ?c w = Some (v, w0)" "wk_hist w0 = wk_hist w" and v: "v = fst (last (wk_hist w PHead))"
    using load_latest(1)[OF I(2)] by blast
  note R = relaxed_prod[OF inv l(1)]
  from load_latest(2)[OF weak_invD(2)[OF R(6)]] l(2) obtain v' w1 where l': "load_acquire Consuming PHead ?c w0 = Some (v', w1)"
    by metis
  have "map fst (wk_hist w PHead) \<noteq> []" "last (map fst (wk_hist w PHead)) = p0 + of_nat (last hp)"
    using I(3) by (auto simp: head_hist_def last_map)
  then have "v = p0 + of_nat (length s)" using v I(19) by (simp add: last_map)
  moreover have "length s - a \<le> unat n" using a(1) I(9,12,19) by linarith
  ultimately have "unat (v - cached_consumer ?i) = length s - a" using a(2) i(1) unat_wdiff[of a "length s" n p0] by simp
  with a(2) have fresh: "1 \<le> v - cached_consumer ?i" by (simp add: word_le_nat_alt)
  have "min x 1 = 1" if "x \<noteq> 0" for x :: u32
    by (rule min_absorb2) (use that in \<open>simp add: word_le_nat_alt unat_gt_0 Suc_le_eq\<close>)
  with fresh l l' show ?thesis
    by (intro exI[of _ ?c]) (auto simp: w_cursor_peek_def w_peek_def w_count_available_def Let_def not_less)
qed

lemma w_release_total:
  assumes "views_ok w"
  shows "\<exists>c it1 w1. w_release_cons Release c it w = Some (Inr it1, w1)"
proof -
  obtain v w1 where "load_relaxed Consuming CHead (length (wk_hist w CHead) - 1) w = Some (v, w1)"
    using load_latest(1)[OF assms] by blast
  then show ?thesis
    by (intro exI[of _ "length (wk_hist w CHead) - 1"]) (simp add: w_release_cons_def w_release_def)
qed

text \<open>One entry: open a proxy of length one, read, release and close it.\<close>

lemma wrx_take_one:
  assumes inv: "wrx_inv n p0 (WrSys (WrIdle q) ks w ys ps s g)" and less: "length g < length s"
  shows "\<exists>q' w' y. wrx_by_user\<^sup>*\<^sup>* (WrSys (WrIdle q) ks w ys ps s g) (WrSys (WrIdle q') ks w' [] ps s (g @ [y]))"
proof -
  from inv obtain hp hc cc kp where w: "weak_inv n p0 hp hc cc kp s w" "wcons_ok n p0 (length g) kp (cons_inner q)"
    "last hc = length g" by (auto elim: wrx_invE)
  from w_open_some[OF w(1,2) _ less] w(3) obtain c c' it q1 w1 where
    "w_cursor_peek Release c c' q 1 w = Some (Inr (it, q1), w1)" and one: "it_buffers it = 1" by auto
  then have open1: "wrx_by_user (WrSys (WrIdle q) ks w ys ps s g) (WrSys (WrReading it q1) ks w1 [] ps s g)" by (blast intro: wu_open)
  from wrx_step_ok[OF wrx_by_user_step[OF open1] inv] obtain hp1 hc1 cc1 kp1 where w1: "weak_inv n p0 hp1 hc1 cc1 kp1 s w1"
    "wrx_phase_ok n p0 kp1 [] s (length g) (WrReading it q1)" "last hc1 = length g" by (rule wrx_invE)
  obtain r it2 w2 where read: "w_read q1 it w1 = Some (r, it2, w2)" and w2: "weak_inv n p0 hp1 hc1 cc1 kp1 s w2"
    by (rule w_read_ok[OF w1])
  have "it_remain it \<noteq> 0" using w1(2) one by auto
  with read obtain y where y: "r = Some y" by (auto simp: w_read_def split: option.splits)
  from wu_read[OF read, of ks "[]" ps s g] y
  have read1: "wrx_by_user (WrSys (WrReading it q1) ks w1 [] ps s g) (WrSys (WrReading it2 q1) ks w2 [y] ps s g)" by simp
  from w_release_total[OF weak_invD(2)[OF w2], of it2] obtain it3 w3 where
    "wrx_by_user (WrSys (WrReading it2 q1) ks w2 [y] ps s g) (WrSys (WrReleased it3 q1) ks w3 [] ps s (g @ [y]))"
    by (blast intro: wu_release)
  moreover obtain q4 where "wrx_by_user (WrSys (WrReleased it3 q1) ks w3 [] ps s (g @ [y])) (WrSys (WrIdle q4) ks w3 [] ps s (g @ [y]))"
    using w_drop_cons_total wu_close by blast
  ultimately show ?thesis using open1 read1 by (meson converse_rtranclp_into_rtranclp rtranclp.rtrancl_refl)
qed

lemma wrx_take_all:
  assumes "wrx_inv n p0 (WrSys (WrIdle q) ks w ys ps s g)"
  shows "\<exists>q' w' ys'. wrx_by_user\<^sup>*\<^sup>* (WrSys (WrIdle q) ks w ys ps s g) (WrSys (WrIdle q') ks w' ys' ps s s)"
  using assms
proof (induction "length s - length g" arbitrary: q w ys g)
  case 0
  from 0(2) have "g = take (length g) s" by (rule wrx_invE)
  with 0(1) have "g = s" by simp
  then show ?case by blast
next
  case (Suc d)
  then have "length g < length s" by simp
  from wrx_take_one[OF Suc.prems this] obtain q' w' y where
    steps: "wrx_by_user\<^sup>*\<^sup>* (WrSys (WrIdle q) ks w ys ps s g) (WrSys (WrIdle q') ks w' [] ps s (g @ [y]))" by blast
  have "d = length s - length (g @ [y])" using Suc.hyps(2) by simp
  from Suc.hyps(1)[OF this wrx_steps_ok[OF wrx_by_user_steps[OF steps] Suc.prems]] steps show ?case by (meson rtranclp_trans)
qed



subsection \<open>Mapping a ring the kernel has already filled\<close>

text \<open>
  \<open>XskRing::new\<close> loads both heads relaxed and the reader trusts the cached producer head it finds: with entries already
  in the ring it never performs the acquiring load for them.  Here the kernel fills \<open>x\<close>, publishes it, user space maps
  the ring and takes the entry.
\<close>

definition late_map :: "profile \<Rightarrow> u64 \<Rightarrow> XdpRingOffsets \<Rightarrow> u32 \<Rightarrow> u32 \<Rightarrow> 'a \<Rightarrow> (nat \<Rightarrow> 'a) \<Rightarrow> (BufIdxIter \<times> RingCons \<times> 'a weak) option" where
  "late_map pf tx_map off n p0 x f =
     Option.bind (write_slot Producing (unat (p0 AND (n - 1))) x (w_start p0 f)) (\<lambda>w0.
     case w_ring_new pf Consuming 1 0 tx_map off n (store_release Producing PHead (p0 + 1) w0) of
       Some (Inr i, w1) \<Rightarrow>
         (case w_cursor_peek pf 1 1 \<lparr>cons_inner = i, cons_mmap_addr = (0, 0)\<rparr> n w1 of
            Some (Inr (it, q), w2) \<Rightarrow> Some (it, q, w2) | _ \<Rightarrow> None)
     | _ \<Rightarrow> None)"

text \<open>
  C30. A ring mapped after the kernel has produced into it is read without synchronisation: the
  constructor's relaxed loads put the entry into the cached head, the reader's \<open>peek\<close> hands it out with no further
  load, and reading it is a data race.
\<close>

theorem late_map_races:
  assumes "is_power_of_two n"
  shows "\<exists>it q w. late_map Release tx_map off n p0 x f = Some (it, q, w) \<and> it_buffers it = 1 \<and> w_read q it w = None"
proof -
  have "n \<noteq> 0" using assms by (auto simp: is_power_of_two_def list_ex_iff)
  then have "1 \<le> n" by (simp add: word_le_def word_less_def word_neq_0_conv flip: word_gt_0)
  then show ?thesis
    by (simp add: late_map_def weak_eval w_cursor_peek_def w_peek_def w_count_available_def w_read_def)
qed

theorem late_map_races_witness:
  "\<exists>it q w. late_map Release 4096 weak_offsets 2 0 (7 :: nat) (\<lambda>_. 0) = Some (it, q, w) \<and> it_buffers it = 1 \<and> w_read q it w = None"
  by (rule late_map_races) (simp add: is_power_of_two_def upt_rec)

end
