(* ===== verification/FloodMtWeak.thy ===== *)
theory FloodMtWeak
  imports FloodMtMain
begin

text \<open>
  The counters of \<open>flood-mt\<close> under their relaxed orderings.  An \<open>AtomicU32\<close> that is only loaded relaxed tells
  a thread some value the counter had, not necessarily the latest; a \<open>fetch_add\<close>, \<open>fetch_sub\<close> or
  \<open>fetch_update\<close> acts on the latest value whatever its ordering.  So the states the counters went through are kept, and a
  step that loads may load from any of them.
\<close>

subsection \<open>Stale loads\<close>

text \<open>The counters that are loaded, taken from an earlier state, and put back after the step.\<close>

definition reading :: "'k shared \<Rightarrow> 'k shared \<Rightarrow> 'k shared" where
  "reading old sh = sh\<lparr>sent := sent old, completed := completed old, stall_count := stall_count old\<rparr>"

text \<open>The steps that load a counter and write none.\<close>

fun comp_loads :: "comp_pc \<Rightarrow> bool" where
  "comp_loads CLoad \<longleftrightarrow> True"
| "comp_loads (CLoadSent _) \<longleftrightarrow> True"
| "comp_loads _ \<longleftrightarrow> False"

fun send_loads :: "send_pc \<Rightarrow> bool" where
  "send_loads SLoadSent \<longleftrightarrow> True"
| "send_loads SLoadCompleted \<longleftrightarrow> True"
| "send_loads (SCheckStall _ _) \<longleftrightarrow> True"
| "send_loads _ \<longleftrightarrow> False"

inductive mt_relaxed ::
  "'k libc \<Rightarrow> profile \<Rightarrow> u32 \<Rightarrow> u32 \<Rightarrow> XdpDesc \<Rightarrow> 'k shared list \<times> 'k mt \<Rightarrow> 'k shared list \<times> 'k mt \<Rightarrow> bool"
  for S pf batch tot desc
where
  mr_step: "mt_step S pf batch tot desc st st' \<Longrightarrow> mt_relaxed S pf batch tot desc (past, st) (mt_shared st # past, st')"
| mr_complete: "i < length (mt_completers st) \<Longrightarrow> comp_loads (cp_pc (mt_completers st ! i)) \<Longrightarrow> old \<in> set past \<Longrightarrow>
    completer_step S pf batch tot env env' (reading old (mt_shared st)) (mt_completers st ! i) = Inr (sh, th) \<Longrightarrow>
    mt_relaxed S pf batch tot desc (past, st)
      (mt_shared st # past, st\<lparr>mt_shared := reading (mt_shared st) sh, mt_completers := (mt_completers st)[i := th]\<rparr>)"
| mr_send: "i < length (mt_senders st) \<Longrightarrow> send_loads (sd_pc (mt_senders st ! i)) \<Longrightarrow> old \<in> set past \<Longrightarrow>
    sender_step S pf batch tot desc env (reading old (mt_shared st)) (mt_senders st ! i) = Inr (sh, th) \<Longrightarrow>
    mt_relaxed S pf batch tot desc (past, st)
      (mt_shared st # past, st\<lparr>mt_shared := reading (mt_shared st) sh, mt_senders := (mt_senders st)[i := th]\<rparr>)"

inductive_cases mt_relaxedE: "mt_relaxed S pf batch tot desc x y"

text \<open>The kernel reports no more completions than packets were committed to it.\<close>

definition mt_relaxed_lawful ::
  "'k libc \<Rightarrow> profile \<Rightarrow> u32 \<Rightarrow> u32 \<Rightarrow> XdpDesc \<Rightarrow> 'k shared list \<times> 'k mt \<Rightarrow> 'k shared list \<times> 'k mt \<Rightarrow> bool" where
  "mt_relaxed_lawful S pf batch tot desc x y \<longleftrightarrow>
     mt_relaxed S pf batch tot desc x y \<and> mt_reaped (snd y) \<le> mt_committed (snd y)"

subsection \<open>What a load changes\<close>

lemma reading_self [simp]: "reading sh (reading old sh) = sh"
  by (simp add: reading_def)

lemma sender_load:
  assumes "sender_step S pf batch tot desc env (reading old sh) th = Inr (sh', th')" and "send_loads (sd_pc th)"
  shows "\<exists>q. reading sh sh' = sh\<lparr>sh_proc := q\<rparr>"
    and "owed (sd_pc th') = owed (sd_pc th)" "unsent (sd_pc th') = unsent (sd_pc th)"
    and "uncounted (sd_pc th') = uncounted (sd_pc th)" "send_ok (sd_pc th') = send_ok (sd_pc th)"
    and "sd_ctr th' = sd_ctr th" "sd_pc th' = SLoadCompleted \<Longrightarrow> tot \<le> sent old"
    and "sd_pc th' = SEnd \<Longrightarrow> sd_pc th = SLoadCompleted \<and> tot \<le> completed old"
proof -
  have "(\<exists>q. reading sh sh' = sh\<lparr>sh_proc := q\<rparr>) \<and> owed (sd_pc th') = owed (sd_pc th) \<and>
    unsent (sd_pc th') = unsent (sd_pc th) \<and> uncounted (sd_pc th') = uncounted (sd_pc th) \<and>
    send_ok (sd_pc th') = send_ok (sd_pc th) \<and> sd_ctr th' = sd_ctr th \<and>
    (sd_pc th' = SLoadCompleted \<longrightarrow> tot \<le> sent old) \<and>
    (sd_pc th' = SEnd \<longrightarrow> sd_pc th = SLoadCompleted \<and> tot \<le> completed old)"
    using assms by (cases "sd_pc th") (auto simp: sender_step_def reading_def split: if_splits intro: exI[of _ "sh_proc sh"])
  then show "\<exists>q. reading sh sh' = sh\<lparr>sh_proc := q\<rparr>"
    "owed (sd_pc th') = owed (sd_pc th)" "unsent (sd_pc th') = unsent (sd_pc th)"
    "uncounted (sd_pc th') = uncounted (sd_pc th)" "send_ok (sd_pc th') = send_ok (sd_pc th)"
    "sd_ctr th' = sd_ctr th" "sd_pc th' = SLoadCompleted \<Longrightarrow> tot \<le> sent old"
    "sd_pc th' = SEnd \<Longrightarrow> sd_pc th = SLoadCompleted \<and> tot \<le> completed old" by blast+
qed

lemma completer_load:
  assumes "completer_step S pf batch tot env env' (reading old sh) th = Inr (sh', th')" and "comp_loads (cp_pc th)"
  shows "\<exists>q. reading sh sh' = sh\<lparr>sh_proc := q\<rparr>"
    and "reaping (cp_pc th') = reaping (cp_pc th)" "unlogged (cp_pc th') = unlogged (cp_pc th)"
    and "cp_ctr th' = cp_ctr th" "cp_pc th' = CEnd \<Longrightarrow> completed old = tot"
proof -
  have "(\<exists>q. reading sh sh' = sh\<lparr>sh_proc := q\<rparr>) \<and> reaping (cp_pc th') = reaping (cp_pc th) \<and>
    unlogged (cp_pc th') = unlogged (cp_pc th) \<and> cp_ctr th' = cp_ctr th \<and> (cp_pc th' = CEnd \<longrightarrow> completed old = tot)"
    using assms by (cases "cp_pc th") (auto simp: completer_step_def reading_def split: if_splits intro: exI[of _ "sh_proc sh"])
  then show "\<exists>q. reading sh sh' = sh\<lparr>sh_proc := q\<rparr>"
    "reaping (cp_pc th') = reaping (cp_pc th)" "unlogged (cp_pc th') = unlogged (cp_pc th)"
    "cp_ctr th' = cp_ctr th" "cp_pc th' = CEnd \<Longrightarrow> completed old = tot" by blast+
qed

subsection \<open>The accounts\<close>

lemma mt_completed_le:
  assumes inv: "mt_inv tot st" and cinv: "mt_cinv tot st"
  shows "mt_reaped st \<le> unat tot" and "completed (mt_shared st) \<le> tot"
proof -
  have "unat (sent_reserved (mt_shared st)) \<le> unat tot" using inv by (simp add: mt_inv_def Let_def word_le_nat_alt)
  then show "mt_reaped st \<le> unat tot" using cinv mt_inv_committed[OF inv] by (simp add: mt_cinv_def Let_def)
  then show "completed (mt_shared st) \<le> tot" by (simp add: mt_reaped_def word_le_nat_alt)
qed

lemma mt_completed_mono:
  assumes step: "mt_step S pf batch tot desc st st'" and inv: "mt_inv tot st" and cinv: "mt_cinv tot st"
  shows "completed (mt_shared st) \<le> completed (mt_shared st')"
  using step
proof (cases rule: mt_stepE[consumes 1, case_names complete send kernel])
  case (complete i env env' sh th)
  note g = held_ge[OF complete(2), of "reaping \<circ> cp_pc"] held_ge[OF complete(2), of "unlogged \<circ> cp_pc"]
  have "unat (completed (mt_shared st)) + reaping (cp_pc (mt_completers st ! i)) \<le> unat tot"
    using mt_completed_le(1)[OF inv cinv] g(1) by (simp add: mt_reaped_def)
  moreover have "completer_ok tot (mt_shared st) (mt_completers st ! i)" "length (cq_log_batch (mt_shared st)) = 33"
    "held unat (cq_by_queue (mt_shared st)) + unlogged (cp_pc (mt_completers st ! i)) \<le> unat (completed (mt_shared st))"
    using cinv complete(2) g(2) by (auto simp: mt_cinv_def Let_def)
  ultimately show ?thesis using completer_step_accounts(2)[OF complete(3)] by (simp add: complete(1))
next
  case (send i env sh th)
  then show ?thesis using sender_step_frame(1)[OF send(3)] by simp
qed simp

definition mr_inv :: "u32 \<Rightarrow> 'k shared list \<times> 'k mt \<Rightarrow> bool" where
  "mr_inv tot x \<longleftrightarrow> mt_inv tot (snd x) \<and> mt_cinv tot (snd x) \<and>
     (\<forall>old\<in>set (fst x). sent old \<le> sent (mt_shared (snd x)) \<and> completed old \<le> completed (mt_shared (snd x)))"

lemma sender_load_accounts:
  assumes inv: "mt_inv tot st" and cinv: "mt_cinv tot st" and i: "i < length (mt_senders st)"
    and load: "send_loads (sd_pc (mt_senders st ! i))"
    and step: "sender_step S pf batch tot desc env (reading old (mt_shared st)) (mt_senders st ! i) = Inr (sh, th)"
    and old: "sent old \<le> sent (mt_shared st)" "completed old \<le> completed (mt_shared st)"
    and st': "st' = st\<lparr>mt_shared := reading (mt_shared st) sh, mt_senders := (mt_senders st)[i := th]\<rparr>"
  shows "mt_inv tot st' \<and> mt_cinv tot st' \<and> sent (mt_shared st') = sent (mt_shared st) \<and>
    completed (mt_shared st') = completed (mt_shared st)"
proof -
  let ?s = "mt_shared st" and ?ts = "mt_senders st"
  note L = sender_load[OF step load]
  obtain q where q: "reading ?s sh = ?s\<lparr>sh_proc := q\<rparr>" using L(1) by blast
  note u = held_update[OF i, of "owed \<circ> sd_pc" th] held_update[OF i, of "uncounted \<circ> sd_pc" th]
    held_update[OF i, of "unsent \<circ> sd_pc" th]
  have oki: "sender_ok tot ?s (?ts ! i)" using inv i by (simp add: mt_inv_def Let_def)
  have "sender_ok tot ?s th"
    using oki L old by (auto simp: sender_ok_def)
  then have ok: "sender_ok tot (?s\<lparr>sh_proc := q\<rparr>) (?ts[i := th] ! j)" if "j < length ?ts" for j
    using that inv i by (cases "j = i") (auto simp: mt_inv_def Let_def sender_ok_def)
  have fin: "tot \<le> completed ?s" if "x \<in> set (?ts[i := th])" "sd_pc x = SEnd" for x
    using that cinv i L(8) old(2) set_update_subset_insert[of ?ts i th] by (fastforce simp: mt_cinv_def Let_def)
  have "completer_ok tot (?s\<lparr>sh_proc := q\<rparr>) c = completer_ok tot ?s c" for c by (simp add: completer_ok_def)
  with ok fin u L(2-4) inv cinv show ?thesis
    unfolding st' q mt_inv_def mt_cinv_def Let_def mt_reaped_def mt_committed_def by simp
qed

lemma completer_load_accounts:
  assumes inv: "mt_inv tot st" and cinv: "mt_cinv tot st" and i: "i < length (mt_completers st)"
    and load: "comp_loads (cp_pc (mt_completers st ! i))"
    and step: "completer_step S pf batch tot env env' (reading old (mt_shared st)) (mt_completers st ! i) = Inr (sh, th)"
    and old: "completed old \<le> completed (mt_shared st)"
    and st': "st' = st\<lparr>mt_shared := reading (mt_shared st) sh, mt_completers := (mt_completers st)[i := th]\<rparr>"
  shows "mt_inv tot st' \<and> mt_cinv tot st' \<and> sent (mt_shared st') = sent (mt_shared st) \<and>
    completed (mt_shared st') = completed (mt_shared st)"
proof -
  let ?s = "mt_shared st" and ?ts = "mt_completers st"
  note L = completer_load[OF step load]
  obtain q where q: "reading ?s sh = ?s\<lparr>sh_proc := q\<rparr>" using L(1) by blast
  note u = held_update[OF i, of "unlogged \<circ> cp_pc" th] held_update[OF i, of "reaping \<circ> cp_pc" th]
  have "completer_ok tot ?s (?ts ! i)" using cinv i by (simp add: mt_cinv_def Let_def)
  then have "completer_ok tot ?s th"
    using L old mt_completed_le(2)[OF inv cinv] by (auto simp: completer_ok_def)
  then have ok: "completer_ok tot (?s\<lparr>sh_proc := q\<rparr>) (?ts[i := th] ! j)" if "j < length ?ts" for j
    using that cinv i by (cases "j = i") (auto simp: mt_cinv_def Let_def completer_ok_def)
  have "sender_ok tot (?s\<lparr>sh_proc := q\<rparr>) t = sender_ok tot ?s t" for t by (simp add: sender_ok_def)
  with ok u L(2,3) inv cinv show ?thesis
    unfolding st' q mt_inv_def mt_cinv_def Let_def mt_reaped_def mt_committed_def by simp
qed

lemma mr_inv_step:
  assumes "mt_relaxed_lawful S pf batch tot desc x y" and inv: "mr_inv tot x"
  shows "mr_inv tot y"
proof -
  have law: "mt_reaped (snd y) \<le> mt_committed (snd y)" and step: "mt_relaxed S pf batch tot desc x y"
    using assms(1) by (simp_all add: mt_relaxed_lawful_def)
  from step show ?thesis
  proof (cases rule: mt_relaxedE[consumes 1, case_names step complete send])
    case (step st st' past)
    have i: "mt_inv tot st" "mt_cinv tot st" using inv step(1) by (simp_all add: mr_inv_def)
    note m = mt_inv_step[OF step(3) i(1)] mt_completed_mono[OF step(3) i]
    have "mt_cinv tot st'" using mt_cinv_step[OF step(3) i] law step(2) by simp
    with m inv step(1,2) show ?thesis by (force simp: mr_inv_def intro: order_trans)
  next
    case (complete i st old past env env' sh th)
    have "mt_inv tot st" "mt_cinv tot st" "completed old \<le> completed (mt_shared st)"
      using inv complete(1,5) by (auto simp: mr_inv_def)
    from completer_load_accounts[OF this(1,2) complete(3,4,6) this(3) refl] inv show ?thesis
      unfolding complete(1,2) mr_inv_def by simp
  next
    case (send i st old past env sh th)
    have "mt_inv tot st" "mt_cinv tot st" "sent old \<le> sent (mt_shared st)" "completed old \<le> completed (mt_shared st)"
      using inv send(1,5) by (auto simp: mr_inv_def)
    from sender_load_accounts[OF this(1,2) send(3,4,6) this(3,4) refl] inv show ?thesis
      unfolding send(1,2) mr_inv_def by simp
  qed
qed

lemma mr_inv_steps: "(mt_relaxed_lawful S pf batch tot desc)\<^sup>*\<^sup>* x y \<Longrightarrow> mr_inv tot x \<Longrightarrow> mr_inv tot y"
  by (induction rule: rtranclp_induct) (blast intro: mr_inv_step)+

lemma mr_lengths:
  "(mt_relaxed_lawful S pf batch tot desc)\<^sup>*\<^sup>* x y \<Longrightarrow>
    length (mt_senders (snd y)) = length (mt_senders (snd x)) \<and> length (mt_completers (snd y)) = length (mt_completers (snd x))"
proof (induction rule: rtranclp_induct)
  case (step y z)
  then show ?case by (auto simp: mt_relaxed_lawful_def elim!: mt_relaxedE dest!: mt_step_lengths)
qed simp

text \<open>Without stale loads it is the relation of before.\<close>

lemma mt_lawful_relaxed:
  assumes "(mt_lawful S pf batch tot desc)\<^sup>*\<^sup>* st st'"
  shows "\<exists>past. (mt_relaxed_lawful S pf batch tot desc)\<^sup>*\<^sup>* ([], st) (past, st')"
  using assms
proof (induction rule: rtranclp_induct)
  case (step st' st'')
  then obtain past where "(mt_relaxed_lawful S pf batch tot desc)\<^sup>*\<^sup>* ([], st) (past, st')" by blast
  moreover have "mt_relaxed_lawful S pf batch tot desc (past, st') (mt_shared st' # past, st'')"
    using step(2) by (simp add: mt_relaxed_lawful_def mt_lawful_def mr_step)
  ultimately show ?case by (meson rtranclp.rtrancl_into_rtrancl)
qed blast

text \<open>
  C10. Relaxed loads of the counters do no harm.  Where every load of \<open>sent\<close>, \<open>completed\<close> and
  \<open>stall_count\<close> may return any value the counter ever had, for a kernel that completes no more than it is
  given: what is committed never exceeds what is reserved, nor that the total, at any moment, and when all threads have
  ended, exactly the total was sent and completed and every counter adds up to it.
\<close>

theorem mt_relaxed_counts:
  assumes "mt_set_up S pf args area p0 = (Ok ms, p)" and "mt_threads args \<noteq> Some 0"
    and "(mt_relaxed_lawful S pf (mt_batch_size args) (mt_total_count args) (ms_desc ms))\<^sup>*\<^sup>* ([], mt_init p ms) (past, st)"
  shows "let sh = mt_shared st; n = mt_total_count args in
    mt_committed st \<le> unat (sent_reserved sh) \<and> sent_reserved sh \<le> n \<and>
    (mt_ended st \<longrightarrow> sent sh = n \<and> completed sh = n \<and> sent_reserved sh = n \<and>
       held unat (tx_by_sock sh) = unat n \<and> held unat (cq_by_queue sh) = unat n)"
proof -
  note a = mt_set_up_inv[OF assms(1)] and len = mr_lengths[OF assms(3)]
  have "mt_num_threads args \<noteq> 0" using assms(2) by (auto simp: mt_num_threads_def split: option.splits)
  then have "0 < unat (mt_num_threads args)" by (simp add: unat_gt_0)
  moreover have "mt_ifname args \<noteq> []" using mt_set_up_queues_aux(1,2)[OF assms(1)] by auto
  ultimately have ne: "mt_senders st \<noteq> []" "mt_completers st \<noteq> []" using a(3,4) len by (auto simp: min_def split: if_splits)
  have "mr_inv (mt_total_count args) ([], mt_init p ms)" using a(1,2) by (simp add: mr_inv_def)
  from mr_inv_steps[OF assms(3) this] have inv: "mt_inv (mt_total_count args) st" "mt_cinv (mt_total_count args) st"
    by (simp_all add: mr_inv_def)
  then have "sent_reserved (mt_shared st) \<le> mt_total_count args" by (simp add: mt_inv_def Let_def)
  with mt_inv_committed[OF inv(1)] mt_ended_counts[OF inv _ ne] show ?thesis by (simp add: Let_def)
qed

theorem mt_relaxed_counts_witness:
  "\<exists>ms p past st. mt_set_up demo_libc Release demo_mt_args (65536, 1048576) demo_start = (Ok ms, p) \<and>
    (mt_relaxed_lawful demo_libc Release 1024 1 (ms_desc ms))\<^sup>*\<^sup>* ([], mt_init p ms) (past, st) \<and> mt_ended st \<and>
    completed (mt_shared st) = 1 \<and> held unat (tx_by_sock (mt_shared st)) = 1"
proof (rule demo_mt_run)
  fix ms p st
  assume run: "mt_set_up demo_libc Release demo_mt_args (65536, 1048576) demo_start = (Ok ms, p)"
    and steps: "(mt_step demo_libc Release 1024 1 (ms_desc ms))\<^sup>*\<^sup>* (mt_init p ms) st" and fin: "mt_ended st"
  have "length (mt_completers (mt_init p ms)) = 1"
    using mt_set_up_inv(4)[OF run] by (simp add: demo_mt_args_def mt_num_threads_def)
  note law = mt_alone_lawful_steps[OF steps mt_set_up_inv(1)[OF run] mt_init_alone[OF this]]
  obtain past where rel: "(mt_relaxed_lawful demo_libc Release 1024 1 (ms_desc ms))\<^sup>*\<^sup>* ([], mt_init p ms) (past, st)"
    using mt_lawful_relaxed[OF law] by blast
  have "mt_threads demo_mt_args \<noteq> Some 0" by (simp add: demo_mt_args_def)
  from mt_relaxed_counts[OF run this, unfolded demo_mt_numbers, OF rel] run rel fin show ?thesis
    by (fastforce simp: Let_def)
qed

end
