(* ===== verification/Errors.thy ===== *)
theory Errors
  imports Sys
begin

text \<open>
  How \<open>Errno\<close> is made and printed (\<open>src/lib.rs\<close>).  The text of an error comes from \<open>libc::strerror\<close>, which is
  not part of the repository: an argument that gives the bytes found at the pointer it returns.
  \<open>CStr::from_ptr\<close> takes them up to the first zero, and \<open>to_string_lossy\<close> is the standard library's decoder,
  which puts \<open>U+FFFD\<close> in place of each maximal piece that is no UTF-8.  Text is a list of bytes.
\<close>

subsection \<open>Construction\<close>

text \<open>\<open>From<LastErrno>\<close> is what every \<open>Err(LastErrno)?\<close> of the crate goes through.\<close>

definition Errno_from :: "'k libc \<Rightarrow> 'k \<Rightarrow> Errno" where
  "Errno_from S k = last_os_error S k"

definition Errno_new :: "'k libc \<Rightarrow> 'k \<Rightarrow> Errno" where
  "Errno_new S k = last_os_error S k"

definition Errno_get_raw :: "Errno \<Rightarrow> c_int" where
  "Errno_get_raw e = get_raw e"

subsection \<open>The lossy decoder\<close>

definition byte_at :: "u8 list \<Rightarrow> nat \<Rightarrow> nat" where
  "byte_at bs i = (if i < length bs then unat (bs ! i) else 0)"

definition cont :: "nat \<Rightarrow> bool" where
  "cont b \<longleftrightarrow> 0x80 \<le> b \<and> b \<le> 0xBF"

definition second3 :: "nat \<Rightarrow> nat \<Rightarrow> bool" where
  "second3 b0 b1 \<longleftrightarrow> b0 = 0xE0 \<and> 0xA0 \<le> b1 \<and> b1 \<le> 0xBF \<or> 0xE1 \<le> b0 \<and> b0 \<le> 0xEC \<and> cont b1 \<or>
     b0 = 0xED \<and> 0x80 \<le> b1 \<and> b1 \<le> 0x9F \<or> 0xEE \<le> b0 \<and> b0 \<le> 0xEF \<and> cont b1"

definition second4 :: "nat \<Rightarrow> nat \<Rightarrow> bool" where
  "second4 b0 b1 \<longleftrightarrow> b0 = 0xF0 \<and> 0x90 \<le> b1 \<and> b1 \<le> 0xBF \<or> 0xF1 \<le> b0 \<and> b0 \<le> 0xF3 \<and> cont b1 \<or>
     b0 = 0xF4 \<and> 0x80 \<le> b1 \<and> b1 \<le> 0x8F"

text \<open>Whether a character starts here, and how many bytes it, or the piece to be replaced, has.\<close>

definition utf8_next :: "u8 list \<Rightarrow> bool \<times> nat" where
  "utf8_next bs =
     (let b0 = byte_at bs 0; b1 = byte_at bs 1; b2 = byte_at bs 2; b3 = byte_at bs 3 in
      if b0 < 0x80 then (True, 1)
      else if 0xC2 \<le> b0 \<and> b0 \<le> 0xDF then (if cont b1 then (True, 2) else (False, 1))
      else if 0xE0 \<le> b0 \<and> b0 \<le> 0xEF then
        (if second3 b0 b1 then if cont b2 then (True, 3) else (False, 2) else (False, 1))
      else if 0xF0 \<le> b0 \<and> b0 \<le> 0xF4 then
        (if second4 b0 b1 then if cont b2 then if cont b3 then (True, 4) else (False, 3) else (False, 2)
         else (False, 1))
      else (False, 1))"

definition REPLACEMENT :: "u8 list" where
  "REPLACEMENT = [0xEF, 0xBF, 0xBD]"

lemma utf8_next_pos: "utf8_next bs = (ok, k) \<Longrightarrow> 0 < k"
  by (auto simp: utf8_next_def Let_def split: if_splits)

function utf8_lossy :: "u8 list \<Rightarrow> u8 list" where
  "utf8_lossy bs =
     (if bs = [] then []
      else case utf8_next bs of (ok, k) \<Rightarrow> (if ok then take k bs else REPLACEMENT) @ utf8_lossy (drop k bs))"
  by pat_completeness auto
termination
  by (relation "measure length") (auto dest: utf8_next_pos[OF sym])

declare utf8_lossy.simps [simp del]

subsection \<open>Printing\<close>

definition bytes_of :: "string \<Rightarrow> u8 list" where
  "bytes_of s = map of_char s"

fun dec_digits :: "nat \<Rightarrow> u8 list" where
  "dec_digits n = (if n < 10 then [48 + of_nat n] else dec_digits (n div 10) @ [48 + of_nat (n mod 10)])"

declare dec_digits.simps [simp del]

definition dec_int :: "int \<Rightarrow> u8 list" where
  "dec_int i = (if i < 0 then 45 # dec_digits (nat (- i)) else dec_digits (nat i))"

definition Errno_display :: "(c_int \<Rightarrow> u8 list) \<Rightarrow> Errno \<Rightarrow> u8 list" where
  "Errno_display strerror e = utf8_lossy (takeWhile (\<lambda>b. b \<noteq> 0) (strerror (get_raw e)))"

definition Errno_debug :: "(c_int \<Rightarrow> u8 list) \<Rightarrow> Errno \<Rightarrow> u8 list" where
  "Errno_debug strerror e =
     bytes_of ''Errno('' @ dec_int (get_raw e) @ bytes_of '': '' @ Errno_display strerror e @ bytes_of '')''"

subsection \<open>Well-formed UTF-8\<close>

text \<open>The rows of the table of well-formed byte sequences in the Unicode standard.\<close>

inductive utf8 :: "u8 list \<Rightarrow> bool" where
  utf8_nil: "utf8 []"
| utf8_1: "unat a \<le> 0x7F \<Longrightarrow> utf8 bs \<Longrightarrow> utf8 (a # bs)"
| utf8_2: "unat a \<in> {0xC2..0xDF} \<Longrightarrow> unat b \<in> {0x80..0xBF} \<Longrightarrow> utf8 bs \<Longrightarrow> utf8 (a # b # bs)"
| utf8_3: "unat a \<in> {0xE0..0xEF} \<Longrightarrow> unat b \<in> {(if unat a = 0xE0 then 0xA0 else 0x80)..(if unat a = 0xED then 0x9F else 0xBF)} \<Longrightarrow>
    unat c \<in> {0x80..0xBF} \<Longrightarrow> utf8 bs \<Longrightarrow> utf8 (a # b # c # bs)"
| utf8_4: "unat a \<in> {0xF0..0xF4} \<Longrightarrow> unat b \<in> {(if unat a = 0xF0 then 0x90 else 0x80)..(if unat a = 0xF4 then 0x8F else 0xBF)} \<Longrightarrow>
    unat c \<in> {0x80..0xBF} \<Longrightarrow> unat d \<in> {0x80..0xBF} \<Longrightarrow> utf8 bs \<Longrightarrow> utf8 (a # b # c # d # bs)"

lemmas utf8_bytes = utf8_next_def byte_at_def cont_def second3_def second4_def Let_def

lemma utf8_append: "utf8 a \<Longrightarrow> utf8 b \<Longrightarrow> utf8 (a @ b)"
  by (induction rule: utf8.induct) (auto intro: utf8.intros)

lemma utf8_ascii: "\<forall>b\<in>set bs. unat b \<le> 0x7F \<Longrightarrow> utf8 bs"
  by (induction bs) (auto intro: utf8.intros)

lemma utf8_next_ok:
  assumes "utf8_next bs = (True, k)" and "bs \<noteq> []"
  shows "utf8 (take k bs)"
proof -
  consider a where "bs = [a]" | a b where "bs = [a, b]" | a b c where "bs = [a, b, c]"
    | a b c d cs where "bs = a # b # c # d # cs"
    using assms(2) by (metis neq_Nil_conv)
  moreover have "utf8 [a]" if "unat a < 128" for a using that by (simp add: utf8_1 utf8_nil)
  ultimately show ?thesis
    using assms(1)
    by cases (auto simp: utf8_bytes split: if_splits intro: utf8.intros)
qed

lemma utf8_replacement: "utf8 REPLACEMENT"
  by (auto simp: REPLACEMENT_def intro!: utf8_3 utf8_nil)

lemma utf8_lossy_utf8: "utf8 (utf8_lossy bs)"
proof (induction bs rule: utf8_lossy.induct)
  case (1 bs)
  show ?case
  proof (cases "bs = []")
    case False
    obtain ok k where n: "utf8_next bs = (ok, k)" by force
    have "utf8 (if ok then take k bs else REPLACEMENT)"
      using utf8_next_ok[of bs k] n False utf8_replacement by simp
    with 1[OF False n[symmetric]] n False show ?thesis
      by (subst utf8_lossy.simps) (simp add: utf8_append)
  qed (simp add: utf8_lossy.simps utf8_nil)
qed

lemma utf8_lossy_id: "utf8 bs \<Longrightarrow> utf8_lossy bs = bs"
proof (induction rule: utf8.induct)
  case utf8_nil
  then show ?case by (simp add: utf8_lossy.simps)
next
  case (utf8_1 a bs)
  then have "utf8_next (a # bs) = (True, 1)" by (simp add: utf8_bytes)
  with utf8_1 show ?case by (simp add: utf8_lossy.simps[of "a # bs"])
next
  case (utf8_2 a b bs)
  then have "utf8_next (a # b # bs) = (True, 2)" by (simp add: utf8_bytes)
  with utf8_2 show ?case by (simp add: utf8_lossy.simps[of "a # b # bs"])
next
  case (utf8_3 a b c bs)
  then have "utf8_next (a # b # c # bs) = (True, 3)" by (auto simp: utf8_bytes split: if_splits)
  with utf8_3 show ?case by (simp add: utf8_lossy.simps[of "a # b # c # bs"])
next
  case (utf8_4 a b c d bs)
  then have "utf8_next (a # b # c # d # bs) = (True, 4)" by (auto simp: utf8_bytes split: if_splits)
  with utf8_4 show ?case by (simp add: utf8_lossy.simps[of "a # b # c # d # bs"])
qed

subsection \<open>Reading the number back\<close>

definition undec :: "u8 list \<Rightarrow> nat" where
  "undec ds = foldl (\<lambda>a d. 10 * a + unat (d - 48)) 0 ds"

definition undec_int :: "u8 list \<Rightarrow> int" where
  "undec_int ds = (case ds of d # ds' \<Rightarrow> if d = 45 then - int (undec ds') else int (undec ds) | [] \<Rightarrow> 0)"

text \<open>What stands between the opening parenthesis and the first colon.\<close>

definition debug_raw :: "u8 list \<Rightarrow> int" where
  "debug_raw bs = undec_int (takeWhile (\<lambda>b. b \<noteq> 58) (drop 6 bs))"

lemma small_byte:
  assumes "n < 10"
  shows "unat (48 + of_nat n :: u8) = 48 + n"
proof -
  have "(48 + of_nat n :: u8) = of_nat (48 + n)" by simp
  moreover have "unat (of_nat (48 + n) :: u8) = 48 + n" using assms by (subst unat_of_nat) (simp add: take_bit_nat_eq_self)
  ultimately show ?thesis by (simp only:)
qed

lemma dec_digits_bytes: "b \<in> set (dec_digits n) \<Longrightarrow> 48 \<le> unat b \<and> unat b \<le> 57"
proof (induction n rule: dec_digits.induct)
  case (1 n)
  then show ?case
    by (subst (asm) (2) dec_digits.simps) (auto simp: small_byte split: if_splits)
qed

lemma dec_digits_neq: "b \<in> set (dec_digits n) \<Longrightarrow> b \<noteq> 58 \<and> b \<noteq> 45"
  using dec_digits_bytes[of b n] by auto

lemma undec_digits: "undec (dec_digits n) = n"
proof (induction n rule: dec_digits.induct)
  case (1 n)
  have "unat (48 + of_nat (n mod 10) - 48 :: u8) = n mod 10"
    using small_byte[of "n mod 10"] by (simp add: unat_of_nat take_bit_nat_eq_self)
  with 1 show ?case by (subst dec_digits.simps) (auto simp: undec_def unat_of_nat take_bit_nat_eq_self)
qed

lemma dec_digits_Cons: "\<exists>d ds. dec_digits n = d # ds"
  by (subst dec_digits.simps) (auto simp: neq_Nil_conv[symmetric])

lemma dec_int_bytes: "b \<in> set (dec_int i) \<Longrightarrow> b \<noteq> 58 \<and> unat b \<le> 0x7F"
  using dec_digits_bytes[of b "nat i"] dec_digits_bytes[of b "nat (- i)"] by (auto simp: dec_int_def split: if_splits)

lemma undec_int_dec: "undec_int (dec_int i) = i"
proof (cases "i < 0")
  case False
  obtain d ds where d: "dec_digits (nat i) = d # ds" using dec_digits_Cons by blast
  then have "d \<noteq> 45" using dec_digits_neq[of d "nat i"] by simp
  with False d show ?thesis using undec_digits[of "nat i"] by (simp add: undec_int_def dec_int_def)
qed (simp add: undec_int_def dec_int_def undec_digits)

subsection \<open>Properties\<close>

lemma debug_raw_debug: "debug_raw (Errno_debug strerror e) = get_raw e"
proof -
  have "takeWhile (\<lambda>b. b \<noteq> 58) (dec_int (get_raw e) @ 58 # cs) = dec_int (get_raw e)" for cs
    using dec_int_bytes by (auto simp: takeWhile_append takeWhile_eq_all_conv)
  then show ?thesis by (simp add: debug_raw_def Errno_debug_def bytes_of_def undec_int_dec)
qed

text \<open>
  C32. Printing an error always gives text: whatever bytes \<open>strerror\<close> hands over, both outputs are
  well-formed UTF-8, and \<open>Display\<close> is exactly those bytes up to the terminating zero where they are well-formed
  already.  The debug output tells the number whatever \<open>strerror\<close> says: reading back what stands before
  the first colon gives the raw value.
\<close>

theorem errno_prints:
  "utf8 (Errno_display strerror e) \<and> utf8 (Errno_debug strerror e) \<and>
   (utf8 (takeWhile (\<lambda>b. b \<noteq> 0) (strerror (Errno_get_raw e))) \<longrightarrow>
     Errno_display strerror e = takeWhile (\<lambda>b. b \<noteq> 0) (strerror (Errno_get_raw e))) \<and>
   debug_raw (Errno_debug strerror e) = Errno_get_raw e"
proof -
  have "utf8 (bytes_of ''Errno('')" "utf8 (bytes_of '': '')" "utf8 (bytes_of '')'')"
    by (auto simp: bytes_of_def intro!: utf8_ascii)
  moreover have "utf8 (dec_int (get_raw e))" using dec_int_bytes by (blast intro: utf8_ascii)
  ultimately show ?thesis
    by (auto simp: Errno_debug_def[of strerror e] Errno_display_def utf8_lossy_utf8 utf8_lossy_id Errno_get_raw_def
        debug_raw_debug[unfolded Errno_debug_def Errno_display_def] intro!: utf8_append)
qed

theorem errno_prints_witness:
  "Errno_display (\<lambda>_. [0x4E, 0x6F, 0, 0x21]) (Errno 2) = [0x4E, 0x6F] \<and>
   debug_raw (Errno_debug (\<lambda>_. [0x4E, 0x6F, 0, 0x21]) (Errno (- 22))) = - 22"
  using errno_prints[of "\<lambda>_. [0x4E, 0x6F, 0, 0x21]" "Errno 2"]
    errno_prints[of "\<lambda>_. [0x4E, 0x6F, 0, 0x21]" "Errno (- 22)"]
  by (auto simp: Errno_get_raw_def intro!: utf8.intros)

end
