(* ===== verification/Report.thy ===== *)
theory Report
  imports FloodMain FloodMtMain Errors
begin

text \<open>
  The statistics both clients print when they are done, down to the bytes, and what the numbers in them say of the
  rounds that were run.  The line before them, which divides by the time taken, is left out.
\<close>

subsection \<open>Formatting\<close>

text \<open>\<open>{:?}\<close> of an array: its elements, separated, in brackets.\<close>

fun separated :: "u8 list list \<Rightarrow> u8 list" where
  "separated [] = []"
| "separated [x] = x"
| "separated (x # y # xs) = x @ bytes_of '', '' @ separated (y # xs)"

definition debug_list :: "int list \<Rightarrow> u8 list" where
  "debug_list ns = bytes_of ''['' @ separated (map dec_int ns) @ bytes_of '']''"

text \<open>\<open>eprintln!\<close> ends each of its texts with a newline.\<close>

definition newline :: "u8 list" where
  "newline = [10]"

definition report_text :: "int \<Rightarrow> int \<Rightarrow> int \<Rightarrow> int list \<Rightarrow> int list \<Rightarrow> u8 list" where
  "report_text loops stalled woken tx_log cq_log =
     bytes_of ''Statistics'' @ newline @ bytes_of ''Loops: '' @ dec_int loops @ bytes_of ''; stalled: '' @ dec_int stalled @
     bytes_of ''; wake/sys-call: '' @ dec_int woken @ newline @
     bytes_of ''Tx Batch size (log2): '' @ debug_list tx_log @ newline @
     bytes_of ''Cq Batch size (log2): '' @ debug_list cq_log @ newline"

definition flood_report :: "'k flood \<Rightarrow> u8 list" where
  "flood_report st = report_text (sint (fl_loops st)) (sint (fl_stall st)) (sint (fl_woken st))
     (map sint (fl_tx_log st)) (map sint (fl_cq_log st))"

text \<open>\<open>{:?}\<close> of an atomic counter is that of its value; \<open>flood-mt\<close> has two more lines.\<close>

definition mt_report :: "'k shared \<Rightarrow> u8 list" where
  "mt_report sh = report_text (uint (stat_loops sh)) (uint (stat_stall sh)) (uint (stat_woken sh))
       (map uint (FloodMt.tx_log_batch sh)) (map uint (FloodMt.cq_log_batch sh)) @
     bytes_of ''Tx by socket: '' @ debug_list (map uint (tx_by_sock sh)) @ newline @
     bytes_of ''Cq by queue: '' @ debug_list (map uint (cq_by_queue sh)) @ newline"

subsection \<open>The rounds of \<open>flood\<close>\<close>

text \<open>
  What one round sent and reaped, as its calls return it, and whether it called \<open>wake\<close>; \<open>None\<close> if the calls panic.
  None of the statistics is looked at.
\<close>

definition round_did ::
  "profile \<Rightarrow> u32 \<Rightarrow> u32 \<Rightarrow> XdpDesc \<Rightarrow> kround \<Rightarrow> 'k flood \<Rightarrow> (u32 \<times> u32 \<times> bool) option" where
  "round_did pf batch tot desc r st =
     (case flood_send pf (kr_submit r) (kr_start r (fl_mem st)) (fl_tx st) (min (saturating_sub tot (fl_sent st)) batch) desc of
        Inl e \<Rightarrow> None
      | Inr (sent_now, tx, m1) \<Rightarrow>
          let m2 = kr_flags r m1; needed = RingTx_needs_wakeup m2 tx in
          case flood_reap pf (kr_peek r) (kr_release r) (kr_wait r needed m2) (fl_device st)
              (min (saturating_sub (fl_sent st) (fl_completed st)) batch) of
            Inl e \<Rightarrow> None
          | Inr (comp_now, device, m3) \<Rightarrow> Some (sent_now, comp_now, needed))"

text \<open>A run of the loop, with what each round did.\<close>

inductive flood_trace ::
  "'k libc \<Rightarrow> profile \<Rightarrow> u32 \<Rightarrow> u32 \<Rightarrow> XdpDesc \<Rightarrow> (nat \<Rightarrow> kround) \<Rightarrow> nat \<Rightarrow> 'k flood \<Rightarrow> (u32 \<times> u32 \<times> bool) list \<Rightarrow>
     'k flood \<Rightarrow> bool"
  for S pf batch tot desc ks
where
  trace_done: "flood_trace S pf batch tot desc ks n st [] st"
| trace_round: "flood_trace S pf batch tot desc ks n st rs st1 \<Longrightarrow> \<not> flood_done tot st1 \<Longrightarrow>
    flood_round S pf batch tot desc (ks (n + length rs)) st1 = Inr st2 \<Longrightarrow>
    round_did pf batch tot desc (ks (n + length rs)) st1 = Some x \<Longrightarrow>
    flood_trace S pf batch tot desc ks n st (rs @ [x]) st2"

lemma incr_i32_InrD: "incr_i32 pf w = Inr x \<Longrightarrow> x = w + 1 \<and> (pf = Debug \<longrightarrow> w \<noteq> 0x7FFFFFFF)"
  by (auto simp: incr_i32_def split: if_splits)

lemma flood_round_parts:
  assumes "flood_round S pf batch tot desc r st = Inr st'"
  obtains s c w p m tx dq woken where "round_did pf batch tot desc r st = Some (s, c, w)"
    and "s \<le> saturating_sub tot (fl_sent st)" and "c \<le> saturating_sub (fl_sent st) (fl_completed st)"
    and "woken = (if w then fl_woken st + 1 else fl_woken st)"
    and "flood_stats pf s c (st\<lparr>fl_proc := p, fl_mem := m, fl_tx := tx, fl_device := dq, fl_woken := woken\<rparr>) = Inr st'"
proof -
  from assms obtain s tx m1 p woken c dq m3 where
    send: "flood_send pf (kr_submit r) (kr_start r (fl_mem st)) (fl_tx st) (min (saturating_sub tot (fl_sent st)) batch) desc =
      Inr (s, tx, m1)"
    and wake: "flood_wake S pf (RingTx_needs_wakeup (kr_flags r m1) tx) tx (fl_proc st, fl_woken st) = Inr (p, woken)"
    and reap: "flood_reap pf (kr_peek r) (kr_release r) (kr_wait r (RingTx_needs_wakeup (kr_flags r m1) tx) (kr_flags r m1))
      (fl_device st) (min (saturating_sub (fl_sent st) (fl_completed st)) batch) = Inr (c, dq, m3)"
    and stats: "flood_stats pf s c (st\<lparr>fl_proc := p, fl_mem := m3, fl_tx := tx, fl_device := dq, fl_woken := woken\<rparr>) = Inr st'"
    by (auto simp: flood_round_def Let_def res_simps)
  from wake have "woken = (if RingTx_needs_wakeup (kr_flags r m1) tx then fl_woken st + 1 else fl_woken st)"
    by (auto simp: flood_wake_def res_simps split: if_splits dest: incr_i32_InrD)
  moreover have "round_did pf batch tot desc r st = Some (s, c, RingTx_needs_wakeup (kr_flags r m1) tx)"
    by (simp add: round_did_def send reap Let_def)
  ultimately show thesis using flood_send_le[OF send] flood_reap_le[OF reap] stats that by simp
qed

lemma trace_first:
  assumes "flood_trace S pf batch tot desc ks (Suc n) st1 rs st2" and "\<not> flood_done tot st"
    and "flood_round S pf batch tot desc (ks n) st = Inr st1" and "round_did pf batch tot desc (ks n) st = Some x"
  shows "flood_trace S pf batch tot desc ks n st (x # rs) st2"
  using assms
proof (induction "Suc n" st1 rs st2 rule: flood_trace.induct)
  case (trace_done st1)
  with flood_trace.trace_round[OF flood_trace.trace_done[of S pf batch tot desc ks n st]] show ?case by simp
next
  case (trace_round st1 rs st2 st3 y)
  from flood_trace.trace_round[OF trace_round(2)[OF trace_round(6-8)] trace_round(3)] trace_round(4,5) show ?case by simp
qed

lemma flood_loop_trace:
  assumes "flood_loop S pf batch tot desc ks n st = Some r" and "r = Inr st'"
  shows "\<exists>rs. flood_trace S pf batch tot desc ks n st rs st' \<and> flood_done tot st'"
proof -
  let ?P = "\<lambda>S pf batch tot desc ks n st r. \<forall>st'. r = Inr st' \<longrightarrow>
    (\<exists>rs. flood_trace S pf batch tot desc ks n st rs st' \<and> flood_done tot st')"
  have "?P S pf batch tot desc ks n st r"
  proof (rule flood_loop.raw_induct[where P = ?P, OF _ assms(1)], intro allI impI)
    fix loop S pf batch tot desc ks n st r st'
    assume IH: "\<And>S pf batch tot desc ks n st r. loop S pf batch tot desc ks n st = Some r \<Longrightarrow> ?P S pf batch tot desc ks n st r"
      and body: "(if flood_done tot st then Some (Inr st)
        else case flood_round S pf batch tot desc (ks n) st of Inl e \<Rightarrow> Some (Inl e)
        | Inr st1 \<Rightarrow> loop S pf batch tot desc ks (Suc n) st1) = Some r" and r: "r = Inr st'"
    show "\<exists>rs. flood_trace S pf batch tot desc ks n st rs st' \<and> flood_done tot st'"
    proof (cases "flood_done tot st")
      case True
      with body r show ?thesis by (auto intro: flood_trace.trace_done)
    next
      case False
      with body r obtain st1 where "flood_round S pf batch tot desc (ks n) st = Inr st1"
        and "loop S pf batch tot desc ks (Suc n) st1 = Some (Inr st')" by (auto split: sum.splits)
      then obtain rs where "flood_trace S pf batch tot desc ks (Suc n) st1 rs st'" "flood_done tot st'"
        and "flood_round S pf batch tot desc (ks n) st = Inr st1" using IH by blast
      moreover from this obtain x where "round_did pf batch tot desc (ks n) st = Some x" by (blast elim: flood_round_parts)
      ultimately show ?thesis using trace_first[OF _ False] by blast
    qed
  qed
  with assms(2) show ?thesis by blast
qed

subsection \<open>What a round counts\<close>

text \<open>Bucket \<open>k\<close> is how many of the numbers have \<open>k\<close> bits.\<close>

definition buckets :: "u32 list \<Rightarrow> nat list" where
  "buckets ns = map (\<lambda>k. length (filter (\<lambda>n. bit_len (unat n) = k) ns)) [0..<33]"

lemma length_buckets [simp]: "length (buckets ns) = 33"
  by (simp add: buckets_def)

lemma bit_len_u32: "bit_len (unat (n :: u32)) < 33"
  using unat_u32[of n] bit_len_le[of "unat n" 32] by simp

lemma buckets_snoc:
  "buckets (ns @ [n]) = (buckets ns)[bit_len (unat n) := buckets ns ! bit_len (unat n) + 1]"
  by (rule nth_equalityI) (simp_all add: buckets_def nth_list_update nth_append)

lemma sum_buckets: "sum_list (buckets ns) = length ns"
proof (induction ns rule: rev_induct)
  case Nil
  have "buckets [] = replicate 33 0" by (simp add: buckets_def map_replicate_const)
  then show ?case by (simp add: sum_list_replicate)
next
  case (snoc n ns)
  have "buckets ns ! bit_len (unat n) \<le> sum_list (buckets ns)"
    by (rule elem_le_sum_list) (simp add: bit_len_u32)
  with snoc show ?case using bit_len_u32[of n] by (simp add: buckets_snoc sum_list_update)
qed

text \<open>The counters, as 32-bit numbers, in either build.\<close>

abbreviation stalled_rounds :: "(u32 \<times> u32 \<times> bool) list \<Rightarrow> nat" where
  "stalled_rounds rs \<equiv> length (filter (\<lambda>(s, c, w). s = 0 \<and> c = 0) rs)"

abbreviation woken_rounds :: "(u32 \<times> u32 \<times> bool) list \<Rightarrow> nat" where
  "woken_rounds rs \<equiv> length (filter (\<lambda>(s, c, w). w) rs)"

definition counted :: "u32 \<Rightarrow> (u32 \<times> u32 \<times> bool) list \<Rightarrow> 'k flood \<Rightarrow> bool" where
  "counted tot rs st \<longleftrightarrow>
     unat (fl_sent st) = (\<Sum>(s, c, w)\<leftarrow>rs. unat s) \<and> unat (fl_completed st) = (\<Sum>(s, c, w)\<leftarrow>rs. unat c) \<and>
     fl_completed st \<le> fl_sent st \<and> fl_sent st \<le> tot \<and>
     fl_loops st = of_nat (length rs) \<and> fl_stall st = of_nat (stalled_rounds rs) \<and> fl_woken st = of_nat (woken_rounds rs) \<and>
     fl_tx_log st = map of_nat (buckets (map fst rs)) \<and> fl_cq_log st = map of_nat (buckets (map (fst \<circ> snd) rs))"

lemma log_batch_InrD:
  assumes "log_batch pf n (map of_nat (buckets ns)) = Inr log"
  shows "log = map of_nat (buckets (ns @ [n]))"
proof -
  have "sub_chk pf (32 :: u64) (ucast (leading_zeros n)) = Inr (32 - ucast (leading_zeros n))"
    by (rule sub_chk_fits[OF log_index_fits])
  with assms bit_len_u32[of n] show ?thesis
    by (auto simp: log_batch_def log_index res_simps buckets_snoc map_update add.commute dest!: incr_i32_InrD)
qed

lemma flood_stats_InrD:
  assumes "flood_stats pf s c st = Inr st'" and "fl_tx_log st = map of_nat (buckets ns)" and "fl_cq_log st = map of_nat (buckets ks)"
  shows "fl_sent st' = fl_sent st + s" and "fl_completed st' = fl_completed st + c" and "fl_woken st' = fl_woken st"
    and "fl_loops st' = fl_loops st + 1" and "pf = Debug \<longrightarrow> fl_loops st \<noteq> 0x7FFFFFFF"
    and "fl_stall st' = (if s = 0 \<and> c = 0 then fl_stall st + 1 else fl_stall st)"
    and "fl_tx_log st' = map of_nat (buckets (ns @ [s]))" and "fl_cq_log st' = map of_nat (buckets (ks @ [c]))"
  using assms
  by (auto simp: flood_stats_def res_simps split: if_splits dest!: incr_i32_InrD add_chk_InrD log_batch_InrD)

lemma counted_round:
  assumes ok: "counted tot rs st" and "flood_round S pf batch tot desc r st = Inr st'"
    and did: "round_did pf batch tot desc r st = Some x"
  shows "counted tot (rs @ [x]) st'"
    and "pf = Debug \<longrightarrow> length rs < 2 ^ 31 \<longrightarrow> length rs + 1 < 2 ^ 31"
proof -
  from assms(2) obtain s c w p m tx dq woken where "round_did pf batch tot desc r st = Some (s, c, w)"
    and bounds: "s \<le> saturating_sub tot (fl_sent st)" "c \<le> saturating_sub (fl_sent st) (fl_completed st)"
    and woken: "woken = (if w then fl_woken st + 1 else fl_woken st)"
    and stats: "flood_stats pf s c (st\<lparr>fl_proc := p, fl_mem := m, fl_tx := tx, fl_device := dq, fl_woken := woken\<rparr>) = Inr st'"
    by (rule flood_round_parts)
  with did have x: "x = (s, c, w)" by simp
  note C = ok[unfolded counted_def]
  have "fl_tx_log (st\<lparr>fl_proc := p, fl_mem := m, fl_tx := tx, fl_device := dq, fl_woken := woken\<rparr>) =
      map of_nat (buckets (map fst rs))"
    "fl_cq_log (st\<lparr>fl_proc := p, fl_mem := m, fl_tx := tx, fl_device := dq, fl_woken := woken\<rparr>) =
      map of_nat (buckets (map (fst \<circ> snd) rs))" using C by simp_all
  note D = flood_stats_InrD[OF stats this, simplified]
  have s: "unat (fl_sent st + s) = unat (fl_sent st) + unat s" "fl_sent st + s \<le> tot"
    using C bounds(1) unat_u32[of tot] unat_add_lem[of "fl_sent st" s] saturating_sub_le[of "fl_sent st" tot] unat_sub[of "fl_sent st" tot]
    by (auto simp: word_le_nat_alt)
  have c: "unat (fl_completed st + c) = unat (fl_completed st) + unat c" "fl_completed st + c \<le> fl_sent st + s"
    using C bounds(2) s unat_u32[of "fl_sent st"] unat_add_lem[of "fl_completed st" c]
      saturating_sub_le[of "fl_completed st" "fl_sent st"] unat_sub[of "fl_completed st" "fl_sent st"]
    by (auto simp: word_le_nat_alt)
  show "counted tot (rs @ [x]) st'"
    using C s c woken by (auto simp: counted_def D x)
  show "pf = Debug \<longrightarrow> length rs < 2 ^ 31 \<longrightarrow> length rs + 1 < 2 ^ 31"
  proof (intro impI)
    assume "pf = Debug" and less: "length rs < 2 ^ 31"
    then have "of_nat (length rs) \<noteq> (of_nat (2 ^ 31 - 1) :: u32)" using C D(5) by simp
    then have "length rs \<noteq> 2 ^ 31 - 1" by metis
    with less show "length rs + 1 < 2 ^ 31" by linarith
  qed
qed

lemma counted_trace:
  assumes "flood_trace S pf batch tot desc ks n (flood_init p su) rs st"
  shows "counted tot rs st \<and> (pf = Debug \<longrightarrow> length rs < 2 ^ 31)"
  using assms
proof (induction n "flood_init p su" rs st rule: flood_trace.induct)
  case (trace_done n)
  have "map of_nat (buckets []) = (replicate 33 0 :: u32 list)" by (simp add: buckets_def map_replicate_const)
  then show ?case by (simp add: counted_def flood_init_def)
next
  case (trace_round n rs st1 st2 x)
  with counted_round[of tot rs st1 S pf batch desc "ks (n + length rs)" st2 x] show ?case by auto
qed

text \<open>What is printed, if the rounds fit into an \<open>i32\<close>.\<close>

definition rounds_report :: "(u32 \<times> u32 \<times> bool) list \<Rightarrow> u8 list" where
  "rounds_report rs = report_text (int (length rs)) (int (stalled_rounds rs)) (int (woken_rounds rs))
     (map int (buckets (map fst rs))) (map int (buckets (map (fst \<circ> snd) rs)))"

lemma sint_of_nat: "n < 2 ^ 31 \<Longrightarrow> sint (of_nat n :: u32) = int n"
  by (simp add: signed_of_nat signed_take_bit_int_eq_self_iff)

lemma counted_report:
  assumes "counted tot rs st" and "length rs < 2 ^ 31"
  shows "flood_report st = rounds_report rs"
proof -
  have le: "length (filter P xs) < 2 ^ 31" if "length xs = length rs" for P and xs :: "'x list"
    using length_filter_le[of P xs] that assms(2) by linarith
  have "sint (of_nat b :: u32) = int b" if "b \<in> set (buckets xs)" "length xs = length rs" for b xs
    using that le by (auto simp: buckets_def intro!: sint_of_nat)
  then have logs: "map sint (map (of_nat :: nat \<Rightarrow> u32) (buckets xs)) = map int (buckets xs)" if "length xs = length rs" for xs
    using that by simp
  have "sint (of_nat (stalled_rounds rs) :: u32) = int (stalled_rounds rs)" "sint (of_nat (woken_rounds rs) :: u32) = int (woken_rounds rs)"
    "sint (of_nat (length rs) :: u32) = int (length rs)"
    using le[OF refl] assms(2) by (intro sint_of_nat; blast)+
  then show ?thesis
    using assms(1)[unfolded counted_def] logs[of "map fst rs"] logs[of "map (fst \<circ> snd) rs"]
    by (simp only: flood_report_def rounds_report_def length_map)
qed

subsection \<open>The counters of \<open>flood-mt\<close>\<close>

text \<open>
  What the completing threads still have to enter: their rounds not in a bucket, and their empty rounds not in bucket 0.
  The counters wrap around, and so do these sums.
\<close>

fun unbooked :: "comp_pc \<Rightarrow> u32" where
  "unbooked (CLog n) = 1"
| "unbooked _ = 0"

fun unbooked_stall :: "comp_pc \<Rightarrow> u32" where
  "unbooked_stall (CCompleted n) = (if n = 0 then 1 else 0)"
| "unbooked_stall (CCounter n) = (if n = 0 then 1 else 0)"
| "unbooked_stall (CLoops n) = (if n = 0 then 1 else 0)"
| "unbooked_stall (CLog n) = (if n = 0 then 1 else 0)"
| "unbooked_stall _ = 0"

definition booked :: "'k mt \<Rightarrow> bool" where
  "booked st \<longleftrightarrow> (let sh = mt_shared st; pcs = map cp_pc (mt_completers st) in
     length (FloodMt.cq_log_batch sh) = 33 \<and>
     stat_loops sh = sum_list (FloodMt.cq_log_batch sh) + sum_list (map unbooked pcs) \<and>
     stat_stall sh = FloodMt.cq_log_batch sh ! 0 + sum_list (map unbooked_stall pcs))"

lemma sum_list_set:
  fixes xs :: "'a :: ab_group_add list"
  shows "k < length xs \<Longrightarrow> sum_list (xs[k := x]) = sum_list xs + x - xs ! k"
  by (induction xs arbitrary: k) (auto simp: nth_Cons algebra_simps split: nat.splits)

lemma bit_len_0: "bit_len (unat n) = 0 \<longleftrightarrow> n = (0 :: u32)"
  by (subst bit_len.simps) (simp add: unsigned_eq_0_iff)

lemma completer_step_books:
  assumes "completer_step S pf batch tot env env' sh th = Inr (sh', th')" and "length (FloodMt.cq_log_batch sh) = 33"
  shows "length (FloodMt.cq_log_batch sh') = 33"
    and "stat_loops sh' = stat_loops sh + (sum_list (FloodMt.cq_log_batch sh') - sum_list (FloodMt.cq_log_batch sh)) +
      (unbooked (cp_pc th') - unbooked (cp_pc th))"
    and "stat_stall sh' = stat_stall sh + (FloodMt.cq_log_batch sh' ! 0 - FloodMt.cq_log_batch sh ! 0) +
      (unbooked_stall (cp_pc th') - unbooked_stall (cp_pc th))"
proof -
  have "length (FloodMt.cq_log_batch sh') = 33 \<and>
    stat_loops sh' = stat_loops sh + (sum_list (FloodMt.cq_log_batch sh') - sum_list (FloodMt.cq_log_batch sh)) +
      (unbooked (cp_pc th') - unbooked (cp_pc th)) \<and>
    stat_stall sh' = stat_stall sh + (FloodMt.cq_log_batch sh' ! 0 - FloodMt.cq_log_batch sh ! 0) +
      (unbooked_stall (cp_pc th') - unbooked_stall (cp_pc th))"
  proof (cases "cp_pc th")
    case (CLog n)
    with assms bit_len_u32[of n] bit_len_0[of n] show ?thesis
      by (auto simp: completer_step_def log_atomic_eq sum_list_set nth_list_update)
  qed (use assms in \<open>auto simp: completer_step_def res_simps split: if_splits dest: arg_cong[where f = cp_pc]\<close>)
  then show "length (FloodMt.cq_log_batch sh') = 33"
    and "stat_loops sh' = stat_loops sh + (sum_list (FloodMt.cq_log_batch sh') - sum_list (FloodMt.cq_log_batch sh)) +
      (unbooked (cp_pc th') - unbooked (cp_pc th))"
    and "stat_stall sh' = stat_stall sh + (FloodMt.cq_log_batch sh' ! 0 - FloodMt.cq_log_batch sh ! 0) +
      (unbooked_stall (cp_pc th') - unbooked_stall (cp_pc th))" by blast+
qed

lemma sender_step_books:
  assumes "sender_step S pf batch tot desc env sh th = Inr (sh', th')"
  shows "FloodMt.cq_log_batch sh' = FloodMt.cq_log_batch sh" and "stat_loops sh' = stat_loops sh" and "stat_stall sh' = stat_stall sh"
  using assms by (auto simp: sender_step_def Let_def res_simps split: send_pc.splits if_splits)

lemma booked_step:
  assumes "mt_step S pf batch tot desc st st'" and ok: "booked st"
  shows "booked st'"
  using assms(1)
proof (cases rule: mt_stepE[consumes 1, case_names complete send kernel])
  case (complete i env env' sh th)
  have len: "length (FloodMt.cq_log_batch (mt_shared st)) = 33" using ok by (simp add: booked_def Let_def)
  note B = completer_step_books[OF complete(3) len]
  from complete(2) have "sum_list (map f (map cp_pc ((mt_completers st)[i := th]))) =
      sum_list (map f (map cp_pc (mt_completers st))) + f (cp_pc th) - f (cp_pc (mt_completers st ! i))" for f :: "comp_pc \<Rightarrow> u32"
    by (simp add: map_update sum_list_set)
  note S = this[of unbooked] this[of unbooked_stall]
  from ok show ?thesis unfolding complete(1) booked_def Let_def by (simp del: map_map add: B S)
next
  case (send i env sh th)
  with sender_step_books[OF send(3)] ok show ?thesis by (simp add: booked_def Let_def)
next
  case (kernel m)
  with ok show ?thesis by (simp add: booked_def Let_def)
qed

lemma booked_steps:
  assumes "(mt_step S pf batch tot desc)\<^sup>*\<^sup>* (mt_init p ms) st"
  shows "booked st"
  using assms
proof (induction rule: rtranclp_induct)
  case base
  have "sum_list (map f (map cp_pc (mt_completers (mt_init p ms)))) = 0" if "f CLoad = 0" for f :: "comp_pc \<Rightarrow> u32"
    using that by (simp add: mt_init_def comp_def case_prod_unfold)
  then show ?case by (simp add: booked_def mt_init_def sum_list_replicate)
qed (rule booked_step)

lemma mt_some_sender:
  assumes "mt_set_up S pf args area p0 = (Ok ms, p)" and "mt_threads args \<noteq> Some 0"
    and "(mt_step S pf batch tot desc)\<^sup>*\<^sup>* (mt_init p ms) st"
  shows "mt_senders st \<noteq> []"
proof -
  have "length (mt_senders st) = length (mt_senders (mt_init p ms))"
    using assms(3) by (induction rule: rtranclp_induct) (auto dest: mt_step_lengths)
  moreover have "0 < unat (mt_num_threads args)"
    using assms(2) by (auto simp: mt_num_threads_def unat_gt_0 split: option.splits)
  ultimately show ?thesis using mt_set_up_inv(3)[OF assms(1)] by auto
qed

subsection \<open>Properties\<close>

text \<open>
  C37. What \<open>flood\<close> prints at its end is true of its run, whatever the kernel does and in either build: the rounds together
  sent and reaped exactly \<open>total\<close> packets, and the text is that of their number, of the empty ones, of those that woke
  the kernel, and of how many sent, and reaped, a number of packets of each bit length.  A release build with \<open>2^31\<close>
  rounds or more prints wrapped counters; a build with overflow checks has fewer rounds if it gets to print at all.
\<close>

theorem flood_report_true:
  assumes "flood_main S pf args area ks p = Some (Inr st)"
  shows "\<exists>su p1 rs. flood_set_up S pf args area p = (Ok su, p1) \<and>
    flood_trace S pf (flood_batch args) (flood_total args) (su_desc su) ks 0 (flood_init p1 su) rs st \<and>
    (\<Sum>(s, c, w)\<leftarrow>rs. unat s) = unat (flood_total args) \<and> (\<Sum>(s, c, w)\<leftarrow>rs. unat c) = unat (flood_total args) \<and>
    (pf = Debug \<longrightarrow> length rs < 2 ^ 31) \<and> (length rs < 2 ^ 31 \<longrightarrow> flood_report st = rounds_report rs)"
proof -
  from assms obtain su p1 where run: "flood_set_up S pf args area p = (Ok su, p1)"
    and "flood_loop S pf (flood_batch args) (flood_total args) (su_desc su) ks 0 (flood_init p1 su) = Some (Inr st)"
    by (auto simp: flood_main_def split: prod.splits outcome.splits)
  from flood_loop_trace[OF this(2) refl] obtain rs where
    tr: "flood_trace S pf (flood_batch args) (flood_total args) (su_desc su) ks 0 (flood_init p1 su) rs st"
    and "flood_done (flood_total args) st" by blast
  with run counted_trace[OF tr] counted_report[of "flood_total args" rs st] show ?thesis
    by (intro exI[of _ su] exI[of _ p1] exI[of _ rs]) (auto simp: flood_done_def counted_def)
qed

theorem flood_report_true_witness:
  "\<exists>ks st rs. flood_main demo_libc Release demo_args (65536, 1048576) ks demo_start = Some (Inr st) \<and>
    (\<Sum>(s, c, w)\<leftarrow>rs. unat s) = 5000 \<and> (length rs < 2 ^ 31 \<longrightarrow> flood_report st = rounds_report rs)"
proof (rule demo_ready)
  fix su p1
  assume run: "flood_set_up demo_libc Release demo_args (65536, 1048576) demo_start = (Ok su, p1)"
    and pair: "ring_pair (su_txr su) (su_cqr su)" and quiet: "rings_quiet (su_mem su) (su_txr su) (su_cqr su)"
  have "flood_batch demo_args \<noteq> 0" by (simp add: flood_batch_def demo_args_def)
  from flood_loop_ends[OF steady_lawful[OF pair] this _ flood_init_inv[where p = p1, OF pair quiet]] steady_prompt[OF pair]
  obtain ks st where "flood_loop demo_libc Release (flood_batch demo_args) (flood_total demo_args) (su_desc su) ks 0
      (flood_init p1 su) = Some (Inr st)" by blast
  then have main: "flood_main demo_libc Release demo_args (65536, 1048576) ks demo_start = Some (Inr st)"
    by (simp add: flood_main_def run)
  have "unat (flood_total demo_args) = 5000" by (simp add: flood_total_def demo_args_def)
  with flood_report_true[OF main] main show ?thesis by metis
qed

text \<open>
  C38. What \<open>flood-mt\<close> prints at its end adds up, in every interleaving of its threads and whatever the kernel does: the
  loops are the sum of the completion buckets and the stalls are the bucket of empty rounds, both within the 32 bits of the
  counters, and with at least one thread the numbers per socket add up to \<open>total\<close>.
\<close>

theorem mt_report_adds_up:
  assumes "mt_set_up S pf args area p0 = (Ok ms, p)" and "mt_threads args \<noteq> Some 0"
    and "(mt_step S pf (mt_batch_size args) (mt_total_count args) (ms_desc ms))\<^sup>*\<^sup>* (mt_init p ms) st"
    and "mt_ended st"
  shows "\<exists>(tx :: u32 list) (cq :: u32 list) (socks :: u32 list) (queues :: u32 list). mt_report (mt_shared st) =
      report_text (uint (sum_list cq)) (uint (cq ! 0)) (uint (stat_woken (mt_shared st))) (map uint tx) (map uint cq) @
      bytes_of ''Tx by socket: '' @ debug_list (map uint socks) @ newline @
      bytes_of ''Cq by queue: '' @ debug_list (map uint queues) @ newline \<and>
    length tx = 33 \<and> length cq = (33 :: nat) \<and> sum_list (map unat socks) = unat (mt_total_count args)"
proof -
  let ?sh = "mt_shared st"
  have inv: "mt_inv (mt_total_count args) st" by (rule mt_inv_steps[OF assms(3) mt_set_up_inv(1)[OF assms(1)]])
  have "sum_list (map f (map cp_pc (mt_completers st))) = 0" if "f CEnd = 0" for f :: "comp_pc \<Rightarrow> u32"
    using assms(4) that by (auto simp: mt_ended_def list_all_iff intro!: sum_list_0 cong: map_cong)
  with booked_steps[OF assms(3)] have books: "stat_loops ?sh = sum_list (FloodMt.cq_log_batch ?sh)"
    "stat_stall ?sh = FloodMt.cq_log_batch ?sh ! 0" by (simp_all add: booked_def Let_def del: map_map)
  have ne: "mt_senders st \<noteq> []" using mt_some_sender[OF assms(1-3)] by simp
  then obtain th where "th \<in> set (mt_senders st)" "sd_pc th = SEnd"
    using assms(4) by (cases "mt_senders st") (auto simp: mt_ended_def)
  with inv have "mt_total_count args \<le> sent ?sh"
    by (auto simp: mt_inv_def Let_def sender_ok_def in_set_conv_nth)
  moreover have "held (owed \<circ> sd_pc) (mt_senders st) = 0" "held (uncounted \<circ> sd_pc) (mt_senders st) = 0"
    using assms(4) by (auto simp: mt_ended_def list_all_iff intro!: held_zero)
  ultimately have "held unat (tx_by_sock ?sh) = unat (mt_total_count args)"
    using inv by (auto simp: mt_inv_def Let_def word_le_nat_alt)
  with inv show ?thesis
    by (intro exI[of _ "FloodMt.tx_log_batch ?sh"] exI[of _ "FloodMt.cq_log_batch ?sh"] exI[of _ "tx_by_sock ?sh"]
        exI[of _ "cq_by_queue ?sh"]) (simp add: mt_report_def books held_def mt_inv_def Let_def)
qed

theorem mt_report_adds_up_witness:
  "\<exists>ms p (st :: demo mt) (tx :: u32 list) (cq :: u32 list) (socks :: u32 list) (queues :: u32 list). mt_set_up demo_libc Release demo_mt_args (65536, 1048576) demo_start = (Ok ms, p) \<and>
    mt_ended st \<and> mt_report (mt_shared st) =
      report_text (uint (sum_list cq)) (uint (cq ! 0)) (uint (stat_woken (mt_shared st))) (map uint tx) (map uint cq) @
      bytes_of ''Tx by socket: '' @ debug_list (map uint socks) @ newline @
      bytes_of ''Cq by queue: '' @ debug_list (map uint queues) @ newline \<and> sum_list (map unat socks) = 1"
proof (rule demo_mt_run)
  fix ms p st
  assume run: "mt_set_up demo_libc Release demo_mt_args (65536, 1048576) demo_start = (Ok ms, p)"
    and steps: "(mt_step demo_libc Release 1024 1 (ms_desc ms))\<^sup>*\<^sup>* (mt_init p ms) st" and fin: "mt_ended st"
  have "mt_threads demo_mt_args \<noteq> Some 0" by (simp add: demo_mt_args_def)
  from run fin mt_report_adds_up[OF run this, unfolded demo_mt_numbers, OF steps fin] show ?thesis
    unfolding unat_1 by blast
qed

end
