(* ===== verification/Spec2Isabelle.thy ===== *)
theory Spec2Isabelle
  imports MtPanics WeakRx FloodMtWeak Report
begin

text \<open>
  xdpilone: user-space access to AF_XDP sockets (Linux), in Rust.

  WHAT THE PROGRAM IS.  A \<open>Umem\<close> registers a memory area with the kernel and cuts it into frames.
  Packets are passed as descriptors of frames through four rings shared with the kernel by \<open>mmap\<close>.
  User space produces into the fill and the transmit ring and consumes from the completion and the
  receive ring; the kernel does the opposite.  A ring is two 32-bit heads that wrap around, a flags
  word, and a power-of-two number of slots.  \<open>Umem::fq_cq\<close> sets up the fill and completion rings of
  one device queue, which it claims in a set shared by all handles; \<open>Umem::rx_tx\<close>, \<open>User::map_rx\<close>
  and \<open>User::map_tx\<close> set up and map the packet rings of a socket; \<open>bind\<close> activates it.  Rings are
  used through proxies (\<open>WriteFill\<close>, \<open>ReadComplete\<close>, \<open>WriteTx\<close>, \<open>ReadRx\<close>) that reserve or take a run
  of slots, write or read them, publish, and give back the rest when dropped.

  THE THEORIES, in the order of their dependencies.
    \<^item> \<open>Prelude\<close>: machine integers as words, the two build profiles (\<open>Debug\<close> has overflow checks and
      debug assertions, \<open>Release\<close> neither), panics as \<open>Inl\<close>, outcomes of fallible functions, masking
      by a power of two, distance on the 32-bit circle.
    \<^item> \<open>Memory\<close>: the shared memory as bytes at 64-bit addresses; the interface \<open>slot_data\<close> of what a
      slot holds (size, encoding, decoding).
    \<^item> \<open>Xdp\<close>: \<open>src/xdp.rs\<close>, the structs of the kernel interface and their byte layout.
    \<^item> \<open>Sys\<close>: the system calls, as a record of functions over an arbitrary type of system states.
    \<^item> \<open>Ring\<close>: \<open>src/xsk/ring.rs\<close>, one definition per function, on the records \<open>XskRing\<close>, \<open>RingProd\<close>
      and \<open>RingCons\<close>; the heads live in the memory argument.
    \<^item> \<open>Slots\<close>: where slots are, that different ones are disjoint, what a run of slots holds.
    \<^item> \<open>Producer\<close>, \<open>Consumer\<close>: the invariants \<open>prod_inv\<close> and \<open>cons_inv\<close>, that every ring operation
      keeps them in the presence of the kernel, and the ring as an abstract queue, which \<open>submit\<close>
      appends to and \<open>release\<close> removes from.
    \<^item> \<open>Xsk\<close>: the data types of \<open>src/xsk.rs\<close> and the process state (system, counted descriptors,
      claimed queues).
    \<^item> \<open>Cursor\<close>, \<open>User\<close>: \<open>src/xsk/user.rs\<close>, the cursor \<open>BufIdxIter\<close> and the four proxies.
    \<^item> \<open>Session\<close>: the interface \<open>ring_session\<close>, the accounting contract of a proxy, with an
      interpretation for each of the four.
    \<^item> \<open>Blocks\<close>, \<open>Batches\<close>: one proxy opened, used, published and dropped, as a whole.
    \<^item> \<open>Iter\<close>: the writers' \<open>insert\<close> over any iterator, endless ones included, and that it is \<open>insert\<close>
      over the list of what it pulls.
    \<^item> \<open>Commits\<close>: proxies dropped unpublished, or publishing several times.
    \<^item> \<open>Spsc\<close>: step relations in which user space and the kernel take turns in any order, with every call of a
      proxy allowed at any time, their invariants over all reachable states, and delivery in order.  A proxy that
      goes on with another item after it has published a part of what it holds leads to states of their own
      (\<open>TxSpoilt\<close>, \<open>RxSpoilt\<close>): what happens then is in \<open>Commits\<close>.
    \<^item> \<open>ControlSet\<close>: the trait \<open>ControlSet\<close> as an interface and its implementation.
    \<^item> \<open>Iface\<close>, \<open>Sockets\<close>, \<open>Umem\<close>: \<open>src/xsk/iface.rs\<close>, \<open>socket.rs\<close>, \<open>umem.rs\<close>, with the clean-up
      that destructors of local values do on every failing path.
    \<^item> \<open>Demo\<close>: a small concrete operating system for the witnesses.
    \<^item> \<open>Queries\<close>, \<open>Setup\<close>, \<open>Frames\<close>, \<open>Bringup\<close>: what looking up interfaces and offsets, setting up
      and tearing down, addressing frames, and mapping rings achieve.
    \<^item> \<open>TwoRings\<close>: a transmit and a completion ring in one memory, next to a kernel that serves both.
    \<^item> \<open>Flood\<close>: the client \<open>examples/flood.rs\<close>: arguments, packet, set-up, the loop and its counters.
    \<^item> \<open>FloodRun\<close>, \<open>FloodMain\<close>: one round of the client, the invariant of its loop, that it ends when the
      kernel completes what it is given, and what the command line can make of it.
    \<^item> \<open>FloodMt\<close>: the multi-threaded client \<open>examples/flood-mt.rs\<close>: its set-up loops, and its threads as a
      step relation over the shared counters.
    \<^item> \<open>FloodMtRun\<close>, \<open>FloodMtMain\<close>: the accounts its counters keep in every interleaving, what holds when
      all threads have ended, which queues its set-up brings up, and in which calls its threads can panic.
    \<^item> \<open>MtBinds\<close>: the calls of \<open>bind\<close> that this set-up makes, on a system that records them.
    \<^item> \<open>FloodMtWeak\<close>: the same accounts where the relaxed loads of the counters may return any earlier value.
    \<^item> \<open>Lifecycle\<close>: all handles of a program together, every API call as a step, failing and panicking ones
      included, and that reference counts, open descriptors, mappings and claims are exactly those of the
      handles held.
    \<^item> \<open>Teardown\<close>: the two clients on those accounts: every way out of their set-up, through the destructors
      that unwinding runs, and the end of their \<open>main\<close> leave nothing behind.
    \<^item> \<open>Panics\<close>, \<open>MtPanics\<close>: the same through a panic in the loop of \<open>flood\<close> and in any thread of \<open>flood-mt\<close>,
      whose other threads go on: what unwinding drops, that it never aborts, and what a lost thread leaves undone.
    \<^item> \<open>Weak\<close>: the heads and slots of a ring in a release/acquire memory, and the ring operations and the cursor
      over it with the orderings of the source: a head is the history of its stores, each side has a view,
      an access to a slot without the other side's accesses in view is a data race.
    \<^item> \<open>WeakRing\<close>: the invariant that keeps the two sides apart, and that loads, stores and slot
      accesses made within it keep it.
    \<^item> \<open>WeakTx\<close>, \<open>WeakRx\<close>: writers against the kernel and readers against the kernel in every
      interleaving and for every outcome of the loads, free of races, delivering in order, and the receiving side
      by itself always able to go on until all is delivered; how far the advisory counts can be off; and what a ring mapped too late reads.
    \<^item> \<open>Errors\<close>: the functions of \<open>Errno\<close> in \<open>src/lib.rs\<close> and the text it prints.
    \<^item> \<open>Report\<close>: the statistics both clients print at their end, and that they are true of the run.
    \<^item> this theory: from mapping a ring to delivery, and from looking up an interface to \<open>bind\<close>.

  HOW THE STATE CORRESPONDS.  A Rust struct is the record of the same name; a field that would clash
  carries a prefix.  A proxy borrows its ring exclusively, so its record carries the ring and its
  \<open>drop\<close> returns it.  \<open>&AtomicU32\<close> and slot pointers are addresses; operations that access shared
  memory more than once take a function \<open>env\<close> that says what the kernel does in between.  The kernel
  is constrained only by \<open>prod_rely\<close> (it consumes what is committed, and touches neither the
  producer head nor a slot) and \<open>cons_rely\<close> (it produces into free slots only).  \<open>Arc<SocketFd>\<close> is an
  index into a list of descriptors with their counts; \<open>DeviceControl\<close> is an index into a list of sets.

  BOUNDS.  Rings have \<open>2^k\<close> slots with \<open>k < 32\<close>, which \<open>is_power_of_two\<close> on \<open>u32\<close> gives.  All loops of
  the library recurse on the cursor's \<open>remain\<close> or on a list, so no fuel is needed.  The main loop of
  \<open>flood\<close> may run forever; it is a \<open>partial_function\<close> whose value is then \<open>None\<close>.  The loops of \<open>flood-mt\<close>'s
  threads are cycles of a step relation.

  MEMORY ORDERINGS.  \<open>Ring\<close> and what is built on it have one memory that all see alike, with the kernel acting
  between any two accesses.  \<open>Weak\<close> has the orderings instead, and slots that hold whole values; \<open>weak_ops_compute\<close>
  says that given what the loads return, both compute the same.  There, release builds are followed, each proxy
  publishes once (in \<open>Spsc\<close> it may do so any number of times), and the kernel keeps to its side of the protocol (acquire the other head, access slots, store
  its own head with release).

  WHAT IS NOT MODELLED.  The ordering of the plain read of the flags word.  A panic
  discards what the operation it interrupts would have returned; stores to shared memory made before it stay made.  The iterators
  given to \<open>insert\<close> have no effects beyond their own state.  The casts
  between slices of \<open>u32\<close> and of \<open>BufIdx\<close>, which is transparent.  Of \<open>examples/flood.rs\<close>
  the clock, the argument parser and the printed lines with floating-point numbers in them, likewise of
  \<open>examples/flood-mt.rs\<close>; a thread's use of its own ring is one step there, with anything done to the memory in between.
  A panic that aborts the process, which neither client can reach, ends the model.

  WHAT MODELLING SHOWED.  The fallback for kernels without namespace cookies is dead
  (\<open>netns_fallback_dead\<close>); \<open>from_ifindex\<close> does not set the index (\<open>from_ifindex_binds_elsewhere\<close>);
  after a partial commit or release a proxy goes on at the wrong slot
  (\<open>second_commit_publishes_stale\<close>, \<open>second_release_skips\<close>); builds with overflow checks panic where
  the heads wrap around (\<open>count_free_debug_panics\<close>, \<open>commit_debug_panics_late\<close>); mapping a producer
  ring again while entries are in flight over-reports its free slots (\<open>remapped_ring_overcommits\<close>); in a
  debug build, mapping a ring of a size that is no power of two panics and leaves it mapped
  (\<open>map_tx_panic_leaks\<close>); a ring mapped after the kernel has produced into it is first read without
  synchronisation (\<open>late_map_races\<close>).
  A sender of \<open>flood-mt\<close> that panics, in a build with overflow checks, keeps the share of the total it had
  reserved, so the other senders never end and the panic is never reported (\<open>mt_panic_hangs\<close>).
  The client \<open>flood\<close> accepts a batch size of 0 and then never ends (\<open>flood_zero_batch_hangs\<close>), and
  does not check the packet length it is asked for against the frame (\<open>prepare_frame_spec\<close>).
\<close>

subsection \<open>From mapping to delivery\<close>

text \<open>
  C1. In a release build a transmit ring as \<open>map_tx\<close> returns it, over a kernel ring just set up, is a
  lossless channel: user space may open proxies, insert, commit, close or abandon them, and the kernel may move,
  in any order and any number of times, and what the kernel has taken followed by what the ring holds
  is exactly what was committed, and never more than the ring's size waits.  This ends where a proxy that has
  committed something but not all it reserved is given another descriptor, which \<open>commit_prod\<close> makes it put
  into the wrong slot; the system is \<open>TxSpoilt\<close> then, not a \<open>TxSys\<close>.
\<close>

theorem mapped_tx_fifo:
  assumes "User_map_tx S pf us p = (Ok tx, p')" and "tx_size (user_config us) = Some n"
    and "is_power_of_two n" and "offsets_ok 16 n (mo_tx (smo_inner (user_map us)))"
    and "unat (fst (prod_mmap_addr (tx_ring tx))) + unat (snd (prod_mmap_addr (tx_ring tx))) < 2 ^ 64"
    and "kprod (sys_memory S (os p')) (prod_inner (tx_ring tx)) =
      kcons (sys_memory S (os p')) (prod_inner (tx_ring tx))"
    and "tx_step\<^sup>*\<^sup>* (TxSys (TxIdle tx) (sys_memory S (os p')) [] []) (TxSys ph m s g)"
  shows "free_slots (sys_memory S (os p')) (prod_inner (tx_ring tx)) = unat n \<and>
    s = g @ queue dec_desc 16 m (tx_view ph) \<and> length s \<le> length g + nslots (tx_view ph) \<and>
    prod_inv m (tx_view ph)"
proof -
  note ready = map_tx_ready[OF assms(1-6)]
  have "in_flight (sys_memory S (os p')) (prod_inner (tx_ring tx)) = 0"
    using assms(6) by (simp add: in_flight_def)
  then have "queue dec_desc 16 (sys_memory S (os p')) (prod_inner (tx_ring tx)) = []"
    by (simp add: queue_def)
  then have "tx_ok (TxSys (TxIdle tx) (sys_memory S (os p')) [] [])" using ready by simp
  then have "tx_ok (TxSys ph m s g)" by (rule tx_steps_ok[OF assms(7)])
  then show ?thesis using ready prod_inv_split(2)[of m "tx_view ph"] by auto
qed

theorem mapped_tx_fifo_witness:
  "\<exists>tx p' tx' m. User_map_tx demo_libc Release demo_user (demo_proc []) = (Ok tx, p') \<and>
    tx_step\<^sup>*\<^sup>* (TxSys (TxIdle tx) (d_mem (os p')) [] []) (TxSys (TxIdle tx') m [sample_desc] [sample_desc]) \<and>
    free_slots (d_mem (os p')) (prod_inner (tx_ring tx)) = 4 \<and>
    queue dec_desc 16 m (prod_inner (tx_ring tx')) = []"
proof -
  obtain i p' where run: "User_map_tx demo_libc Release demo_user (demo_proc []) =
      (Ok \<lparr>tx_ring = \<lparr>prod_inner = i, prod_mmap_addr = (2147487744, 256)\<rparr>, tx_fd = 0\<rparr>, p')"
    and zero: "d_mem (os p') = (\<lambda>_. 0)" using demo_map_tx by auto
  let ?tx = "\<lparr>tx_ring = \<lparr>prod_inner = i, prod_mmap_addr = (2147487744, 256)\<rparr>, tx_fd = 0\<rparr>"
  have mem: "sys_memory demo_libc (os p') = (\<lambda>_. 0)" using zero by (simp add: demo_libc_def)
  have user: "tx_size (user_config demo_user) = Some 4"
    "offsets_ok 16 4 (mo_tx (smo_inner (user_map demo_user)))"
    using demo_ring_ok by (simp_all add: demo_user_def demo_offsets_def)
  have addr: "unat (fst (prod_mmap_addr (tx_ring ?tx))) + unat (snd (prod_mmap_addr (tx_ring ?tx))) < 2 ^ 64"
    and heads: "kprod (sys_memory demo_libc (os p')) (prod_inner (tx_ring ?tx)) =
      kcons (sys_memory demo_libc (os p')) (prod_inner (tx_ring ?tx))"
    by (simp_all add: mem zero_heads)
  note ready = map_tx_ready[OF run user(1) pow2_4 user(2) addr heads]
  have "in_flight (sys_memory demo_libc (os p')) (prod_inner (tx_ring ?tx)) = 0"
    using heads by (simp add: in_flight_def)
  then have "tx_ok (TxSys (TxIdle ?tx) (sys_memory demo_libc (os p')) [] [])"
    using ready by (simp add: queue_def)
  from tx_sends_one[OF this, of sample_desc] ready obtain tx' m where
    steps: "tx_step\<^sup>*\<^sup>* (TxSys (TxIdle ?tx) (sys_memory demo_libc (os p')) [] [])
      (TxSys (TxIdle tx') m [sample_desc] [sample_desc])" by auto
  from mapped_tx_fifo[OF run user(1) pow2_4 user(2) addr heads steps]
  have "free_slots (sys_memory demo_libc (os p')) (prod_inner (tx_ring ?tx)) = 4 \<and>
    queue dec_desc 16 m (prod_inner (tx_ring tx')) = []" by simp
  moreover have "sys_memory demo_libc (os p') = d_mem (os p')" by (simp add: demo_libc_def)
  ultimately show ?thesis using run steps by auto
qed

text \<open>
  C2. In a release build a receive ring as \<open>map_rx\<close> returns it, whatever the kernel has put there
  already, delivers
  every descriptor the kernel produces once and in order: user space may open proxies, read, release, close or
  abandon them, and the kernel may move, in any order and any number of times, and what was released followed by
  what the ring holds is exactly what was there at first and was produced since.  This ends where a proxy that
  has released something but not all it took reads another descriptor, which \<open>release_cons\<close> makes it read from
  the wrong slot; the system is \<open>RxSpoilt\<close> then, not an \<open>RxSys\<close>.
\<close>

theorem mapped_rx_fifo:
  assumes "User_map_rx S pf us p = (Ok rx, p')" and "rx_size (user_config us) = Some n"
    and "is_power_of_two n" and "offsets_ok 16 n (mo_rx (smo_inner (user_map us)))"
    and "unat (fst (cons_mmap_addr (rx_ring rx))) + unat (snd (cons_mmap_addr (rx_ring rx))) < 2 ^ 64"
    and "in_flight (sys_memory S (os p')) (cons_inner (rx_ring rx)) \<le> unat n"
    and "rx_step\<^sup>*\<^sup>* (RxSys (RxIdle rx) (sys_memory S (os p'))
      (queue dec_desc 16 (sys_memory S (os p')) (cons_inner (rx_ring rx))) []) (RxSys ph m made done1)"
  shows "avail (sys_memory S (os p')) (cons_inner (rx_ring rx)) =
      in_flight (sys_memory S (os p')) (cons_inner (rx_ring rx)) \<and>
    made = done1 @ queue dec_desc 16 m (rx_view ph) \<and> cons_inv m (rx_view ph)"
proof -
  note ready = map_rx_ready[OF assms(1-6)]
  then have "rx_ok (RxSys (RxIdle rx) (sys_memory S (os p'))
      (queue dec_desc 16 (sys_memory S (os p')) (cons_inner (rx_ring rx))) [])" by simp
  then have "rx_ok (RxSys ph m made done1)" by (rule rx_steps_ok[OF assms(7)])
  with ready show ?thesis by simp
qed

theorem mapped_rx_fifo_witness:
  "\<exists>rx p' rx' m. User_map_rx demo_libc Release demo_user (demo_proc []) = (Ok rx, p') \<and>
    rx_step\<^sup>*\<^sup>* (RxSys (RxIdle rx) (d_mem (os p')) [] []) (RxSys (RxIdle rx') m [sample_desc] [sample_desc]) \<and>
    avail (d_mem (os p')) (cons_inner (rx_ring rx)) = 0 \<and>
    queue dec_desc 16 m (cons_inner (rx_ring rx')) = [] \<and> cons_inv m (cons_inner (rx_ring rx'))"
proof -
  obtain i p' where run: "User_map_rx demo_libc Release demo_user (demo_proc []) =
      (Ok \<lparr>rx_ring = \<lparr>cons_inner = i, cons_mmap_addr = (4096, 256)\<rparr>, rx_fd = 0\<rparr>, p')"
    and zero: "d_mem (os p') = (\<lambda>_. 0)" using demo_map_rx by auto
  have mem: "sys_memory demo_libc (os p') = (\<lambda>_. 0)" using zero by (simp add: demo_libc_def)
  have user: "rx_size (user_config demo_user) = Some 4"
    "offsets_ok 16 4 (mo_rx (smo_inner (user_map demo_user)))"
    using demo_ring_ok by (simp_all add: demo_user_def demo_offsets_def)
  let ?rx = "\<lparr>rx_ring = \<lparr>cons_inner = i, cons_mmap_addr = (4096, 256)\<rparr>, rx_fd = 0\<rparr>"
  have fl: "in_flight (sys_memory demo_libc (os p')) (cons_inner (rx_ring ?rx)) = 0"
    by (simp add: mem in_flight_def zero_heads)
  then have few: "in_flight (sys_memory demo_libc (os p')) (cons_inner (rx_ring ?rx)) \<le> unat (4 :: u32)" by simp
  have addr: "unat (fst (cons_mmap_addr (rx_ring ?rx))) + unat (snd (cons_mmap_addr (rx_ring ?rx))) < 2 ^ 64"
    by simp
  have empty: "queue dec_desc 16 (sys_memory demo_libc (os p')) (cons_inner (rx_ring ?rx)) = []"
    using fl by (simp add: queue_def)
  have "rx_ok (RxSys (RxIdle ?rx) (sys_memory demo_libc (os p')) [] [])"
    using map_rx_ready[OF run user(1) pow2_4 user(2) addr few] empty by simp
  from rx_receives_one[OF this, of sample_desc] obtain rx' m where
    steps: "rx_step\<^sup>*\<^sup>* (RxSys (RxIdle ?rx) (sys_memory demo_libc (os p')) [] [])
      (RxSys (RxIdle rx') m [sample_desc] [sample_desc])" by auto
  from mapped_rx_fifo[OF run user(1) pow2_4 user(2) addr few, unfolded empty, OF steps] fl
  have "avail (sys_memory demo_libc (os p')) (cons_inner (rx_ring ?rx)) = 0 \<and>
    queue dec_desc 16 m (cons_inner (rx_ring rx')) = [] \<and> cons_inv m (cons_inner (rx_ring rx'))" by simp
  moreover have "sys_memory demo_libc (os p') = d_mem (os p')" by (simp add: demo_libc_def)
  ultimately show ?thesis using run steps by auto
qed

subsection \<open>An interface looked up by number\<close>

lemma with_xdp_socket_ifindex:
  "Socket_with_xdp_socket S info fd p = (Ok s, p') \<Longrightarrow>
    ifindex (if_ctx (sock_info s)) = ifindex (if_ctx info)"
  by (auto simp: Socket_with_xdp_socket_def Let_def split: prod.splits if_splits)

text \<open>
  C34. An interface looked up by number loses that number: after a successful \<open>from_ifindex\<close>, a socket
  made from the \<open>IfInfo\<close> is bound to whatever index the \<open>IfInfo\<close> held before, zero for a fresh one,
  not to the interface asked for.
\<close>

theorem from_ifindex_binds_elsewhere:
  assumes "IfInfo_from_ifindex S index info k = (Ok (), info', k')"
    and "Socket_new S info' p = (Ok s, p')" and "user_socket us = s"
  shows "sxdp_ifindex (bind_addr q us umem_sock) = IfInfo_ifindex info"
proof -
  have "if_ctx info' = if_ctx info"
    using assms(1) by (auto simp: IfInfo_from_ifindex_def Let_def split: prod.splits if_splits)
  moreover have "ifindex (if_ctx (sock_info s)) = ifindex (if_ctx info')"
    using assms(2) by (auto simp: Socket_new_def res_simps arc_new_def dest: with_xdp_socket_ifindex)
  ultimately show ?thesis
    by (simp add: bind_addr_def Let_def SockAddrXdp_default_def IfInfo_ifindex_def assms(3))
qed

theorem from_ifindex_binds_elsewhere_witness:
  "\<exists>info' k' s p'. IfInfo_from_ifindex demo_libc 7 IfInfo_invalid (demo_kernel []) = (Ok (), info', k') \<and>
    Socket_new demo_libc info' \<lparr>os = demo_kernel [], fds = [], ctls = []\<rparr> = (Ok s, p') \<and>
    sxdp_ifindex (bind_addr p' (demo_user\<lparr>user_socket := s\<rparr>) 0) = 0"
proof -
  obtain info' k' where look: "IfInfo_from_ifindex demo_libc 7 IfInfo_invalid (demo_kernel []) = (Ok (), info', k')"
    by (simp add: IfInfo_from_ifindex_def demo_libc_def Let_def)
  obtain s p' where made: "Socket_new demo_libc info' \<lparr>os = demo_kernel [], fds = [], ctls = []\<rparr> = (Ok s, p')"
    by (simp add: Socket_new_def on_os_def SocketFd_new_def arc_new_def Socket_with_xdp_socket_def Let_def
        demo_libc_def demo_kernel_def demo_state_def SOL_SOCKET_def SOL_XDP_def)
  have "user_socket (demo_user\<lparr>user_socket := s\<rparr>) = s" by simp
  from from_ifindex_binds_elsewhere[OF look made this, of p' 0] look made show ?thesis
    by (auto simp: IfInfo_ifindex_def IfInfo_invalid_def)
qed

end
